(* ===== verification/Prelude.thy ===== *)
theory Prelude
  imports Main "HOL-Library.Word" "HOL-Library.List_Lexorder"
begin

text \<open>
  Shared vocabulary of the development: the machine integer types of the Rust
  sources, byte strings, little-endian encodings, saturating arithmetic, the
  UTF-8 check of \<^verbatim>\<open>core::str::from_utf8\<close>, and the generic list lemmas the
  components use.

  Conventions.  \<^verbatim>\<open>u8 .. u64\<close> (and \<^verbatim>\<open>usize\<close> of the only target, x86\_64) are
  words of that width wherever the code's arithmetic can wrap or saturate;
  lengths, indices and offsets into a collection are \<^typ>\<open>nat\<close>.  A Rust string
  is its sequence of bytes.  A \<^verbatim>\<open>Result<T, &'static str>\<close> is \<^typ>\<open>string + 'a\<close>
  with the error message on the left.
\<close>

unbundle bit_operations_syntax

named_theorems wordarith \<open>facts that turn word arithmetic into arithmetic on nat\<close>

type_synonym u8 = "8 word"
type_synonym u16 = "16 word"
type_synonym u32 = "32 word"
type_synonym u64 = "64 word"
type_synonym usize = "64 word"
type_synonym bytes = "u8 list"
type_synonym 'a res = "string + 'a"

subsection \<open>Byte strings\<close>

text \<open>A byte string literal, \<^verbatim>\<open>b"..."\<close> or the bytes of a \<^verbatim>\<open>&str\<close>.\<close>

definition bstr :: "string \<Rightarrow> bytes" where
  "bstr s = map of_char s"

lemma length_bstr [simp]: "length (bstr s) = length s"
  by (simp add: bstr_def)

text \<open>\<^verbatim>\<open>s.starts_with(p)\<close> and \<^verbatim>\<open>s.contains(p)\<close> on byte sequences.\<close>

definition starts_with :: "'a list \<Rightarrow> 'a list \<Rightarrow> bool" where
  "starts_with xs p \<longleftrightarrow> take (length p) xs = p"

fun contains :: "'a list \<Rightarrow> 'a list \<Rightarrow> bool" where
  "contains [] p \<longleftrightarrow> p = []"
| "contains (x # xs) p \<longleftrightarrow> starts_with (x # xs) p \<or> contains xs p"

lemma starts_with_append [simp]: "starts_with (p @ xs) p"
  by (simp add: starts_with_def)

lemma contains_append [simp]: "contains (xs @ p @ ys) p"
proof (induction xs)
  case Nil
  show ?case
  proof (cases "p @ ys")
    case Nil
    then show ?thesis by simp
  next
    case (Cons a list)
    then have "starts_with (a # list) p" by (metis starts_with_append)
    with Cons show ?thesis by simp
  qed
next
  case (Cons x xs)
  then show ?case by simp
qed

subsection \<open>UTF-8\<close>

text \<open>
  Well-formed UTF-8 byte sequences, the table \<^verbatim>\<open>core::str::from_utf8\<close> implements:
  no overlong forms, no surrogates, nothing above U+10FFFF.
\<close>

definition utf8_cont :: "u8 \<Rightarrow> bool" where
  "utf8_cont b \<longleftrightarrow> 0x80 \<le> b \<and> b \<le> 0xBF"

definition utf8_second :: "u8 \<Rightarrow> u8 \<Rightarrow> bool" where
  "utf8_second b0 b1 \<longleftrightarrow>
     (if b0 = 0xE0 then 0xA0 \<le> b1 \<and> b1 \<le> 0xBF
      else if b0 = 0xED then 0x80 \<le> b1 \<and> b1 \<le> 0x9F
      else if b0 = 0xF0 then 0x90 \<le> b1 \<and> b1 \<le> 0xBF
      else if b0 = 0xF4 then 0x80 \<le> b1 \<and> b1 \<le> 0x8F
      else utf8_cont b1)"

fun from_utf8 :: "bytes \<Rightarrow> bool" where
  "from_utf8 [] \<longleftrightarrow> True"
| "from_utf8 (b0 # bs) \<longleftrightarrow>
     (if b0 < 0x80 then from_utf8 bs
      else if 0xC2 \<le> b0 \<and> b0 \<le> 0xDF then
        (case bs of b1 # r \<Rightarrow> utf8_cont b1 \<and> from_utf8 r | _ \<Rightarrow> False)
      else if 0xE0 \<le> b0 \<and> b0 \<le> 0xEF then
        (case bs of b1 # b2 # r \<Rightarrow> utf8_second b0 b1 \<and> utf8_cont b2 \<and> from_utf8 r
         | _ \<Rightarrow> False)
      else if 0xF0 \<le> b0 \<and> b0 \<le> 0xF4 then
        (case bs of b1 # b2 # b3 # r \<Rightarrow>
           utf8_second b0 b1 \<and> utf8_cont b2 \<and> utf8_cont b3 \<and> from_utf8 r
         | _ \<Rightarrow> False)
      else False)"

lemma from_utf8_ascii: "(\<forall>b\<in>set bs. b < 0x80) \<Longrightarrow> from_utf8 bs"
  by (induction bs) auto

text \<open>What follows the first character, if it is well formed.\<close>

definition utf8_rest :: "u8 \<Rightarrow> bytes \<Rightarrow> bytes option" where
  "utf8_rest b0 bs =
     (if b0 < 0x80 then Some bs
      else if 0xC2 \<le> b0 \<and> b0 \<le> 0xDF then
        (case bs of b1 # r \<Rightarrow> if utf8_cont b1 then Some r else None | _ \<Rightarrow> None)
      else if 0xE0 \<le> b0 \<and> b0 \<le> 0xEF then
        (case bs of b1 # b2 # r \<Rightarrow> if utf8_second b0 b1 \<and> utf8_cont b2 then Some r else None | _ \<Rightarrow> None)
      else if 0xF0 \<le> b0 \<and> b0 \<le> 0xF4 then
        (case bs of b1 # b2 # b3 # r \<Rightarrow>
           if utf8_second b0 b1 \<and> utf8_cont b2 \<and> utf8_cont b3 then Some r else None
         | _ \<Rightarrow> None)
      else None)"

lemma from_utf8_rest:
  "from_utf8 (b0 # bs) \<longleftrightarrow> (case utf8_rest b0 bs of None \<Rightarrow> False | Some r \<Rightarrow> from_utf8 r)"
proof -
  consider "b0 < 0x80" | "\<not> b0 < 0x80" "0xC2 \<le> b0 \<and> b0 \<le> 0xDF"
    | "\<not> b0 < 0x80" "\<not> (0xC2 \<le> b0 \<and> b0 \<le> 0xDF)" "0xE0 \<le> b0 \<and> b0 \<le> 0xEF"
    | "\<not> b0 < 0x80" "\<not> (0xC2 \<le> b0 \<and> b0 \<le> 0xDF)" "\<not> (0xE0 \<le> b0 \<and> b0 \<le> 0xEF)"
    by blast
  then show ?thesis
    unfolding from_utf8.simps(2) utf8_rest_def
    by cases (simp_all only: if_True if_False simp_thms option.case split: list.split if_split, auto)
qed

lemma utf8_rest_append: "utf8_rest b0 bs = Some r \<Longrightarrow> utf8_rest b0 (bs @ ys) = Some (r @ ys)"
  by (auto simp: utf8_rest_def split: if_splits list.splits)

lemma utf8_rest_length: "utf8_rest b0 bs = Some r \<Longrightarrow> length r \<le> length bs"
  by (auto simp: utf8_rest_def split: if_splits list.splits)

lemma from_utf8_append: "from_utf8 xs \<Longrightarrow> from_utf8 (xs @ ys) \<longleftrightarrow> from_utf8 ys"
proof (induction xs rule: length_induct)
  case (1 xs)
  show ?case
  proof (cases xs)
    case (Cons b0 bs)
    with 1 obtain r where r: "utf8_rest b0 bs = Some r" "from_utf8 r"
      by (auto simp: from_utf8_rest simp del: from_utf8.simps(2) split: option.splits)
    then have "from_utf8 (r @ ys) \<longleftrightarrow> from_utf8 ys"
      using 1 utf8_rest_length [OF r(1)] Cons by simp
    then show ?thesis
      using utf8_rest_append [OF r(1), of ys] by (simp add: Cons from_utf8_rest del: from_utf8.simps(2))
  qed simp
qed

subsection \<open>Saturating arithmetic\<close>

definition sat_add :: "'a::len word \<Rightarrow> 'a word \<Rightarrow> 'a word" where
  "sat_add a b = (if unat a + unat b < 2 ^ LENGTH('a) then a + b else - 1)"

definition sat_sub :: "'a::len word \<Rightarrow> 'a word \<Rightarrow> 'a word" where
  "sat_sub a b = (if b \<le> a then a - b else 0)"

definition sat_mul :: "'a::len word \<Rightarrow> 'a word \<Rightarrow> 'a word" where
  "sat_mul a b = (if unat a * unat b < 2 ^ LENGTH('a) then a * b else - 1)"

lemma unat_minus_one_max: "unat (- 1 :: 'a::len word) = 2 ^ LENGTH('a) - 1"
  by (simp add: unsigned_minus_1_eq_mask mask_eq_exp_minus_1)

lemma unat_sat_add [wordarith]:
  "unat (sat_add a b) = min (unat a + unat b) (2 ^ LENGTH('a) - 1)"
  for a b :: "'a::len word"
proof (cases "unat a + unat b < 2 ^ LENGTH('a)")
  case True
  then have "unat a + unat b \<le> 2 ^ LENGTH('a) - 1" by linarith
  with True show ?thesis by (simp add: sat_add_def unat_word_ariths)
next
  case False
  then have "2 ^ LENGTH('a) - 1 \<le> unat a + unat b" by linarith
  with False show ?thesis by (simp add: sat_add_def unat_minus_one_max)
qed

lemma unat_sat_sub [wordarith]: "unat (sat_sub a b) = unat a - unat b"
  for a b :: "'a::len word"
  by (auto simp: sat_sub_def unat_sub_if' word_le_nat_alt)

lemma le_sat_add: "a \<le> sat_add a b" for a :: "'a::len word"
proof -
  have "unat a < 2 ^ LENGTH('a)" by simp
  then have "unat a \<le> 2 ^ LENGTH('a) - 1" by linarith
  then show ?thesis by (simp add: word_le_nat_alt unat_sat_add)
qed

lemma unat_Suc [wordarith]:
  "unat (w + 1) = (if unat w + 1 < 2 ^ LENGTH('a) then unat w + 1 else 0)"
  for w :: "'a::len word"
proof -
  have "unat w < 2 ^ LENGTH('a)" by simp
  then have "\<not> unat w + 1 < 2 ^ LENGTH('a) \<Longrightarrow> unat w + 1 = 2 ^ LENGTH('a)" by linarith
  then show ?thesis by (auto simp: unat_word_ariths)
qed

lemma unat_Suc_lt: "unat w + 1 < 2 ^ LENGTH('a) \<Longrightarrow> unat (w + 1) = Suc (unat w)"
  for w :: "'a::len word"
  by (simp add: unat_Suc)

subsection \<open>Little-endian encodings\<close>

text \<open>
  \<^verbatim>\<open>x.to_le_bytes()\<close> of an \<open>n\<close>-byte integer with value \<open>x\<close>, and
  \<^verbatim>\<open>from_le_bytes\<close>.  \<^verbatim>\<open>x as u32\<close> of a length is the truncation these
  encodings perform anyway.
\<close>

primrec le_bytes :: "nat \<Rightarrow> nat \<Rightarrow> bytes" where
  "le_bytes 0 x = []"
| "le_bytes (Suc n) x = of_nat (x mod 256) # le_bytes n (x div 256)"

primrec le_nat :: "bytes \<Rightarrow> nat" where
  "le_nat [] = 0"
| "le_nat (b # bs) = unat b + 256 * le_nat bs"

lemma length_le_bytes [simp]: "length (le_bytes n x) = n"
  by (induction n arbitrary: x) auto

lemma unat_of_nat_u8: "unat (of_nat x :: u8) = x mod 256"
  by (simp add: unat_of_nat)

lemma le_nat_le_bytes: "le_nat (le_bytes n x) = x mod 256 ^ n"
proof (induction n arbitrary: x)
  case 0
  then show ?case by simp
next
  case (Suc n)
  have "le_nat (le_bytes (Suc n) x) = x mod 256 + 256 * (x div 256 mod 256 ^ n)"
    by (simp add: Suc.IH unat_of_nat_u8)
  also have "\<dots> = x mod (256 * 256 ^ n)"
    by (simp add: mod_mult2_eq)
  finally show ?case by simp
qed

lemma le_nat_bound: "le_nat bs < 256 ^ length bs"
proof (induction bs)
  case Nil
  then show ?case by simp
next
  case (Cons b bs)
  have "unat b < 256" using unsigned_less [of b] by simp
  then show ?case using Cons.IH by simp
qed

lemma le_bytes_le_nat: "le_bytes (length bs) (le_nat bs) = bs"
proof (induction bs)
  case Nil
  then show ?case by simp
next
  case (Cons b bs)
  have "unat b < 256" using unsigned_less [of b] by simp
  then show ?case using Cons.IH by simp
qed

lemma le_bytes_inject:
  "x < 256 ^ n \<Longrightarrow> y < 256 ^ n \<Longrightarrow> le_bytes n x = le_bytes n y \<longleftrightarrow> x = y"
  by (metis le_nat_le_bytes mod_less)

subsection \<open>Slices of a buffer\<close>

text \<open>
  \<open>slice o n xs\<close> is \<^verbatim>\<open>xs[o..o+n]\<close> and \<open>splice o ys xs\<close> the buffer after
  \<^verbatim>\<open>xs[o..o+len].copy_from_slice(ys)\<close>; both are used in range only.
\<close>

definition slice :: "nat \<Rightarrow> nat \<Rightarrow> 'a list \<Rightarrow> 'a list" where
  "slice off n xs = take n (drop off xs)"

definition splice :: "nat \<Rightarrow> 'a list \<Rightarrow> 'a list \<Rightarrow> 'a list" where
  "splice off ys xs = take off xs @ ys @ drop (off + length ys) xs"

lemma length_slice [simp]: "off + n \<le> length xs \<Longrightarrow> length (slice off n xs) = n"
  by (simp add: slice_def)

lemma length_splice [simp]:
  "off + length ys \<le> length xs \<Longrightarrow> length (splice off ys xs) = length xs"
  by (simp add: splice_def)

lemma nth_splice:
  "off + length ys \<le> length xs \<Longrightarrow> i < length xs \<Longrightarrow>
   splice off ys xs ! i = (if off \<le> i \<and> i < off + length ys then ys ! (i - off) else xs ! i)"
  by (auto simp: splice_def nth_append min_def)

lemma nth_slice: "i < n \<Longrightarrow> off + n \<le> length xs \<Longrightarrow> slice off n xs ! i = xs ! (off + i)"
  by (simp add: slice_def)

lemma slice_eqI:
  "off + n \<le> length xs \<Longrightarrow> length ys = n \<Longrightarrow> (\<And>i. i < n \<Longrightarrow> xs ! (off + i) = ys ! i) \<Longrightarrow>
   slice off n xs = ys"
  by (rule nth_equalityI) (simp_all add: nth_slice)

lemma slice_splice_same:
  "off + length ys \<le> length xs \<Longrightarrow> slice off (length ys) (splice off ys xs) = ys"
  by (rule slice_eqI) (simp_all add: nth_splice)

lemma slice_splice_inside:
  "off + length ys \<le> length xs \<Longrightarrow> off \<le> p \<Longrightarrow> p + n \<le> off + length ys \<Longrightarrow>
   slice p n (splice off ys xs) = slice (p - off) n ys"
  by (rule slice_eqI) (auto simp: nth_splice nth_slice)

lemma slice_splice_disjoint:
  "off + length ys \<le> length xs \<Longrightarrow> p + n \<le> length xs \<Longrightarrow>
   p + n \<le> off \<or> off + length ys \<le> p \<Longrightarrow> slice p n (splice off ys xs) = slice p n xs"
  by (rule slice_eqI) (auto simp: nth_splice nth_slice)

lemma slice_append1: "off + n \<le> length xs \<Longrightarrow> slice off n (xs @ ys) = slice off n xs"
  by (simp add: slice_def)

lemma slice_append2: "length xs \<le> off \<Longrightarrow> slice off n (xs @ ys) = slice (off - length xs) n ys"
  by (simp add: slice_def)

lemma slice_slice: "p + m \<le> n \<Longrightarrow> slice p m (slice off n xs) = slice (off + p) m xs"
  by (simp add: slice_def drop_take add.commute min_def)

lemma slice_0_all: "slice 0 (length xs) xs = xs"
  by (simp add: slice_def)

subsection \<open>Queues as lists\<close>

text \<open>
  The last \<open>n\<close> elements of a list: what a bounded queue that drops its oldest
  entries retains.
\<close>

definition lastn :: "nat \<Rightarrow> 'a list \<Rightarrow> 'a list" where
  "lastn n xs = drop (length xs - n) xs"

lemma length_lastn [simp]: "length (lastn n xs) = min n (length xs)"
  by (simp add: lastn_def)

lemma map_lastn: "map f (lastn n xs) = lastn n (map f xs)"
  by (simp add: lastn_def drop_map)

lemma lastn_all: "length xs \<le> n \<Longrightarrow> lastn n xs = xs"
  by (simp add: lastn_def)

lemma lastn_snoc: "lastn (Suc n) (xs @ [x]) = lastn n xs @ [x]"
  by (simp add: lastn_def)

lemma lastn_lastn_snoc: "lastn (Suc n) (lastn (Suc n) xs @ [x]) = lastn (Suc n) (xs @ [x])"
proof -
  have *: "length xs - Suc n + (length xs - (n + (length xs - Suc n))) = length xs - n"
    by linarith
  show ?thesis by (simp add: lastn_def add.commute *)
qed

end
