(* ===== verification/TicketLock.thy ===== *)
theory TicketLock
  imports Prelude
begin

text \<open>
  \<^verbatim>\<open>crates/ticket-lock/src/lib.rs\<close>: the FIFO ticket spinlock every shared structure
  of the kernel sits behind.  The first section is the code's atomic operations on
  the two counters; the second lets any number of contexts interleave them, one
  atomic access per step; the third shows mutual exclusion, FIFO order and that no
  ticket is ever orphaned.
\<close>

section \<open>Operations\<close>

record 'd ticket_lock =
  ticket :: usize
  serving :: usize
  lock_data :: 'd

definition new_lock :: "'d \<Rightarrow> 'd ticket_lock" where
  "new_lock v = \<lparr>ticket = 0, serving = 0, lock_data = v\<rparr>"

text \<open>\<^verbatim>\<open>lock()\<close>: the \<^verbatim>\<open>fetch_add\<close> that draws a ticket, then the spin on \<^verbatim>\<open>serving\<close>.\<close>

definition lock_draw :: "'d ticket_lock \<Rightarrow> usize \<times> 'd ticket_lock" where
  "lock_draw l = (ticket l, l\<lparr>ticket := ticket l + 1\<rparr>)"

definition lock_served :: "'d ticket_lock \<Rightarrow> usize \<Rightarrow> bool" where
  "lock_served l my_ticket \<longleftrightarrow> serving l = my_ticket"

text \<open>\<^verbatim>\<open>try_lock()\<close>: a load of \<^verbatim>\<open>serving\<close>, then a compare-exchange on \<^verbatim>\<open>ticket\<close>.\<close>

definition try_lock_cas :: "'d ticket_lock \<Rightarrow> usize \<Rightarrow> 'd ticket_lock option" where
  "try_lock_cas l now_serving =
     (if ticket l = now_serving then Some (l\<lparr>ticket := now_serving + 1\<rparr>) else None)"

definition try_lock :: "'d ticket_lock \<Rightarrow> 'd ticket_lock option" where
  "try_lock l = (let now_serving = serving l in try_lock_cas l now_serving)"

definition get_mut :: "('d \<Rightarrow> 'd) \<Rightarrow> 'd ticket_lock \<Rightarrow> 'd ticket_lock" where
  "get_mut f l = l\<lparr>lock_data := f (lock_data l)\<rparr>"

definition into_inner :: "'d ticket_lock \<Rightarrow> 'd" where
  "into_inner l = lock_data l"

definition is_locked :: "'d ticket_lock \<Rightarrow> bool" where
  "is_locked l \<longleftrightarrow> ticket l \<noteq> serving l"

definition guard_deref :: "'d ticket_lock \<Rightarrow> 'd" where
  "guard_deref l = lock_data l"

definition guard_deref_mut :: "('d \<Rightarrow> 'd) \<Rightarrow> 'd ticket_lock \<Rightarrow> 'd ticket_lock" where
  "guard_deref_mut f l = l\<lparr>lock_data := f (lock_data l)\<rparr>"

definition guard_drop :: "'d ticket_lock \<Rightarrow> 'd ticket_lock" where
  "guard_drop l = l\<lparr>serving := serving l + 1\<rparr>"

lemmas lock_ops = lock_draw_def lock_served_def try_lock_cas_def guard_deref_mut_def guard_drop_def

lemma try_lock_iff_free: "try_lock l \<noteq> None \<longleftrightarrow> \<not> is_locked l"
  by (auto simp: try_lock_def try_lock_cas_def is_locked_def Let_def)

lemma try_lock_then_drop:
  "try_lock l = Some l' \<Longrightarrow> \<not> is_locked (guard_drop l') \<and> lock_data (guard_drop l') = lock_data l"
  by (auto simp: try_lock_def try_lock_cas_def is_locked_def guard_drop_def Let_def split: if_splits)

section \<open>Interleavings\<close>

text \<open>
  A context is idle, spinning with a drawn ticket, between the two accesses of
  \<^verbatim>\<open>try_lock\<close>, or holding the guard of a ticket.  The ticket carried by \<open>Holding\<close> and
  the number \<open>issued\<close> of tickets drawn so far are ghosts: the code keeps neither.
\<close>

datatype lock_pc = Idle | Spinning usize | TryLoaded usize | Holding usize

record 'd lock_sys =
  lk :: "'d ticket_lock"
  pc :: "nat \<Rightarrow> lock_pc"
  issued :: nat

definition init_sys :: "'d \<Rightarrow> 'd lock_sys" where
  "init_sys v = \<lparr>lk = new_lock v, pc = (\<lambda>_. Idle), issued = 0\<rparr>"

inductive lock_step :: "'d lock_sys \<Rightarrow> 'd lock_sys \<Rightarrow> bool" where
  draw: "pc s t = Idle \<Longrightarrow> lock_draw (lk s) = (m, l') \<Longrightarrow>
     lock_step s (s\<lparr>lk := l', pc := (pc s)(t := Spinning m), issued := Suc (issued s)\<rparr>)"
| spin: "pc s t = Spinning m \<Longrightarrow> \<not> lock_served (lk s) m \<Longrightarrow> lock_step s s"
| acquire: "pc s t = Spinning m \<Longrightarrow> lock_served (lk s) m \<Longrightarrow>
     lock_step s (s\<lparr>pc := (pc s)(t := Holding m)\<rparr>)"
| try_load: "pc s t = Idle \<Longrightarrow>
     lock_step s (s\<lparr>pc := (pc s)(t := TryLoaded (serving (lk s)))\<rparr>)"
| try_ok: "pc s t = TryLoaded n \<Longrightarrow> try_lock_cas (lk s) n = Some l' \<Longrightarrow>
     lock_step s (s\<lparr>lk := l', pc := (pc s)(t := Holding n), issued := Suc (issued s)\<rparr>)"
| try_fail: "pc s t = TryLoaded n \<Longrightarrow> try_lock_cas (lk s) n = None \<Longrightarrow>
     lock_step s (s\<lparr>pc := (pc s)(t := Idle)\<rparr>)"
| mutate: "pc s t = Holding m \<Longrightarrow> lock_step s (s\<lparr>lk := guard_deref_mut f (lk s)\<rparr>)"
| release: "pc s t = Holding m \<Longrightarrow>
     lock_step s (s\<lparr>lk := guard_drop (lk s), pc := (pc s)(t := Idle)\<rparr>)"

inductive lock_reach :: "'d \<Rightarrow> 'd lock_sys \<Rightarrow> bool" for v where
  start: "lock_reach v (init_sys v)"
| step: "lock_reach v s \<Longrightarrow> lock_step s s' \<Longrightarrow> lock_reach v s'"

definition owns :: "'d lock_sys \<Rightarrow> nat \<Rightarrow> usize \<Rightarrow> bool" where
  "owns s t m \<longleftrightarrow> pc s t = Spinning m \<or> pc s t = Holding m"

section \<open>The invariant\<close>

text \<open>
  As long as fewer than \<open>2 ^ 64\<close> tickets have been drawn the counters do not wrap.
  Then every ticket from \<open>serving\<close> up to the next one to draw has exactly one
  owner, holders hold the ticket being served, and a value \<^verbatim>\<open>try_lock\<close> loaded is never
  ahead of \<open>serving\<close>.
\<close>

definition lock_inv :: "'d lock_sys \<Rightarrow> bool" where
  "lock_inv s \<longleftrightarrow>
     unat (ticket (lk s)) = issued s \<and>
     unat (serving (lk s)) \<le> issued s \<and>
     (\<forall>t m. owns s t m \<longrightarrow> unat (serving (lk s)) \<le> unat m \<and> unat m < issued s) \<and>
     (\<forall>t t' m. owns s t m \<longrightarrow> owns s t' m \<longrightarrow> t = t') \<and>
     (\<forall>n. unat (serving (lk s)) \<le> n \<and> n < issued s \<longrightarrow> (\<exists>t. owns s t (of_nat n))) \<and>
     (\<forall>t m. pc s t = Holding m \<longrightarrow> m = serving (lk s)) \<and>
     (\<forall>t n. pc s t = TryLoaded n \<longrightarrow> unat n \<le> unat (serving (lk s)))"

lemma lock_inv_ticket: "lock_inv s \<Longrightarrow> unat (ticket (lk s)) = issued s"
  and lock_inv_serving: "lock_inv s \<Longrightarrow> unat (serving (lk s)) \<le> issued s"
  and lock_inv_range:
    "lock_inv s \<Longrightarrow> owns s t m \<Longrightarrow> unat (serving (lk s)) \<le> unat m \<and> unat m < issued s"
  and lock_inv_unique: "lock_inv s \<Longrightarrow> owns s t m \<Longrightarrow> owns s t' m \<Longrightarrow> t = t'"
  and lock_inv_owned: "lock_inv s \<Longrightarrow> unat (serving (lk s)) \<le> n \<Longrightarrow> n < issued s \<Longrightarrow>
    \<exists>t. owns s t (of_nat n)"
  and lock_inv_hold: "lock_inv s \<Longrightarrow> pc s t = Holding m \<Longrightarrow> m = serving (lk s)"
  and lock_inv_load: "lock_inv s \<Longrightarrow> pc s t = TryLoaded k \<Longrightarrow> unat k \<le> unat (serving (lk s))"
  unfolding lock_inv_def by blast+

lemmas lock_inv_facts = lock_inv_ticket lock_inv_serving lock_inv_range lock_inv_hold lock_inv_load

lemma lock_inv_init: "lock_inv (init_sys v)"
  by (simp add: lock_inv_def init_sys_def new_lock_def owns_def)

lemma issued_mono: "lock_step s s' \<Longrightarrow> issued s \<le> issued s'"
  by (induction rule: lock_step.induct) auto

text \<open>
  Drawing a ticket, by \<^verbatim>\<open>lock\<close> or by the compare-exchange, is the same change of the
  counters; the new owner gets the number the counter had.
\<close>

lemma lock_inv_new_owner:
  assumes inv: "lock_inv s" and bound: "Suc (issued s) < 2 ^ 64"
    and p: "p = Spinning (ticket (lk s)) \<or> p = Holding (ticket (lk s)) \<and> ticket (lk s) = serving (lk s)"
    and idle: "\<not> (\<exists>m. owns s t m)"
  shows "lock_inv (s\<lparr>lk := (lk s)\<lparr>ticket := ticket (lk s) + 1\<rparr>, pc := (pc s)(t := p),
    issued := Suc (issued s)\<rparr>)"
    (is "lock_inv ?s'")
proof -
  from inv have tk: "unat (ticket (lk s)) = issued s" by (rule lock_inv_ticket)
  with bound have tk': "unat (ticket (lk s) + 1) = Suc (issued s)"
    by (simp add: unat_Suc)
  have owns': "owns ?s' u m \<longleftrightarrow> (if u = t then m = ticket (lk s) else owns s u m)" for u m
    using p by (auto simp: owns_def)
  have inverse: "of_nat (issued s) = ticket (lk s)"
    by (simp flip: tk)
  show ?thesis
    unfolding lock_inv_def
  proof (intro conjI allI impI)
    fix n assume "unat (serving (lk ?s')) \<le> n \<and> n < issued ?s'"
    then consider "n = issued s" | "unat (serving (lk s)) \<le> n" "n < issued s" by fastforce
    then show "\<exists>u. owns ?s' u (of_nat n)"
    proof cases
      case 1
      then show ?thesis using owns' inverse by metis
    next
      case 2
      with inv obtain u where "owns s u (of_nat n)" using lock_inv_owned by blast
      with idle have "u \<noteq> t" by blast
      then show ?thesis using owns' \<open>owns s u (of_nat n)\<close> by metis
    qed
  next
    fix u m assume "owns ?s' u m"
    then show "unat (serving (lk ?s')) \<le> unat m" "unat m < issued ?s'"
      using inv tk by (auto simp: owns' dest: lock_inv_facts split: if_splits)
  next
    fix u u' m assume "owns ?s' u m" "owns ?s' u' m"
    moreover have "\<not> owns s u (ticket (lk s))" for u
      using lock_inv_range [OF inv] tk by force
    ultimately show "u = u'"
      using inv by (auto simp: owns' dest: lock_inv_unique split: if_splits)
  qed (use inv tk tk' p in \<open>auto dest: lock_inv_facts split: if_splits\<close>)
qed

lemma lock_inv_release:
  assumes inv: "lock_inv s" and hold: "pc s t = Holding m" and bound: "issued s < 2 ^ 64"
  shows "lock_inv (s\<lparr>lk := guard_drop (lk s), pc := (pc s)(t := Idle)\<rparr>)" (is "lock_inv ?s'")
proof -
  from inv hold have m: "m = serving (lk s)" by (rule lock_inv_hold)
  have own_t: "owns s t m" using hold by (simp add: owns_def)
  with inv m have sv: "unat (serving (lk s)) < issued s" by (auto dest: lock_inv_range)
  with bound have sv': "unat (serving (lk s) + 1) = Suc (unat (serving (lk s)))"
    by (simp add: unat_Suc)
  have owns': "owns ?s' u k \<longleftrightarrow> u \<noteq> t \<and> owns s u k" for u k
    by (auto simp: owns_def)
  have ahead: "Suc (unat (serving (lk s))) \<le> unat k" if "u \<noteq> t" "owns s u k" for u k
  proof -
    from inv that have "unat (serving (lk s)) \<le> unat k" by (auto dest: lock_inv_range)
    moreover have "k \<noteq> serving (lk s)"
      using inv that own_t m by (metis lock_inv_unique)
    ultimately show ?thesis by (metis Suc_leI le_neq_implies_less word_unat_eq_iff)
  qed
  show ?thesis
    unfolding lock_inv_def
  proof (intro conjI allI impI)
    fix n assume n: "unat (serving (lk ?s')) \<le> n \<and> n < issued ?s'"
    with sv' have "unat (serving (lk s)) \<le> n" "n < issued s" by (simp_all add: guard_drop_def)
    with inv obtain u where u: "owns s u (of_nat n)" using lock_inv_owned by blast
    have "u \<noteq> t"
    proof
      assume "u = t"
      with u hold have "of_nat n = m" by (auto simp: owns_def)
      moreover have "unat (of_nat n :: usize) = n"
        using n bound by (simp add: unat_of_nat)
      ultimately show False using n sv' m by (simp add: guard_drop_def)
    qed
    with u show "\<exists>u. owns ?s' u (of_nat n)" using owns' by blast
  next
    fix u k assume "pc ?s' u = Holding k"
    then have u: "u \<noteq> t" "pc s u = Holding k" by (auto split: if_splits)
    then have "owns s u k" by (simp add: owns_def)
    with u(1) have "Suc (unat (serving (lk s))) \<le> unat k" by (rule ahead)
    moreover have "k = serving (lk s)" using inv u(2) by (rule lock_inv_hold)
    ultimately show "k = serving (lk ?s')" by simp
  next
    fix u k assume "owns ?s' u k"
    then have "u \<noteq> t" "owns s u k" by (simp_all add: owns')
    then have "Suc (unat (serving (lk s))) \<le> unat k" by (rule ahead)
    moreover have "unat k < issued s" using inv \<open>owns s u k\<close> by (auto dest: lock_inv_range)
    ultimately show "unat (serving (lk ?s')) \<le> unat k" "unat k < issued ?s'"
      using sv' by (simp_all add: guard_drop_def)
  next
    show "unat (ticket (lk ?s')) = issued ?s'" "unat (serving (lk ?s')) \<le> issued ?s'"
      using inv sv sv' by (auto simp: guard_drop_def dest: lock_inv_ticket)
  next
    fix u k assume "pc ?s' u = TryLoaded k"
    then show "unat k \<le> unat (serving (lk ?s'))"
      using inv sv' by (fastforce simp: guard_drop_def dest: lock_inv_load split: if_splits)
  next
    fix u u' k assume "owns ?s' u k" "owns ?s' u' k"
    then show "u = u'" using inv owns' by (metis lock_inv_unique)
  qed
qed

text \<open>Steps that only move one context between states that own the same tickets.\<close>

lemma lock_inv_move:
  assumes inv: "lock_inv s" and same: "\<And>m. (p = Spinning m \<or> p = Holding m) \<longleftrightarrow> owns s t m"
    and hold: "\<And>m. p = Holding m \<Longrightarrow> m = serving (lk s)"
    and load: "\<And>n. p = TryLoaded n \<Longrightarrow> unat n \<le> unat (serving (lk s))"
  shows "lock_inv (s\<lparr>pc := (pc s)(t := p)\<rparr>)"
proof -
  have "owns (s\<lparr>pc := (pc s)(t := p)\<rparr>) u m \<longleftrightarrow> owns s u m" for u m
    using same by (auto simp: owns_def)
  then show ?thesis
    using inv hold load unfolding lock_inv_def by auto
qed

lemma lock_inv_mutate: "lock_inv s \<Longrightarrow> lock_inv (s\<lparr>lk := guard_deref_mut f (lk s)\<rparr>)"
  by (simp add: lock_inv_def owns_def guard_deref_mut_def)

lemma lock_step_inv:
  "lock_step s s' \<Longrightarrow> issued s' < 2 ^ 64 \<Longrightarrow> lock_inv s \<Longrightarrow> lock_inv s'"
proof (induction rule: lock_step.induct)
  case (draw s t m l')
  then have "lock_inv (s\<lparr>lk := (lk s)\<lparr>ticket := ticket (lk s) + 1\<rparr>,
      pc := (pc s)(t := Spinning (ticket (lk s))), issued := Suc (issued s)\<rparr>)"
    by (intro lock_inv_new_owner) (auto simp: owns_def)
  with draw.hyps(2) show ?case by (auto simp: lock_draw_def)
next
  case (try_ok s t n l')
  from try_ok.hyps(2) have n: "ticket (lk s) = n" and l': "l' = (lk s)\<lparr>ticket := n + 1\<rparr>"
    by (auto simp: try_lock_cas_def split: if_splits)
  from try_ok.prems(2) try_ok.hyps(1) have "unat n \<le> unat (serving (lk s))"
    and "unat (serving (lk s)) \<le> unat (ticket (lk s))" by (simp_all add: lock_inv_load lock_inv_ticket lock_inv_serving)
  with n have "ticket (lk s) = serving (lk s)" by (simp add: word_unat_eq_iff)
  then have "lock_inv (s\<lparr>lk := (lk s)\<lparr>ticket := ticket (lk s) + 1\<rparr>,
      pc := (pc s)(t := Holding (ticket (lk s))), issued := Suc (issued s)\<rparr>)"
    using try_ok.prems try_ok.hyps(1) by (intro lock_inv_new_owner) (auto simp: owns_def)
  with n l' show ?case by simp
next
  case (release s t m)
  then show ?case by (auto intro: lock_inv_release)
next
  case (mutate s t m f)
  then show ?case by (auto intro: lock_inv_mutate)
qed (auto intro!: lock_inv_move simp: owns_def lock_served_def)

lemma lock_reach_inv: "lock_reach v s \<Longrightarrow> issued s < 2 ^ 64 \<Longrightarrow> lock_inv s"
proof (induction rule: lock_reach.induct)
  case start
  show ?case by (rule lock_inv_init)
next
  case (step s s')
  then show ?case by (meson issued_mono le_less_trans lock_step_inv)
qed

lemmas lock_stepE = lock_step.cases

text \<open>The context that starts to hold the lock in a step is served at that step.\<close>

lemma lock_step_enter:
  assumes "lock_step s s'" "lock_inv s" "pc s' t = Holding m" "pc s t \<noteq> Holding m"
  shows "m = serving (lk s)"
  using assms
proof (cases rule: lock_stepE)
  case (try_ok t' n l')
  from try_ok(2,3) assms(2) have "unat n \<le> unat (serving (lk s))"
    and "unat (serving (lk s)) \<le> unat n"
    by (auto simp: try_lock_cas_def lock_inv_load lock_inv_serving lock_inv_ticket split: if_splits)
  then have "n = serving (lk s)" by (simp add: word_unat_eq_iff)
  with try_ok(1) assms(3,4) show ?thesis by (auto split: if_splits)
qed (auto simp: lock_served_def split: if_splits)

section \<open>Properties\<close>

text \<open>One holder, one waiter behind it: the run the witnesses below use.\<close>

definition contended_sys :: "unit lock_sys" where
  "contended_sys = \<lparr>lk = \<lparr>ticket = 2, serving = 0, lock_data = ()\<rparr>,
     pc = (\<lambda>_. Idle)(0 := Holding 0, 1 := Spinning 1), issued = 2\<rparr>"

lemma contended_reach: "lock_reach () contended_sys"
proof -
  let ?s0 = "init_sys ()"
  let ?s1 = "?s0\<lparr>lk := (lk ?s0)\<lparr>ticket := 1\<rparr>, pc := (pc ?s0)(0 := Spinning 0), issued := Suc (issued ?s0)\<rparr>"
  let ?s2 = "?s1\<lparr>pc := (pc ?s1)(0 := Holding 0)\<rparr>"
  have "lock_reach () ?s1"
    by (rule lock_reach.step [OF lock_reach.start], rule lock_step.draw [where t = 0])
      (simp_all add: init_sys_def new_lock_def lock_draw_def)
  then have "lock_reach () ?s2"
    by (rule lock_reach.step, intro lock_step.acquire [where t = 0])
      (simp_all add: init_sys_def new_lock_def lock_served_def)
  then have "lock_reach () (?s2\<lparr>lk := (lk ?s2)\<lparr>ticket := 2\<rparr>, pc := (pc ?s2)(1 := Spinning 1),
      issued := Suc (issued ?s2)\<rparr>)"
    by (rule lock_reach.step, intro lock_step.draw [where t = 1])
      (simp_all add: init_sys_def new_lock_def lock_draw_def)
  then show ?thesis
    by (simp add: contended_sys_def init_sys_def new_lock_def numeral_2_eq_2)
qed



text \<open>
  C15. FIFO service: the context that enters the critical section in a step owns the
  smallest outstanding ticket, so nobody who drew a ticket earlier is overtaken.
\<close>

theorem lock_fifo:
  assumes "lock_reach v s" "issued s < 2 ^ 64" "lock_step s s'"
    and "pc s' t = Holding m" "pc s t \<noteq> Holding m" "owns s u k"
  shows "m \<le> k"
proof -
  from assms(1,2) have inv: "lock_inv s" by (rule lock_reach_inv)
  with assms(3,4,5) have "m = serving (lk s)" by (metis lock_step_enter)
  with inv assms(6) show ?thesis by (simp add: word_le_nat_alt lock_inv_range)
qed

theorem lock_fifo_witness:
  "(0 :: usize) \<le> 1 \<and> \<not> lock_step contended_sys
     (contended_sys\<lparr>pc := (pc contended_sys)(1 := Holding 1)\<rparr>)"
proof -
  have "\<not> lock_step contended_sys (contended_sys\<lparr>pc := (pc contended_sys)(1 := Holding 1)\<rparr>)"
  proof
    assume step: "lock_step contended_sys (contended_sys\<lparr>pc := (pc contended_sys)(1 := Holding 1)\<rparr>)"
    have "(1 :: usize) \<le> 0"
      by (rule lock_fifo [OF contended_reach _ step, of 1 1 0 0])
        (simp_all add: contended_sys_def owns_def)
    then show False by simp
  qed
  then show ?thesis by simp
qed

text \<open>
  C16. No orphaned ticket: whenever the lock is taken or waited for, exactly one context
  owns the ticket being served, and that context either holds the guard or can take it
  in its next step.  In particular a failing \<^verbatim>\<open>try_lock\<close> leaves no ticket behind.
\<close>

theorem lock_no_orphan:
  assumes "lock_reach v s" "issued s < 2 ^ 64" "is_locked (lk s)"
  shows "(\<exists>!t. owns s t (serving (lk s))) \<and>
    (\<exists>t. pc s t = Holding (serving (lk s)) \<or>
      lock_step s (s\<lparr>pc := (pc s)(t := Holding (serving (lk s)))\<rparr>))"
proof -
  from assms(1,2) have inv: "lock_inv s" by (rule lock_reach_inv)
  have "unat (serving (lk s)) < issued s"
    using inv assms(3) lock_inv_serving [OF inv] lock_inv_ticket [OF inv]
    by (metis is_locked_def le_neq_implies_less word_unat_eq_iff)
  with inv obtain t where t: "owns s t (serving (lk s))"
    using lock_inv_owned [of s "unat (serving (lk s))"] by auto
  then have "\<exists>!t. owns s t (serving (lk s))"
    using inv by (metis lock_inv_unique)
  moreover have "\<exists>t. pc s t = Holding (serving (lk s)) \<or>
      lock_step s (s\<lparr>pc := (pc s)(t := Holding (serving (lk s)))\<rparr>)"
    using t lock_step.acquire [of s t "serving (lk s)"]
    by (auto simp: owns_def lock_served_def)
  ultimately show ?thesis by blast
qed

theorem lock_no_orphan_witness:
  "is_locked (lk contended_sys) \<and> (\<exists>!t. owns contended_sys t 0)"
proof -
  have locked: "is_locked (lk contended_sys)" and bound: "issued contended_sys < 2 ^ 64"
    by (simp_all add: contended_sys_def is_locked_def)
  show ?thesis
    using lock_no_orphan [OF contended_reach bound locked] locked
    by (simp add: contended_sys_def)
qed

end
