(* ===== verification/BTreeMap.thy ===== *)
theory BTreeMap
  imports Prelude
begin

text \<open>
  The ordered map of Rust's standard library, \<^verbatim>\<open>alloc::collections::BTreeMap\<close>, as
  the sources use it: lookup, insertion (returning the displaced value), removal,
  in-place update of a present key, retain, and iteration in ascending key order.
  A map is the association list its iterator yields, kept strictly sorted.  The
  locale \<open>ordered_map\<close> states the contract the components rely on; it is interpreted
  on the sorted lists.  String keys are ordered bytewise, as \<^verbatim>\<open>str\<close> is.
\<close>

type_synonym ('k, 'v) btree = "('k \<times> 'v) list"

definition bt_get :: "('k, 'v) btree \<Rightarrow> 'k \<Rightarrow> 'v option" where
  "bt_get m = map_of m"

fun bt_insert :: "'k::linorder \<Rightarrow> 'v \<Rightarrow> ('k, 'v) btree \<Rightarrow> ('k, 'v) btree" where
  "bt_insert k v [] = [(k, v)]"
| "bt_insert k v ((k', v') # m) =
     (if k < k' then (k, v) # (k', v') # m
      else if k = k' then (k, v) # m
      else (k', v') # bt_insert k v m)"

definition bt_remove :: "'k \<Rightarrow> ('k, 'v) btree \<Rightarrow> ('k, 'v) btree" where
  "bt_remove k m = filter (\<lambda>p. fst p \<noteq> k) m"

definition bt_retain :: "('k \<Rightarrow> 'v \<Rightarrow> bool) \<Rightarrow> ('k, 'v) btree \<Rightarrow> ('k, 'v) btree" where
  "bt_retain P m = filter (\<lambda>(k, v). P k v) m"

definition bt_adjust :: "'k \<Rightarrow> ('v \<Rightarrow> 'v) \<Rightarrow> ('k, 'v) btree \<Rightarrow> ('k, 'v) btree" where
  "bt_adjust k f m = map (\<lambda>(k', v). (k', if k' = k then f v else v)) m"

definition bt_keys :: "('k, 'v) btree \<Rightarrow> 'k list" where
  "bt_keys m = map fst m"

definition bt_wf :: "('k::linorder, 'v) btree \<Rightarrow> bool" where
  "bt_wf m \<longleftrightarrow> sorted_wrt (<) (map fst m)"

definition bt_contains :: "('k, 'v) btree \<Rightarrow> 'k \<Rightarrow> bool" where
  "bt_contains m k \<longleftrightarrow> bt_get m k \<noteq> None"

subsection \<open>The contract\<close>

locale ordered_map =
  fixes empty :: "'m"
    and get :: "'m \<Rightarrow> 'k::linorder \<Rightarrow> 'v option"
    and insert :: "'k \<Rightarrow> 'v \<Rightarrow> 'm \<Rightarrow> 'm"
    and remove :: "'k \<Rightarrow> 'm \<Rightarrow> 'm"
    and adjust :: "'k \<Rightarrow> ('v \<Rightarrow> 'v) \<Rightarrow> 'm \<Rightarrow> 'm"
    and keys :: "'m \<Rightarrow> 'k list"
    and invar :: "'m \<Rightarrow> bool"
  assumes get_empty: "get empty k = None"
    and get_insert: "get (insert k v m) k' = (if k' = k then Some v else get m k')"
    and get_remove: "get (remove k m) k' = (if k' = k then None else get m k')"
    and get_adjust: "get (adjust k f m) k' = (if k' = k then map_option f (get m k') else get m k')"
    and keys_dom: "set (keys m) = {k. get m k \<noteq> None}"
    and keys_ascending: "invar m \<Longrightarrow> sorted_wrt (<) (keys m)"
    and invar_empty: "invar empty"
    and invar_insert: "invar m \<Longrightarrow> invar (insert k v m)"
    and invar_remove: "invar m \<Longrightarrow> invar (remove k m)"
    and invar_adjust: "invar m \<Longrightarrow> invar (adjust k f m)"
begin

lemma keys_distinct: "invar m \<Longrightarrow> distinct (keys m)"
  using keys_ascending strict_sorted_iff by blast

lemma keys_length: "invar m \<Longrightarrow> length (keys m) = card {k. get m k \<noteq> None}"
  by (metis keys_dom keys_distinct distinct_card)

lemma finite_dom: "finite {k. get m k \<noteq> None}"
  by (metis keys_dom List.finite_set)

lemma keys_length_insert:
  assumes "invar m"
  shows "length (keys (insert k v m)) = (if get m k = None then Suc (length (keys m)) else length (keys m))"
proof -
  have "{k'. get (insert k v m) k' \<noteq> None} = Set.insert k {k'. get m k' \<noteq> None}"
    by (auto simp: get_insert)
  then have "length (keys (insert k v m)) = card (Set.insert k {k'. get m k' \<noteq> None})"
    using keys_length [OF invar_insert [OF assms]] by simp
  then show ?thesis
    using finite_dom [of m] keys_length [OF assms] by (auto simp: insert_absorb)
qed

lemma keys_length_remove:
  assumes "invar m"
  shows "length (keys (remove k m)) = (if get m k = None then length (keys m) else length (keys m) - 1)"
proof -
  have "{k'. get (remove k m) k' \<noteq> None} = {k'. get m k' \<noteq> None} - {k}"
    by (auto simp: get_remove)
  then have "length (keys (remove k m)) = card ({k'. get m k' \<noteq> None} - {k})"
    using keys_length [OF invar_remove [OF assms]] by simp
  then show ?thesis
    using finite_dom [of m] keys_length [OF assms] by (auto simp: card_Diff_singleton)
qed

lemma map_ext:
  "invar m \<Longrightarrow> invar m' \<Longrightarrow> (\<And>k. get m k = get m' k) \<Longrightarrow> keys m = keys m'"
  using keys_ascending [of m] keys_ascending [of m'] keys_dom [of m] keys_dom [of m']
  by (simp add: strict_sorted_equal)

end

subsection \<open>Sorted association lists satisfy it\<close>

lemma bt_get_insert_eq: "bt_get (bt_insert k v m) k' = (if k' = k then Some v else bt_get m k')"
  by (induction m) (auto simp: bt_get_def)

lemma bt_get_remove_eq: "bt_get (bt_remove k m) k' = (if k' = k then None else bt_get m k')"
  by (induction m) (auto simp: bt_get_def bt_remove_def)

lemma bt_get_adjust_eq:
  "bt_get (bt_adjust k f m) k' = (if k' = k then map_option f (bt_get m k') else bt_get m k')"
  by (induction m) (auto simp: bt_get_def bt_adjust_def)

lemma set_bt_keys: "set (bt_keys m) = {k. bt_get m k \<noteq> None}"
  by (auto simp: bt_keys_def bt_get_def map_of_eq_None_iff)

lemma set_fst_bt_insert: "fst ` set (bt_insert k v m) = insert k (fst ` set m)"
proof (induction m)
  case (Cons p m)
  then show ?case by (cases p) auto
qed simp

lemma bt_wf_insert: "bt_wf m \<Longrightarrow> bt_wf (bt_insert k v m)"
proof (induction m)
  case Nil
  then show ?case by (simp add: bt_wf_def)
next
  case (Cons p m)
  obtain k' v' where p: "p = (k', v')" by (cases p)
  from Cons.prems p have tail: "bt_wf m" and head: "\<forall>x\<in>fst ` set m. k' < x"
    by (auto simp: bt_wf_def)
  from Cons.IH [OF tail] have IH: "bt_wf (bt_insert k v m)" .
  show ?case
    using IH Cons.prems head unfolding p
    by (auto simp: bt_wf_def set_fst_bt_insert simp flip: image_set dest: less_trans)
qed

lemma bt_wf_filter: "bt_wf m \<Longrightarrow> bt_wf (filter P m)"
  by (induction m) (auto simp: bt_wf_def)

lemma map_fst_bt_adjust: "map fst (bt_adjust k f m) = map fst m"
  by (simp add: bt_adjust_def case_prod_beta comp_def)

interpretation bt: ordered_map "[]" bt_get bt_insert bt_remove bt_adjust bt_keys bt_wf
proof unfold_locales
  show "bt_get [] k = None" for k :: 'a
    by (simp add: bt_get_def)
  show "bt_wf m \<Longrightarrow> sorted_wrt (<) (bt_keys m)" for m :: "('a, 'b) btree"
    by (simp add: bt_wf_def bt_keys_def)
  show "bt_wf []" by (simp add: bt_wf_def)
  show "bt_wf m \<Longrightarrow> bt_wf (bt_remove k m)" for m :: "('a, 'b) btree" and k
    by (simp add: bt_remove_def bt_wf_filter)
  show "bt_wf m \<Longrightarrow> bt_wf (bt_adjust k f m)" for m :: "('a, 'b) btree" and k f
    by (simp add: bt_wf_def map_fst_bt_adjust)
qed (simp_all add: bt_get_insert_eq bt_get_remove_eq bt_get_adjust_eq set_bt_keys bt_wf_insert)

lemmas bt_laws = bt.get_empty bt.get_insert bt.get_remove bt.get_adjust
lemmas bt_wf_laws = bt.invar_empty bt.invar_insert bt.invar_remove bt.invar_adjust

declare bt_laws [simp] bt_wf_laws [simp, intro]

lemma length_bt_keys: "length (bt_keys m) = length m"
  by (simp add: bt_keys_def)

lemma bt_get_mem: "bt_wf m \<Longrightarrow> (k, v) \<in> set m \<longleftrightarrow> bt_get m k = Some v"
proof -
  assume "bt_wf m"
  then have "distinct (map fst m)" by (metis bt.keys_distinct bt_keys_def)
  then show ?thesis by (simp add: bt_get_def)
qed

lemma bt_get_retain: "bt_wf m \<Longrightarrow>
  bt_get (bt_retain P m) k = (case bt_get m k of Some v \<Rightarrow> if P k v then Some v else None | None \<Rightarrow> None)"
proof (induction m)
  case Nil
  then show ?case by (simp add: bt_get_def bt_retain_def)
next
  case (Cons p m)
  obtain k' v' where p: "p = (k', v')" by (cases p)
  from Cons.prems p have "bt_wf m" and head: "\<forall>x\<in>fst ` set m. k' < x"
    by (auto simp: bt_wf_def)
  from head have "bt_get m k' = None" by (auto simp: bt_get_def map_of_eq_None_iff)
  with Cons.IH [OF \<open>bt_wf m\<close>] show ?case
    unfolding p by (auto simp: bt_get_def bt_retain_def split: option.splits)
qed

lemma bt_wf_retain: "bt_wf m \<Longrightarrow> bt_wf (bt_retain P m)"
  by (simp add: bt_retain_def bt_wf_filter)

lemma length_bt_insert:
  "bt_wf m \<Longrightarrow> length (bt_insert k v m) = (if bt_get m k = None then Suc (length m) else length m)"
  using bt.keys_length_insert [of m k v] by (simp add: length_bt_keys)

lemma length_bt_retain_le: "length (bt_retain P m) \<le> length m"
  by (simp add: bt_retain_def)

lemma bt_ext:
  assumes "bt_wf m" "bt_wf m'" "\<And>k. bt_get m k = bt_get m' k"
  shows "m = m'"
proof -
  have keys: "map fst m = map fst m'"
    using bt.map_ext [OF assms] by (simp add: bt_keys_def)
  have "set m = set m'"
    using assms by (auto simp: bt_get_mem)
  then show ?thesis
    using keys assms(1) bt.keys_distinct [OF assms(1)]
    by (metis bt_keys_def distinct_map map_inj_on sup.idem)
qed

end
