(* ===== verification/Capability.thy ===== *)
theory Capability
  imports BTreeMap
begin

text \<open>
  \<^verbatim>\<open>crates/event-bus/src/capability.rs\<close> and \<^verbatim>\<open>event.rs\<close>: the capability token every
  message carries and the event record.  An Ed25519 identity cannot be checked by
  this leaf crate and is refused.
\<close>

record identity_payload =
  public_key :: bytes
  signature :: bytes

datatype capability_token = Legacy u64 | Ed25519 identity_payload

fun is_valid :: "capability_token \<Rightarrow> bool" where
  "is_valid (Legacy v) \<longleftrightarrow> v > 0"
| "is_valid (Ed25519 p) \<longleftrightarrow> False"

fun as_legacy :: "capability_token \<Rightarrow> u64" where
  "as_legacy (Legacy v) = v"
| "as_legacy (Ed25519 p) = 0"

definition token_from :: "u64 \<Rightarrow> capability_token" where
  "token_from v = Legacy v"

lemma is_valid_iff: "is_valid t \<longleftrightarrow> as_legacy t \<noteq> 0"
  by (cases t) (auto simp: word_gt_0)

record event =
  event_id :: u64
  topic :: bytes
  payload :: bytes
  token :: capability_token

end
