(* ===== verification/Mailbox.thy ===== *)
theory Mailbox
  imports Capability
begin

text \<open>
  \<^verbatim>\<open>crates/event-bus/src/channel.rs\<close> and \<^verbatim>\<open>message_bus.rs\<close>: the bounded channel and the
  point-to-point message bus built from one channel per agent.  Both structures sit
  behind a ticket lock, so each operation is one atomic transition on its state.

  The locale \<open>bounded_fifo\<close> is the contract of a bounded queue that refuses when full;
  the channel satisfies it, and so does one mailbox of the bus.
\<close>

section \<open>Bounded queues\<close>

text \<open>Up to \<open>n\<close> receives, stopping at the first empty one.\<close>

fun drain :: "('q \<Rightarrow> 'a option \<times> 'q) \<Rightarrow> nat \<Rightarrow> 'q \<Rightarrow> 'a list \<times> 'q" where
  "drain deq 0 q = ([], q)"
| "drain deq (Suc n) q =
     (case deq q of
        (None, q') \<Rightarrow> ([], q')
      | (Some x, q') \<Rightarrow> (let (xs, q'') = drain deq n q' in (x # xs, q'')))"

locale bounded_fifo =
  fixes enq :: "'a \<Rightarrow> 'q \<Rightarrow> string + 'q"
    and deq :: "'q \<Rightarrow> 'a option \<times> 'q"
    and items :: "'q \<Rightarrow> 'a list"
    and limit :: "'q \<Rightarrow> nat"
    and invar :: "'q \<Rightarrow> bool"
    and open_for :: "'a \<Rightarrow> 'q \<Rightarrow> bool"
  assumes enq_ok: "invar q \<Longrightarrow> open_for x q \<Longrightarrow> length (items q) < limit q \<Longrightarrow>
      \<exists>q'. enq x q = Inr q' \<and> items q' = items q @ [x] \<and> limit q' = limit q \<and> invar q'"
    and enq_full: "invar q \<Longrightarrow> limit q \<le> length (items q) \<Longrightarrow> \<exists>e. enq x q = Inl e"
    and deq_none: "invar q \<Longrightarrow> items q = [] \<Longrightarrow> fst (deq q) = None \<and> items (snd (deq q)) = []"
    and deq_some: "invar q \<Longrightarrow> items q = x # xs \<Longrightarrow>
      \<exists>q'. deq q = (Some x, q') \<and> items q' = xs \<and> limit q' = limit q \<and> invar q'"
    and in_limit: "invar q \<Longrightarrow> length (items q) \<le> limit q"
begin

lemma drain_take: "invar q \<Longrightarrow> fst (drain deq n q) = take n (items q)"
proof (induction n arbitrary: q)
  case 0
  then show ?case by simp
next
  case (Suc n)
  show ?case
  proof (cases "items q")
    case Nil
    then show ?thesis using deq_none [OF Suc.prems Nil] by (cases "deq q") auto
  next
    case (Cons x xs)
    with deq_some [OF Suc.prems] obtain q' where "deq q = (Some x, q')" "items q' = xs" "invar q'"
      by blast
    with Suc.IH [of q'] Cons show ?thesis by (simp add: case_prod_beta Let_def)
  qed
qed

lemma drain_rest: "invar q \<Longrightarrow> items (snd (drain deq n q)) = drop n (items q)"
proof (induction n arbitrary: q)
  case 0
  then show ?case by simp
next
  case (Suc n)
  show ?case
  proof (cases "items q")
    case Nil
    then show ?thesis using deq_none [OF Suc.prems Nil] by (cases "deq q") auto
  next
    case (Cons x xs)
    with deq_some [OF Suc.prems] obtain q' where "deq q = (Some x, q')" "items q' = xs" "invar q'"
      by blast
    with Suc.IH [of q'] Cons show ?thesis by (simp add: case_prod_beta Let_def)
  qed
qed

end

section \<open>BoundedChannel\<close>

record 'a bounded_channel =
  inner :: "'a list"
  capacity :: nat

definition channel_new :: "nat \<Rightarrow> 'a bounded_channel" where
  "channel_new cap = \<lparr>inner = [], capacity = cap\<rparr>"

definition channel_len :: "'a bounded_channel \<Rightarrow> nat" where
  "channel_len ch = length (inner ch)"

definition channel_is_empty :: "'a bounded_channel \<Rightarrow> bool" where
  "channel_is_empty ch \<longleftrightarrow> inner ch = []"

definition channel_send :: "'a \<Rightarrow> 'a bounded_channel \<Rightarrow> 'a bounded_channel res" where
  "channel_send x ch =
     (if capacity ch = 0 then Inl ''capacity_zero''
      else if length (inner ch) \<ge> capacity ch then Inl ''channel_full''
      else Inr (ch\<lparr>inner := inner ch @ [x]\<rparr>))"

definition channel_try_recv :: "'a bounded_channel \<Rightarrow> 'a option \<times> 'a bounded_channel" where
  "channel_try_recv ch =
     (case inner ch of [] \<Rightarrow> (None, ch) | x # xs \<Rightarrow> (Some x, ch\<lparr>inner := xs\<rparr>))"

definition channel_wf :: "'a bounded_channel \<Rightarrow> bool" where
  "channel_wf ch \<longleftrightarrow> length (inner ch) \<le> capacity ch"

lemmas channel_defs = channel_new_def channel_len_def channel_is_empty_def channel_send_def
  channel_try_recv_def channel_wf_def

interpretation chan: bounded_fifo channel_send channel_try_recv inner capacity channel_wf "\<lambda>_ _. True"
  by unfold_locales (auto simp: channel_defs split: list.splits)

section \<open>MessageBus\<close>

record envelope =
  env_from :: bytes
  env_to :: bytes
  env_kind :: u32
  env_payload :: bytes
  env_token :: capability_token

record message_bus =
  mailboxes :: "(bytes, envelope bounded_channel) btree"
  default_cap :: nat

definition DEFAULT_MAILBOX_CAP :: nat where "DEFAULT_MAILBOX_CAP = 32"
definition MAX_MAILBOXES :: nat where "MAX_MAILBOXES = 64"

definition bus_new :: message_bus where
  "bus_new = \<lparr>mailboxes = [], default_cap = DEFAULT_MAILBOX_CAP\<rparr>"

definition with_capacity :: "nat \<Rightarrow> message_bus" where
  "with_capacity cap = \<lparr>mailboxes = [], default_cap = cap\<rparr>"

definition open_mailbox :: "bytes \<Rightarrow> message_bus \<Rightarrow> bool \<times> message_bus" where
  "open_mailbox agent b =
     (if bt_contains (mailboxes b) agent then (True, b)
      else if length (mailboxes b) \<ge> MAX_MAILBOXES then (False, b)
      else (True, b\<lparr>mailboxes := bt_insert agent (channel_new (default_cap b)) (mailboxes b)\<rparr>))"

definition send :: "envelope \<Rightarrow> message_bus \<Rightarrow> message_bus res" where
  "send env b =
     (if \<not> is_valid (env_token env) then Inl ''ipc_token_invalid''
      else case bt_get (mailboxes b) (env_to env) of
        None \<Rightarrow> Inl ''ipc_mailbox_missing''
      | Some ch \<Rightarrow>
          (case channel_send env ch of
             Inl e \<Rightarrow> Inl e
           | Inr ch' \<Rightarrow> Inr (b\<lparr>mailboxes := bt_insert (env_to env) ch' (mailboxes b)\<rparr>)))"

definition send_to :: "bytes \<Rightarrow> bytes \<Rightarrow> u32 \<Rightarrow> bytes \<Rightarrow> capability_token \<Rightarrow> message_bus \<Rightarrow> message_bus res"
  where
  "send_to sender receiver kind pl tok b =
     send \<lparr>env_from = sender, env_to = receiver, env_kind = kind, env_payload = pl, env_token = tok\<rparr> b"

definition try_recv :: "bytes \<Rightarrow> message_bus \<Rightarrow> envelope option \<times> message_bus" where
  "try_recv agent b =
     (case bt_get (mailboxes b) agent of
        None \<Rightarrow> (None, b)
      | Some ch \<Rightarrow> (let (r, ch') = channel_try_recv ch
                    in (r, b\<lparr>mailboxes := bt_insert agent ch' (mailboxes b)\<rparr>)))"

definition mailbox_drain :: "bytes \<Rightarrow> nat \<Rightarrow> message_bus \<Rightarrow> envelope list \<times> message_bus" where
  "mailbox_drain agent = drain (try_recv agent)"

definition pending :: "bytes \<Rightarrow> message_bus \<Rightarrow> nat" where
  "pending agent b = (case bt_get (mailboxes b) agent of None \<Rightarrow> 0 | Some ch \<Rightarrow> channel_len ch)"

text \<open>The boot smoke test, statement by statement; each \<^verbatim>\<open>return false\<close> is a \<open>False\<close>.\<close>

definition self_test :: bool where
  "self_test =
     (let b0 = with_capacity 4;
          b1 = snd (open_mailbox (bstr ''cortex'') b0);
          b2 = snd (open_mailbox (bstr ''rustcoder'') b1)
      in case send_to (bstr ''cortex'') (bstr ''rustcoder'') 1 (bstr ''ping'') (Legacy 0) b2 of
        Inr _ \<Rightarrow> False
      | Inl _ \<Rightarrow>
        (case send_to (bstr ''cortex'') (bstr ''rustcoder'') 1 (bstr ''ping'') (Legacy 1) b2 of
           Inl _ \<Rightarrow> False
         | Inr b3 \<Rightarrow>
           (case try_recv (bstr ''rustcoder'') b3 of
              (None, _) \<Rightarrow> False
            | (Some e, b4) \<Rightarrow>
              if \<not> (env_from e = bstr ''cortex'' \<and> env_payload e = bstr ''ping'' \<and> env_kind e = 1)
              then False
              else (case try_recv (bstr ''rustcoder'') b4 of
                 (Some _, _) \<Rightarrow> False
               | (None, b5) \<Rightarrow>
                 (case send_to (bstr ''rustcoder'') (bstr ''cortex'') 2 (bstr ''pong'') (Legacy 1) b5 of
                    Inl _ \<Rightarrow> False
                  | Inr b6 \<Rightarrow>
                    (case try_recv (bstr ''cortex'') b6 of
                       (Some e', _) \<Rightarrow> env_from e' = bstr ''rustcoder'' \<and> env_payload e' = bstr ''pong''
                     | (None, _) \<Rightarrow> False))))))"

section \<open>Mailboxes as FIFO queues\<close>

definition mailbox :: "message_bus \<Rightarrow> bytes \<Rightarrow> envelope list" where
  "mailbox b a = (case bt_get (mailboxes b) a of None \<Rightarrow> [] | Some ch \<Rightarrow> inner ch)"

definition bus_wf :: "message_bus \<Rightarrow> bool" where
  "bus_wf b \<longleftrightarrow> bt_wf (mailboxes b) \<and> length (mailboxes b) \<le> MAX_MAILBOXES \<and>
     (\<forall>a ch. bt_get (mailboxes b) a = Some ch \<longrightarrow>
        capacity ch = default_cap b \<and> length (inner ch) \<le> default_cap b \<and>
        (\<forall>e\<in>set (inner ch). is_valid (env_token e) \<and> env_to e = a))"

lemma bus_wf_new: "bus_wf (with_capacity c)"
  by (simp add: bus_wf_def with_capacity_def)

lemma bus_wf_open: "bus_wf b \<Longrightarrow> bus_wf (snd (open_mailbox a b))"
  by (auto simp: bus_wf_def open_mailbox_def channel_new_def length_bt_insert bt_contains_def)

lemma send_cases:
  "send env b = Inr b' \<Longrightarrow> \<exists>ch. is_valid (env_token env) \<and> bt_get (mailboxes b) (env_to env) = Some ch \<and>
     length (inner ch) < capacity ch \<and>
     b' = b\<lparr>mailboxes := bt_insert (env_to env) (ch\<lparr>inner := inner ch @ [env]\<rparr>) (mailboxes b)\<rparr>"
  by (auto simp: send_def channel_send_def split: if_splits option.splits)

lemma bus_wf_update:
  assumes "bus_wf b" "bt_get (mailboxes b) a = Some ch" "capacity ch' = capacity ch"
    and "length (inner ch') \<le> default_cap b"
    and "\<And>e. e \<in> set (inner ch') \<Longrightarrow> is_valid (env_token e) \<and> env_to e = a"
  shows "bus_wf (b\<lparr>mailboxes := bt_insert a ch' (mailboxes b)\<rparr>)"
  using assms unfolding bus_wf_def by (auto simp: length_bt_insert)

lemma bus_wfD:
  assumes "bus_wf b" "bt_get (mailboxes b) a = Some ch"
  shows "capacity ch = default_cap b" "length (inner ch) \<le> default_cap b"
    "\<And>e. e \<in> set (inner ch) \<Longrightarrow> is_valid (env_token e) \<and> env_to e = a"
  using assms unfolding bus_wf_def by blast+

lemma bus_wf_send:
  assumes "bus_wf b" "send env b = Inr b'"
  shows "bus_wf b'"
proof -
  from send_cases [OF assms(2)] obtain ch where ch: "is_valid (env_token env)"
    "bt_get (mailboxes b) (env_to env) = Some ch" "length (inner ch) < capacity ch"
    "b' = b\<lparr>mailboxes := bt_insert (env_to env) (ch\<lparr>inner := inner ch @ [env]\<rparr>) (mailboxes b)\<rparr>"
    by blast
  with bus_wfD [OF assms(1) ch(2)] show ?thesis
    unfolding ch(4) by (intro bus_wf_update [OF assms(1) ch(2)]) auto
qed

lemma bus_wf_recv:
  assumes "bus_wf b"
  shows "bus_wf (snd (try_recv a b))"
proof (cases "bt_get (mailboxes b) a")
  case None
  with assms show ?thesis by (simp add: try_recv_def)
next
  case (Some ch)
  note ch = bus_wfD [OF assms Some]
  show ?thesis
    using ch(1,2) ch(3)
    by (cases "inner ch")
      (auto simp: try_recv_def channel_try_recv_def Some intro!: bus_wf_update [OF assms Some])
qed

lemma mailbox_send: "send env b = Inr b' \<Longrightarrow>
  mailbox b' a = (if a = env_to env then mailbox b a @ [env] else mailbox b a)"
  using send_cases [of env b b'] by (auto simp: mailbox_def)

lemma default_cap_open: "default_cap (snd (open_mailbox x b)) = default_cap b"
  by (simp add: open_mailbox_def)

lemma mailbox_open: "mailbox (snd (open_mailbox x b)) a = mailbox b a"
  by (auto simp: mailbox_def open_mailbox_def bt_contains_def channel_new_def split: option.splits)

lemma try_recv_fst: "fst (try_recv a b) = (case mailbox b a of [] \<Rightarrow> None | e # _ \<Rightarrow> Some e)"
  by (auto simp: try_recv_def mailbox_def channel_try_recv_def split: option.splits list.splits)

lemma mailbox_recv: "mailbox (snd (try_recv x b)) a = (if a = x then tl (mailbox b a) else mailbox b a)"
  by (auto simp: try_recv_def mailbox_def channel_try_recv_def split: option.splits list.splits)

text \<open>One mailbox of the bus, seen through \<^verbatim>\<open>send\<close> and \<^verbatim>\<open>try_recv\<close>, is such a queue.\<close>

definition post :: "bytes \<Rightarrow> envelope \<Rightarrow> message_bus \<Rightarrow> message_bus res" where
  "post a e b = (if env_to e = a then send e b else Inl ''misaddressed'')"

definition box_limit :: "bytes \<Rightarrow> message_bus \<Rightarrow> nat" where
  "box_limit a b = (case bt_get (mailboxes b) a of None \<Rightarrow> 0 | Some ch \<Rightarrow> capacity ch)"

lemma box_limit_recv: "box_limit a (snd (try_recv x b)) = box_limit a b"
  by (simp add: try_recv_def box_limit_def channel_try_recv_def split: option.split list.split)

interpretation box: bounded_fifo "post a" "try_recv a" "\<lambda>b. mailbox b a" "box_limit a" bus_wf
  "\<lambda>(e :: envelope) b. env_to e = a \<and> is_valid (env_token e)" for a
proof unfold_locales
  fix b and e :: envelope assume wf: "bus_wf b" and e: "env_to e = a \<and> is_valid (env_token e)"
    and room: "length (mailbox b a) < box_limit a b"
  then obtain ch where ch: "bt_get (mailboxes b) a = Some ch" "length (inner ch) < capacity ch"
    by (auto simp: mailbox_def box_limit_def split: option.splits)
  then obtain b' where b': "send e b = Inr b'"
    using e by (auto simp: send_def channel_send_def)
  have "box_limit a b' = box_limit a b"
    using send_cases [OF b'] e by (auto simp: box_limit_def)
  with b' e show "\<exists>b'. post a e b = Inr b' \<and> mailbox b' a = mailbox b a @ [e] \<and>
      box_limit a b' = box_limit a b \<and> bus_wf b'"
    using bus_wf_send [OF wf b'] mailbox_send [OF b'] by (auto simp: post_def)
next
  fix b and e :: envelope assume "bus_wf b" "box_limit a b \<le> length (mailbox b a)"
  then show "\<exists>m. post a e b = Inl m"
    by (auto simp: post_def send_def channel_send_def box_limit_def mailbox_def split: option.splits)
next
  fix b x xs assume "bus_wf b" "mailbox b a = x # xs"
  then show "\<exists>b'. try_recv a b = (Some x, b') \<and> mailbox b' a = xs \<and> box_limit a b' = box_limit a b \<and> bus_wf b'"
    using try_recv_fst [of a b] mailbox_recv [of a b a] bus_wf_recv [of b a] box_limit_recv [of a a b]
    by (cases "try_recv a b") auto
next
  fix b assume "bus_wf b" "mailbox b a = []"
  then show "fst (try_recv a b) = None \<and> mailbox (snd (try_recv a b)) a = []"
    by (simp add: try_recv_fst mailbox_recv)
next
  fix b assume "bus_wf b"
  then show "length (mailbox b a) \<le> box_limit a b"
    by (auto simp: bus_wf_def mailbox_def box_limit_def split: option.splits)
qed


section \<open>Properties\<close>

lemmas bus_eval = with_capacity_def open_mailbox_def MAX_MAILBOXES_def send_def send_to_def try_recv_def
  mailbox_def bt_contains_def bt_get_def channel_defs bstr_def Let_def

text \<open>A run of the bus: the accepted and the received envelopes, in order.\<close>

datatype bus_op = Open bytes | Send envelope | Recv bytes

fun bus_run :: "bus_op list \<Rightarrow> message_bus \<Rightarrow> envelope list \<times> envelope list \<times> message_bus" where
  "bus_run [] b = ([], [], b)"
| "bus_run (Open a # ops) b = bus_run ops (snd (open_mailbox a b))"
| "bus_run (Send e # ops) b =
     (case send e b of
        Inl _ \<Rightarrow> bus_run ops b
      | Inr b' \<Rightarrow> (let (s, r, b'') = bus_run ops b' in (e # s, r, b'')))"
| "bus_run (Recv a # ops) b =
     (case try_recv a b of
        (None, b') \<Rightarrow> bus_run ops b'
      | (Some e, b') \<Rightarrow> (let (s, r, b'') = bus_run ops b' in (s, e # r, b'')))"

lemma try_recv_valid:
  "bus_wf b \<Longrightarrow> try_recv a b = (Some e, b') \<Longrightarrow> env_to e = a \<and> is_valid (env_token e)"
  by (fastforce simp: bus_wf_def try_recv_def channel_try_recv_def split: option.splits list.splits)

lemma try_recv_mailbox:
  "try_recv x b = (r, b') \<Longrightarrow> mailbox b' a =
     (if a = x then tl (mailbox b a) else mailbox b a) \<and> r = (case mailbox b x of [] \<Rightarrow> None | e # _ \<Rightarrow> Some e)"
  by (metis fst_conv mailbox_recv snd_conv try_recv_fst)

lemma bus_run_balance:
  "bus_wf b \<Longrightarrow> bus_run ops b = (s, r, b') \<Longrightarrow>
   mailbox b a @ filter (\<lambda>e. env_to e = a) s = filter (\<lambda>e. env_to e = a) r @ mailbox b' a \<and>
   list_all (\<lambda>e. is_valid (env_token e)) r \<and> bus_wf b' \<and> default_cap b' = default_cap b"
proof (induction ops b arbitrary: s r rule: bus_run.induct)
  case (1 b)
  then show ?case by simp
next
  case (2 x ops b)
  then show ?case
    using bus_wf_open [of b x] by (simp add: mailbox_open default_cap_open)
next
  case (3 e ops b)
  show ?case
  proof (cases "send e b")
    case (Inl m)
    with 3 show ?thesis by simp
  next
    case (Inr b1)
    with "3.prems"(2) obtain s' where "bus_run ops b1 = (s', r, b')" "s = e # s'"
      by (auto split: prod.splits)
    with "3.IH"(2) [OF Inr bus_wf_send [OF "3.prems"(1) Inr]] show ?thesis
      using mailbox_send [OF Inr, of a] send_cases [OF Inr] by auto
  qed
next
  case (4 x ops b)
  obtain o1 b1 where rec: "try_recv x b = (o1, b1)" by fastforce
  then have wf1: "bus_wf b1" using bus_wf_recv [OF "4.prems"(1), of x] by simp
  have cap: "default_cap b1 = default_cap b"
    using rec by (auto simp: try_recv_def split: option.splits prod.splits)
  show ?case
  proof (cases o1)
    case None
    with rec try_recv_mailbox [OF rec, of a] "4.prems"(2) "4.IH"(1) [of o1 b1] wf1 cap show ?thesis
      by (auto split: list.splits if_splits)
  next
    case (Some e)
    with rec "4.prems"(2) obtain r' where run: "bus_run ops b1 = (s, r', b')" "r = e # r'"
      by (auto split: prod.splits)
    have e: "env_to e = x" "is_valid (env_token e)"
      using try_recv_valid [OF "4.prems"(1)] rec Some by auto
    have "mailbox b a = (if a = x then [e] else []) @ mailbox b1 a"
      using try_recv_mailbox [OF rec, of a] Some by (auto split: list.splits)
    with "4.IH"(2) [of o1 b1 e s r'] run rec Some wf1 cap e show ?thesis by auto
  qed
qed

text \<open>
  C17. Exactly-once FIFO delivery: after any sequence of mailbox openings, sends and
  receives on a fresh bus, the accepted envelopes addressed to an agent are, in
  order, those it has received followed by those still queued; nothing is lost,
  duplicated or reordered.  Every delivered envelope carries a valid capability
  token, and no mailbox exceeds the configured capacity.
\<close>

theorem bus_exactly_once:
  "let (sent, received, b) = bus_run ops (with_capacity cap) in
     filter (\<lambda>e. env_to e = a) sent = filter (\<lambda>e. env_to e = a) received @ mailbox b a \<and>
     list_all (\<lambda>e. is_valid (env_token e)) received \<and>
     length (mailbox b a) \<le> cap \<and> length (mailboxes b) \<le> MAX_MAILBOXES"
proof -
  obtain s r b where run: "bus_run ops (with_capacity cap) = (s, r, b)"
    by (metis prod.exhaust)
  have "mailbox (with_capacity cap) a = []" "default_cap (with_capacity cap) = cap"
    by (simp_all add: mailbox_def with_capacity_def)
  with bus_run_balance [OF bus_wf_new run, of a]
  have *: "filter (\<lambda>e. env_to e = a) s = filter (\<lambda>e. env_to e = a) r @ mailbox b a"
    "list_all (\<lambda>e. is_valid (env_token e)) r" "bus_wf b" "default_cap b = cap"
    by auto
  then have "length (mailbox b a) \<le> cap" "length (mailboxes b) \<le> MAX_MAILBOXES"
    by (auto simp: bus_wf_def mailbox_def split: option.splits)
  with run * show ?thesis by simp
qed

text \<open>
  C23. \<^verbatim>\<open>mailbox_drain\<close> returns the first \<open>n\<close> queued envelopes in FIFO order and leaves the
  rest; the other mailboxes are untouched.
\<close>

theorem mailbox_drain_fifo:
  assumes "bus_wf b"
  shows "fst (mailbox_drain a n b) = take n (mailbox b a) \<and>
    mailbox (snd (mailbox_drain a n b)) a = drop n (mailbox b a) \<and>
    (a' \<noteq> a \<longrightarrow> mailbox (snd (mailbox_drain a n b)) a' = mailbox b a')"
proof -
  have "a' \<noteq> a \<Longrightarrow> mailbox (snd (drain (try_recv a) n b)) a' = mailbox b a'" for a'
  proof (induction n arbitrary: b)
    case (Suc n)
    then show ?case
      by (auto simp: case_prod_beta Let_def mailbox_recv split: option.splits)
  qed simp
  then show ?thesis
    using box.drain_take [OF assms, of a n] box.drain_rest [OF assms, of a n]
    by (simp add: mailbox_drain_def)
qed

theorem mailbox_drain_fifo_witness:
  "let e = \<lparr>env_from = [1], env_to = [2], env_kind = 7, env_payload = [], env_token = Legacy 1\<rparr>;
       b = snd (snd (bus_run [Open [2], Send e, Send e] (with_capacity 4)))
   in bus_wf b \<and> fst (mailbox_drain [2] 1 b) = [e] \<and> mailbox (snd (mailbox_drain [2] 1 b)) [2] = [e]"
proof -
  let ?e = "\<lparr>env_from = [1], env_to = [2], env_kind = 7, env_payload = [], env_token = Legacy 1\<rparr>"
  let ?run = "bus_run [Open [2], Send ?e, Send ?e] (with_capacity 4)"
  have wf: "bus_wf (snd (snd ?run))"
    using bus_run_balance [OF bus_wf_new, of "[Open [2], Send ?e, Send ?e]" 4] by (metis prod.collapse)
  have "mailbox (snd (snd ?run)) [2] = [?e, ?e]"
    by (simp add: bus_eval)
  with wf mailbox_drain_fifo [OF wf, of "[2]" 1] show ?thesis by (simp add: Let_def)
qed

text \<open>The boot smoke test of the message bus succeeds.\<close>

theorem self_test_passes: "self_test"
  by (simp add: self_test_def bus_eval)

end
