(* ===== verification/Stamp.thy ===== *)
theory Stamp
  imports Capability
begin

text \<open>
  \<^verbatim>\<open>crates/event-bus/src/stamp.rs\<close>: the provenance ring of the event bus.  Every
  published event gets a stamp whose hash covers the previous stamp's hash, so the
  retained suffix of the history can be verified from \<open>base_hash\<close> on, also after
  old stamps have been evicted and after the hasher has been switched once.

  A hasher is a function pointer in the code and is compared by address; here it is
  the built-in FNV function or a registered hook.  The hook is code outside this
  crate and stays a parameter: any function from bytes to bytes.
\<close>

section \<open>Hashers\<close>

datatype hash_fn = Fnv | Hook "bytes \<Rightarrow> bytes"

definition fnv_step :: "u64 \<Rightarrow> u8 \<Rightarrow> u64" where
  "fnv_step h b = (h XOR ucast b) * 0x00000100000001b3"

definition fnv1a64_pad32 :: "bytes \<Rightarrow> bytes" where
  "fnv1a64_pad32 bs = le_bytes 8 (unat (foldl fnv_step 0xcbf29ce484222325 bs)) @ replicate 24 0"

fun run_hash :: "hash_fn \<Rightarrow> bytes \<Rightarrow> bytes" where
  "run_hash Fnv = fnv1a64_pad32"
| "run_hash (Hook f) = f"

fun algo_for :: "hash_fn \<Rightarrow> u8" where
  "algo_for Fnv = 0"
| "algo_for (Hook f) = 1"

text \<open>
  The registered hooks: the statics \<^verbatim>\<open>AUDIT_HASHER\<close> and \<^verbatim>\<open>AUDIT_PUBLISHER\<close>, with
  \<open>None\<close> for the null pointer.  \<open>who\<close> is what the registered publisher returns.
\<close>

record audit_hooks =
  audit_hasher :: "hash_fn option"
  audit_publisher :: "u64 option"

definition register_audit_hooks :: "hash_fn \<Rightarrow> u64 \<Rightarrow> audit_hooks \<Rightarrow> audit_hooks" where
  "register_audit_hooks h who k = k\<lparr>audit_hasher := Some h, audit_publisher := Some who\<rparr>"

definition active_hasher :: "audit_hooks \<Rightarrow> hash_fn" where
  "active_hasher k = (case audit_hasher k of None \<Rightarrow> Fnv | Some h \<Rightarrow> h)"

definition unknown_publisher :: u64 where "unknown_publisher = 0"

definition active_publisher :: "audit_hooks \<Rightarrow> u64" where
  "active_publisher k = (case audit_publisher k of None \<Rightarrow> unknown_publisher | Some w \<Rightarrow> w)"

section \<open>Stamps and the ring\<close>

definition STAMP_RING_CAP :: nat where "STAMP_RING_CAP = 512"
definition HASH_PREFIX_MAX :: nat where "HASH_PREFIX_MAX = 256"

record stamp =
  st_seq :: u64
  st_event_id :: u64
  st_token_id :: u64
  st_publisher :: u64
  st_causal_parent_id :: u64
  st_taint_label :: u32
  st_algo :: u8
  st_digest_len :: u32
  st_payload_digest :: bytes
  st_chain_hash :: bytes

record stamp_ring =
  entries :: "stamp list"
  last_hash :: bytes
  base_hash :: bytes
  ring_next_seq :: u64
  dropped :: u64

definition ring_new :: stamp_ring where
  "ring_new = \<lparr>entries = [], last_hash = replicate 32 0, base_hash = replicate 32 0,
     ring_next_seq = 0, dropped = 0\<rparr>"

definition ring_push :: "stamp \<Rightarrow> stamp_ring \<Rightarrow> stamp_ring" where
  "ring_push st r =
     (let r1 = (if length (entries r) \<ge> STAMP_RING_CAP
                then (case entries r of
                        [] \<Rightarrow> r
                      | ev # rest \<Rightarrow> r\<lparr>entries := rest, base_hash := st_chain_hash ev,
                                      dropped := sat_add (dropped r) 1\<rparr>)
                else r)
      in r1\<lparr>last_hash := st_chain_hash st, ring_next_seq := st_seq st + 1,
            entries := entries r1 @ [st]\<rparr>)"

text \<open>\<^verbatim>\<open>copy_into\<close>: append \<open>src\<close> at the cursor of a fixed buffer, capped by its room.\<close>

definition copy_into :: "bytes \<times> nat \<Rightarrow> bytes \<Rightarrow> bytes \<times> nat" where
  "copy_into b src =
     (let room = length (fst b) - snd b; n = min (length src) room
      in (splice (snd b) (take n src) (fst b), snd b + n))"

definition put_u64 :: "bytes \<times> nat \<Rightarrow> u64 \<Rightarrow> bytes \<times> nat" where
  "put_u64 b v = copy_into b (le_bytes 8 (unat v))"

definition put_u32 :: "bytes \<times> nat \<Rightarrow> u32 \<Rightarrow> bytes \<times> nat" where
  "put_u32 b v = copy_into b (le_bytes 4 (unat v))"

definition filled :: "bytes \<times> nat \<Rightarrow> bytes" where
  "filled b = take (snd b) (fst b)"

text \<open>\<^verbatim>\<open>chain_of\<close>: the stamp's fields behind the previous hash, in a 128-byte buffer.\<close>

definition chain_of :: "bytes \<Rightarrow> u64 \<Rightarrow> u64 \<Rightarrow> u64 \<Rightarrow> u64 \<Rightarrow> u64 \<Rightarrow> u32 \<Rightarrow> u8 \<Rightarrow> u32 \<Rightarrow> bytes \<Rightarrow>
    hash_fn \<Rightarrow> bytes" where
  "chain_of prev_hash seq ev_id token_id publisher causal_parent_id taint_label algo digest_len
     payload_digest hasher =
     (let b = (replicate 128 0, 0);
          b = copy_into b prev_hash;
          b = put_u64 b seq;
          b = put_u64 b ev_id;
          b = put_u64 b token_id;
          b = put_u64 b publisher;
          b = put_u64 b causal_parent_id;
          b = put_u32 b taint_label;
          b = copy_into b [algo];
          b = put_u32 b digest_len;
          b = copy_into b payload_digest
      in run_hash hasher (filled b))"

definition build_stamp :: "u64 \<Rightarrow> u64 \<Rightarrow> u64 \<Rightarrow> u64 \<Rightarrow> bytes \<Rightarrow> bytes \<Rightarrow> bytes \<Rightarrow> hash_fn \<Rightarrow> stamp" where
  "build_stamp seq ev_id token_id publisher prev_hash tpc pl hasher =
     (let prefix_len = (if starts_with tpc (bstr ''AUDIO_'') then 0 else min (length pl) HASH_PREFIX_MAX);
          algo = algo_for hasher;
          digest_len = of_nat prefix_len;
          causal_parent_id = 0;
          taint_label = 0;
          topic_n = min (length tpc) 64;
          b = (replicate (256 + 64 + 8) 0, 0);
          b = copy_into b (take topic_n tpc);
          b = copy_into b (take prefix_len pl);
          b = put_u64 b (of_nat (length pl));
          payload_digest = run_hash hasher (filled b);
          chain_hash = chain_of prev_hash seq ev_id token_id publisher causal_parent_id taint_label
                         algo digest_len payload_digest hasher
      in \<lparr>st_seq = seq, st_event_id = ev_id, st_token_id = token_id, st_publisher = publisher,
          st_causal_parent_id = causal_parent_id, st_taint_label = taint_label, st_algo = algo,
          st_digest_len = digest_len, st_payload_digest = payload_digest, st_chain_hash = chain_hash\<rparr>)"

definition stamp_chain :: "hash_fn \<Rightarrow> bytes \<Rightarrow> stamp \<Rightarrow> bytes" where
  "stamp_chain hasher prev st =
     chain_of prev (st_seq st) (st_event_id st) (st_token_id st) (st_publisher st)
       (st_causal_parent_id st) (st_taint_label st) (st_algo st) (st_digest_len st)
       (st_payload_digest st) (if st_algo st = 0 then Fnv else hasher)"

text \<open>\<^verbatim>\<open>verify_stamps\<close>: \<open>Inr n\<close> for \<open>n\<close> intact stamps, \<open>Inl s\<close> for the first bad one.\<close>

fun verify_loop :: "hash_fn \<Rightarrow> bytes \<Rightarrow> u64 \<Rightarrow> stamp list \<Rightarrow> u64 + u64" where
  "verify_loop h prev n [] = Inr n"
| "verify_loop h prev n (st # sts) =
     (if stamp_chain h prev st \<noteq> st_chain_hash st then Inl (st_seq st)
      else verify_loop h (st_chain_hash st) (n + 1) sts)"

definition verify_stamps :: "stamp_ring \<Rightarrow> hash_fn \<Rightarrow> u64 + u64" where
  "verify_stamps r h = verify_loop h (base_hash r) 0 (entries r)"

section \<open>What the chain input holds\<close>

text \<open>The bytes \<^verbatim>\<open>chain_of\<close> hashes: the concatenation of the fields (113 bytes).\<close>

definition chain_input :: "bytes \<Rightarrow> stamp \<Rightarrow> bytes" where
  "chain_input prev st =
     prev @ le_bytes 8 (unat (st_seq st)) @ le_bytes 8 (unat (st_event_id st)) @
     le_bytes 8 (unat (st_token_id st)) @ le_bytes 8 (unat (st_publisher st)) @
     le_bytes 8 (unat (st_causal_parent_id st)) @ le_bytes 4 (unat (st_taint_label st)) @
     [st_algo st] @ le_bytes 4 (unat (st_digest_len st)) @ st_payload_digest st"

lemma copy_into_filled:
  assumes "snd b + length src \<le> length (fst b)"
  shows "filled (copy_into b src) = filled b @ src"
    and "snd (copy_into b src) = snd b + length src"
    and "length (fst (copy_into b src)) = length (fst b)"
proof -
  have "min (length src) (length (fst b) - snd b) = length src" using assms by simp
  then have *: "copy_into b src = (splice (snd b) src (fst b), snd b + length src)"
    by (simp add: copy_into_def Let_def)
  show "filled (copy_into b src) = filled b @ src" "snd (copy_into b src) = snd b + length src"
    "length (fst (copy_into b src)) = length (fst b)"
    using assms by (simp_all add: * filled_def splice_def min_absorb2)
qed

lemma stamp_chain_input:
  assumes "length prev = 32" "length (st_payload_digest st) = 32"
  shows "stamp_chain h prev st = run_hash (if st_algo st = 0 then Fnv else h) (chain_input prev st)"
proof -
  have empty: "filled (replicate 128 0, 0) = []" by (simp add: filled_def)
  show ?thesis
    unfolding stamp_chain_def chain_of_def chain_input_def Let_def put_u64_def put_u32_def
    by (simp add: copy_into_filled assms empty)
qed





section \<open>The chain\<close>

fun chain_ok :: "hash_fn \<Rightarrow> bytes \<Rightarrow> stamp list \<Rightarrow> bool" where
  "chain_ok h prev [] \<longleftrightarrow> True"
| "chain_ok h prev (st # sts) \<longleftrightarrow>
     stamp_chain h prev st = st_chain_hash st \<and> chain_ok h (st_chain_hash st) sts"

definition chain_end :: "bytes \<Rightarrow> stamp list \<Rightarrow> bytes" where
  "chain_end prev sts = (if sts = [] then prev else st_chain_hash (last sts))"

lemma chain_ok_snoc:
  "chain_ok h prev (sts @ [st]) \<longleftrightarrow>
     chain_ok h prev sts \<and> stamp_chain h (chain_end prev sts) st = st_chain_hash st"
  by (induction sts arbitrary: prev) (auto simp: chain_end_def)

lemma verify_loop_ok: "chain_ok h prev sts \<Longrightarrow> verify_loop h prev n sts = Inr (n + of_nat (length sts))"
  by (induction sts arbitrary: prev n) (auto simp: add.assoc)


lemma verify_loop_bad:
  "verify_loop h prev n sts = Inl s \<longleftrightarrow>
     (\<exists>ok st rest. sts = ok @ st # rest \<and> chain_ok h prev ok \<and> s = st_seq st \<and>
        stamp_chain h (chain_end prev ok) st \<noteq> st_chain_hash st)"
proof (induction sts arbitrary: prev n)
  case Nil
  then show ?case by simp
next
  case (Cons a sts)
  show ?case
  proof (cases "stamp_chain h prev a = st_chain_hash a")
    case False
    have "(\<exists>ok st rest. a # sts = ok @ st # rest \<and> chain_ok h prev ok \<and> s = st_seq st \<and>
        stamp_chain h (chain_end prev ok) st \<noteq> st_chain_hash st) \<longleftrightarrow> s = st_seq a" (is "?l \<longleftrightarrow> _")
    proof
      assume ?l
      then obtain ok st rest where *: "a # sts = ok @ st # rest" "chain_ok h prev ok" "s = st_seq st"
        by blast
      with False have "ok = []" by (cases ok) auto
      with * show "s = st_seq a" by simp
    next
      assume "s = st_seq a"
      with False show ?l by (intro exI [of _ "[]"]) (simp add: chain_end_def)
    qed
    with False show ?thesis by auto
  next
    case True
    have "(\<exists>ok st rest. a # sts = ok @ st # rest \<and> chain_ok h prev ok \<and> s = st_seq st \<and>
        stamp_chain h (chain_end prev ok) st \<noteq> st_chain_hash st) \<longleftrightarrow>
      (\<exists>ok st rest. sts = ok @ st # rest \<and> chain_ok h (st_chain_hash a) ok \<and> s = st_seq st \<and>
        stamp_chain h (chain_end (st_chain_hash a) ok) st \<noteq> st_chain_hash st)" (is "?l \<longleftrightarrow> ?r")
    proof
      assume ?l
      then obtain ok st rest where *: "a # sts = ok @ st # rest" "chain_ok h prev ok" "s = st_seq st"
        "stamp_chain h (chain_end prev ok) st \<noteq> st_chain_hash st" by blast
      with True have "ok \<noteq> []" by (auto simp: chain_end_def)
      with * obtain ok' where "ok = a # ok'" by (cases ok) auto
      with * show ?r
        by (intro exI [of _ ok'] exI [of _ st] exI [of _ rest]) (auto simp: chain_end_def split: if_splits)
    next
      assume ?r
      then obtain ok st rest where *: "sts = ok @ st # rest" "chain_ok h (st_chain_hash a) ok" "s = st_seq st"
        "stamp_chain h (chain_end (st_chain_hash a) ok) st \<noteq> st_chain_hash st" by blast
      with True show ?l
        by (intro exI [of _ "a # ok"] exI [of _ st] exI [of _ rest]) (auto simp: chain_end_def split: if_splits)
    qed
    with True Cons.IH show ?thesis by simp
  qed
qed



section \<open>Pushing stamps\<close>

text \<open>
  What \<^verbatim>\<open>publish\<close> does with the ring: build a stamp on its \<open>last_hash\<close> and push it.
  A history is a list of such requests, each with the hasher active at the time.
\<close>

record stamp_request =
  rq_seq :: u64
  rq_event :: u64
  rq_token :: u64
  rq_publisher :: u64
  rq_topic :: bytes
  rq_payload :: bytes
  rq_hasher :: hash_fn

definition push_request :: "stamp_ring \<Rightarrow> stamp_request \<Rightarrow> stamp_ring" where
  "push_request r q = ring_push (build_stamp (rq_seq q) (rq_event q) (rq_token q) (rq_publisher q)
     (last_hash r) (rq_topic q) (rq_payload q) (rq_hasher q)) r"

definition ring_inv :: "hash_fn \<Rightarrow> stamp_ring \<Rightarrow> bool" where
  "ring_inv h r \<longleftrightarrow> chain_ok h (base_hash r) (entries r) \<and>
     last_hash r = chain_end (base_hash r) (entries r) \<and> length (entries r) \<le> STAMP_RING_CAP"

lemma stamp_chain_build:
  "hh = Fnv \<or> hh = h \<Longrightarrow>
   stamp_chain h prev (build_stamp s e t w prev tp pl hh) =
     st_chain_hash (build_stamp s e t w prev tp pl hh)"
  by (cases hh; cases h) (auto simp: stamp_chain_def build_stamp_def Let_def)

lemma ring_inv_new: "ring_inv h ring_new"
  by (simp add: ring_inv_def ring_new_def chain_end_def)

lemma ring_push_entries: "entries (ring_push st r) =
  (if length (entries r) \<ge> STAMP_RING_CAP then tl (entries r) else entries r) @ [st]"
  by (cases "entries r") (auto simp: ring_push_def Let_def STAMP_RING_CAP_def)

lemma ring_push_base: "base_hash (ring_push st r) =
  (if length (entries r) \<ge> STAMP_RING_CAP then st_chain_hash (hd (entries r)) else base_hash r)"
  by (cases "entries r") (auto simp: ring_push_def Let_def STAMP_RING_CAP_def)

lemma ring_push_last: "last_hash (ring_push st r) = st_chain_hash st"
  by (simp add: ring_push_def Let_def)

lemma ring_push_dropped: "dropped (ring_push st r) =
  (if length (entries r) \<ge> STAMP_RING_CAP then sat_add (dropped r) 1 else dropped r)"
  by (cases "entries r") (auto simp: ring_push_def Let_def STAMP_RING_CAP_def)

lemma ring_inv_push:
  assumes inv: "ring_inv h r" and st: "stamp_chain h (last_hash r) st = st_chain_hash st"
  shows "ring_inv h (ring_push st r)"
proof (cases "length (entries r) \<ge> STAMP_RING_CAP")
  case False
  with inv st show ?thesis
    by (simp add: ring_inv_def ring_push_entries ring_push_base ring_push_last chain_ok_snoc)
      (simp add: chain_end_def)
next
  case True
  then obtain ev rest where r: "entries r = ev # rest"
    by (cases "entries r") (auto simp: STAMP_RING_CAP_def)
  have "chain_end (st_chain_hash ev) rest = last_hash r"
    using inv r by (simp add: ring_inv_def chain_end_def)
  with inv st r True show ?thesis
    by (simp add: ring_inv_def ring_push_entries ring_push_base ring_push_last chain_ok_snoc)
      (simp add: chain_end_def)
qed

definition run_requests :: "stamp_request list \<Rightarrow> stamp_ring" where
  "run_requests qs = foldl push_request ring_new qs"

lemma run_requests_snoc: "run_requests (qs @ [q]) = push_request (run_requests qs) q"
  by (simp add: run_requests_def)

lemma run_requests_inv:
  "list_all (\<lambda>q. rq_hasher q = Fnv \<or> rq_hasher q = h) qs \<Longrightarrow> ring_inv h (run_requests qs)"
proof (induction qs rule: rev_induct)
  case Nil
  show ?case by (simp add: run_requests_def ring_inv_new)
next
  case (snoc q qs)
  then show ?case
    by (auto simp: run_requests_snoc push_request_def intro!: ring_inv_push stamp_chain_build)
qed

lemma run_requests_counts:
  "length qs < 2 ^ 64 \<Longrightarrow> length (entries (run_requests qs)) = min (length qs) STAMP_RING_CAP \<and>
     unat (dropped (run_requests qs)) = length qs - STAMP_RING_CAP"
proof (induction qs rule: rev_induct)
  case Nil
  show ?case by (simp add: run_requests_def ring_new_def)
next
  case (snoc q qs)
  then show ?case
    by (auto simp: run_requests_snoc push_request_def ring_push_entries ring_push_dropped
        unat_sat_add STAMP_RING_CAP_def)
qed

section \<open>Properties\<close>

text \<open>
  C21. The provenance chain verifies: however many events have been stamped, before and
  after the hasher \<open>h\<close> was registered, \<^verbatim>\<open>verify_stamps\<close> accepts the ring and counts exactly
  the retained stamps; the ring keeps the most recent 512 and counts every eviction.
\<close>

theorem stamps_verify:
  assumes "list_all (\<lambda>q. rq_hasher q = Fnv \<or> rq_hasher q = h) qs" "length qs < 2 ^ 64"
  shows "verify_stamps (run_requests qs) h = Inr (of_nat (min (length qs) 512)) \<and>
    unat (dropped (run_requests qs)) = length qs - 512"
  using run_requests_inv [OF assms(1)] run_requests_counts [OF assms(2)]
  by (simp add: verify_stamps_def ring_inv_def verify_loop_ok STAMP_RING_CAP_def)

theorem stamps_verify_witness:
  "verify_stamps (run_requests [
     \<lparr>rq_seq = 0, rq_event = 1, rq_token = 1, rq_publisher = 0, rq_topic = bstr ''T'', rq_payload = [7],
      rq_hasher = Fnv\<rparr>,
     \<lparr>rq_seq = 1, rq_event = 2, rq_token = 1, rq_publisher = 9, rq_topic = bstr ''T'', rq_payload = [8],
      rq_hasher = Hook (\<lambda>x. take 32 (rev x @ replicate 32 0))\<rparr>])
     (Hook (\<lambda>x. take 32 (rev x @ replicate 32 0))) = Inr 2"
  using stamps_verify [of "Hook (\<lambda>x. take 32 (rev x @ replicate 32 0))" "[
     \<lparr>rq_seq = 0, rq_event = 1, rq_token = 1, rq_publisher = 0, rq_topic = bstr ''T'', rq_payload = [7],
      rq_hasher = Fnv\<rparr>,
     \<lparr>rq_seq = 1, rq_event = 2, rq_token = 1, rq_publisher = 9, rq_topic = bstr ''T'', rq_payload = [8],
      rq_hasher = Hook (\<lambda>x. take 32 (rev x @ replicate 32 0))\<rparr>]"]
  by simp



text \<open>
  C22. \<^verbatim>\<open>verify_stamps\<close> reports the first bad stamp: it fails with sequence number \<open>s\<close> exactly
  when some stamp with that number follows an intact prefix and its stored hash differs
  from the recomputed one.
\<close>

theorem verify_reports_first_bad:
  "verify_stamps r h = Inl s \<longleftrightarrow>
     (\<exists>ok st rest. entries r = ok @ st # rest \<and> chain_ok h (base_hash r) ok \<and> s = st_seq st \<and>
        stamp_chain h (chain_end (base_hash r) ok) st \<noteq> st_chain_hash st)"
  unfolding verify_stamps_def by (rule verify_loop_bad)

end
