(* ===== verification/Hub.thy ===== *)
theory Hub
  imports Capability
begin

text \<open>
  The publish/subscribe core that \<^verbatim>\<open>EventBus\<close> (\<^verbatim>\<open>crates/event-bus/src/bus.rs\<close>) and
  \<^verbatim>\<open>LatentBus\<close> (\<^verbatim>\<open>latent.rs\<close>) write out twice: a map from topics to subscriber queues,
  each queue an \<^verbatim>\<open>Arc\<close> shared between the map and one receiver.

  The shared queues are an explicit store: a queue is a number, \<open>queues\<close> gives its
  contents, \<open>live\<close> says whether its receiver still exists.  The map and the receiver
  alias the same queue through its number; \<^verbatim>\<open>Arc::strong_count\<close> counts the references.

  The locale \<open>drop_oldest\<close> is the contract one receiver sees: a bounded queue that
  keeps the newest entries.  Both buses are interpretations of it.
\<close>

section \<open>The contract of a bounded, drop-oldest subscription\<close>

locale drop_oldest =
  fixes deliver :: "'e \<Rightarrow> 's \<Rightarrow> 's"
    and queue :: "'s \<Rightarrow> 'p list"
    and accepts :: "'e \<Rightarrow> bool"
    and content :: "'e \<Rightarrow> 'p"
    and depth :: nat
    and ready :: "'s \<Rightarrow> bool"
  assumes depth_pos: "0 < depth"
    and queue_deliver: "ready s \<Longrightarrow>
      queue (deliver e s) = (if accepts e then lastn depth (queue s @ [content e]) else queue s)"
    and ready_deliver: "ready s \<Longrightarrow> ready (deliver e s)"
    and ready_bounded: "ready s \<Longrightarrow> length (queue s) \<le> depth"
begin

lemma deliver_run:
  "ready s \<Longrightarrow> queue (foldl (\<lambda>s e. deliver e s) s es) =
     lastn depth (queue s @ map content (filter accepts es)) \<and>
   ready (foldl (\<lambda>s e. deliver e s) s es)"
proof (induction es rule: rev_induct)
  case Nil
  then show ?case by (simp add: lastn_all ready_bounded)
next
  case (snoc e es)
  obtain d where d: "depth = Suc d" using depth_pos by (cases depth) auto
  from snoc show ?case
    by (simp add: queue_deliver ready_deliver d lastn_lastn_snoc flip: append_assoc)
qed

end

section \<open>State and operations\<close>

record 'e hub =
  subscribers :: "(bytes, nat list) btree"
  queues :: "nat \<Rightarrow> 'e list"
  live :: "nat \<Rightarrow> bool"
  fresh :: nat

definition hub_new :: "'e hub" where
  "hub_new = \<lparr>subscribers = [], queues = (\<lambda>_. []), live = (\<lambda>_. False), fresh = 0\<rparr>"

text \<open>
  \<^verbatim>\<open>push_bounded\<close>: \<^verbatim>\<open>while q.len() >= depth { q.pop_front(); } q.push_back(event)\<close>.  The
  depths in use are 8, 16 and 64; at depth 0 the loop would not end.
\<close>

fun push_bounded :: "nat \<Rightarrow> 'e \<Rightarrow> 'e list \<Rightarrow> 'e list" where
  "push_bounded depth e [] = [e]"
| "push_bounded depth e (x # xs) =
     (if length (x # xs) \<ge> depth then push_bounded depth e xs else x # xs @ [e])"

definition hub_subscribe :: "bytes \<Rightarrow> 'e hub \<Rightarrow> nat \<times> 'e hub" where
  "hub_subscribe t h =
     (let q = fresh h;
          subs = (case bt_get (subscribers h) t of
                    Some qs \<Rightarrow> bt_insert t (qs @ [q]) (subscribers h)
                  | None \<Rightarrow> bt_insert t [q] (subscribers h))
      in (q, h\<lparr>subscribers := subs, queues := (queues h)(q := []), live := (live h)(q := True),
               fresh := Suc q\<rparr>))"

definition hub_unsubscribe :: "bytes \<Rightarrow> nat \<Rightarrow> 'e hub \<Rightarrow> 'e hub" where
  "hub_unsubscribe t q h =
     (case bt_get (subscribers h) t of
        None \<Rightarrow> h
      | Some qs \<Rightarrow>
          (let qs' = filter (\<lambda>x. x \<noteq> q) qs
           in if qs' = [] then h\<lparr>subscribers := bt_remove t (subscribers h)\<rparr>
              else h\<lparr>subscribers := bt_insert t qs' (subscribers h)\<rparr>))"

definition strong_count :: "'e hub \<Rightarrow> nat \<Rightarrow> nat" where
  "strong_count h q =
     sum_list (map (\<lambda>(t, qs). count_list qs q) (subscribers h)) + (if live h q then 1 else 0)"

text \<open>The delivery loop over the retained queues; \<open>free q\<close> says whether the queue's lock was got.\<close>

fun fanout :: "(nat \<Rightarrow> bool) \<Rightarrow> nat \<Rightarrow> 'e \<Rightarrow> nat list \<Rightarrow> nat \<times> (nat \<Rightarrow> 'e list) \<Rightarrow> nat \<times> (nat \<Rightarrow> 'e list)"
  where
  "fanout free depth e [] acc = acc"
| "fanout free depth e (q # qs) (n, qh) =
     (if free q then fanout free depth e qs (Suc n, qh(q := push_bounded depth e (qh q)))
      else fanout free depth e qs (n, qh))"

definition hub_publish :: "(nat \<Rightarrow> bool) \<Rightarrow> nat \<Rightarrow> bytes \<Rightarrow> 'e \<Rightarrow> 'e hub \<Rightarrow> nat \<times> 'e hub" where
  "hub_publish free depth t e h =
     (case bt_get (subscribers h) t of
        None \<Rightarrow> (0, h)
      | Some qs \<Rightarrow>
          (let qs' = filter (\<lambda>q. strong_count h q > 1) qs;
               (delivered, qh) = fanout free depth e qs' (0, queues h);
               subs = (if qs' = [] then bt_remove t (subscribers h)
                       else bt_insert t qs' (subscribers h))
           in (delivered, h\<lparr>subscribers := subs, queues := qh\<rparr>)))"

definition hub_count :: "bytes \<Rightarrow> 'e hub \<Rightarrow> nat \<times> 'e hub" where
  "hub_count t h =
     (case bt_get (subscribers h) t of
        None \<Rightarrow> (0, h)
      | Some qs \<Rightarrow>
          (let qs' = filter (\<lambda>q. strong_count h q > 1) qs
           in if qs' = [] then (0, h\<lparr>subscribers := bt_remove t (subscribers h)\<rparr>)
              else (length qs', h\<lparr>subscribers := bt_insert t qs' (subscribers h)\<rparr>)))"

definition hub_receive :: "nat \<Rightarrow> 'e hub \<Rightarrow> 'e option \<times> 'e hub" where
  "hub_receive q h =
     (case queues h q of
        [] \<Rightarrow> (None, h)
      | e # es \<Rightarrow> (Some e, h\<lparr>queues := (queues h)(q := es)\<rparr>))"

text \<open>The receiver goes out of scope: one reference less.\<close>

definition hub_drop :: "nat \<Rightarrow> 'e hub \<Rightarrow> 'e hub" where
  "hub_drop q h = h\<lparr>live := (live h)(q := False)\<rparr>"

section \<open>Invariant\<close>

definition listening :: "'e hub \<Rightarrow> bytes \<Rightarrow> nat \<Rightarrow> bool" where
  "listening h t q \<longleftrightarrow> (\<exists>qs. bt_get (subscribers h) t = Some qs \<and> q \<in> set qs)"

definition hub_inv :: "(bytes \<Rightarrow> nat) \<Rightarrow> (bytes \<Rightarrow> 'e \<Rightarrow> bool) \<Rightarrow> 'e hub \<Rightarrow> bool" where
  "hub_inv depth ok h \<longleftrightarrow>
     bt_wf (subscribers h) \<and>
     (\<forall>t qs. bt_get (subscribers h) t = Some qs \<longrightarrow> qs \<noteq> [] \<and> distinct qs) \<and>
     (\<forall>t t' q. listening h t q \<longrightarrow> listening h t' q \<longrightarrow> t = t') \<and>
     (\<forall>t q. listening h t q \<longrightarrow> q < fresh h \<and> length (queues h q) \<le> depth t \<and> list_all (ok t) (queues h q)) \<and>
     (\<forall>q. live h q \<longrightarrow> q < fresh h)"

lemma hub_invD:
  assumes "hub_inv depth ok h"
  shows "bt_wf (subscribers h)"
    and "\<And>t qs. bt_get (subscribers h) t = Some qs \<Longrightarrow> qs \<noteq> []"
    and "\<And>t qs. bt_get (subscribers h) t = Some qs \<Longrightarrow> distinct qs"
    and "\<And>t t' q. listening h t q \<Longrightarrow> listening h t' q \<Longrightarrow> t = t'"
    and "\<And>t q. listening h t q \<Longrightarrow> q < fresh h"
    and "\<And>t q. listening h t q \<Longrightarrow> length (queues h q) \<le> depth t"
    and "\<And>t q. listening h t q \<Longrightarrow> list_all (ok t) (queues h q)"
    and "\<And>q. live h q \<Longrightarrow> q < fresh h"
  using assms unfolding hub_inv_def by blast+

lemma push_bounded_lastn: "0 < depth \<Longrightarrow> push_bounded depth e q = lastn depth (q @ [e])"
proof (induction depth e q rule: push_bounded.induct)
  case (1 depth e)
  then show ?case by (simp add: lastn_all)
next
  case (2 depth e x xs)
  show ?case
  proof (cases "length (x # xs) \<ge> depth")
    case True
    with 2 show ?thesis by (simp add: lastn_def Suc_diff_le)
  next
    case False
    then show ?thesis by (simp add: lastn_all)
  qed
qed

lemma fanout_queue:
  "distinct qs \<Longrightarrow> snd (fanout free depth e qs (n, qh)) q =
     (if q \<in> set qs \<and> free q then push_bounded depth e (qh q) else qh q)"
  by (induction qs arbitrary: n qh) auto

lemma fanout_count: "fst (fanout free depth e qs (n, qh)) = n + length (filter free qs)"
  by (induction qs arbitrary: n qh) auto

lemma sum_count_none:
  "(\<And>t qs. (t, qs) \<in> set m \<Longrightarrow> q \<notin> set qs) \<Longrightarrow> sum_list (map (\<lambda>(t, qs). count_list qs q) m) = 0"
  by (auto simp: count_list_0_iff)

lemma sum_count_one:
  assumes "distinct (map fst m)" "(t, qs) \<in> set m" "q \<in> set qs" "distinct qs"
    and "\<And>t' qs'. (t', qs') \<in> set m \<Longrightarrow> q \<in> set qs' \<Longrightarrow> t' = t"
  shows "sum_list (map (\<lambda>(t, qs). count_list qs q) m) = 1"
  using assms
proof (induction m)
  case Nil
  then show ?case by simp
next
  case (Cons p m)
  obtain t0 qs0 where p: "p = (t0, qs0)" by (cases p)
  show ?case
  proof (cases "t0 = t")
    case True
    with Cons.prems p have qs0: "qs0 = qs" by (metis eq_key_imp_eq_value list.set_intros(1))
    have "q \<notin> set qs'" if "(t', qs') \<in> set m" for t' qs'
    proof
      assume "q \<in> set qs'"
      with that Cons.prems(5) have "t' = t" by auto
      with that True p Cons.prems(1) show False by (auto simp: rev_image_eqI)
    qed
    then have "sum_list (map (\<lambda>(t, qs). count_list qs q) m) = 0" by (intro sum_count_none) auto
    moreover have "count_list qs q = 1" using Cons.prems(3,4) by (induction qs) auto
    ultimately show ?thesis by (simp add: p qs0)
  next
    case False
    with Cons.prems p have m: "(t, qs) \<in> set m" and "q \<notin> set qs0" by auto
    moreover have "sum_list (map (\<lambda>(t, qs). count_list qs q) m) = 1"
      by (rule Cons.IH [OF _ m Cons.prems(3,4)]) (use Cons.prems(1,5) in auto)
    ultimately show ?thesis by (simp add: p count_list_0_iff)
  qed
qed

text \<open>Under the invariant a mapped queue has a second owner exactly while its receiver lives.\<close>

lemma strong_count_live:
  assumes inv: "hub_inv depth ok h" and q: "listening h t q"
  shows "strong_count h q > 1 \<longleftrightarrow> live h q"
proof -
  from q obtain qs where qs: "bt_get (subscribers h) t = Some qs" "q \<in> set qs"
    by (auto simp: listening_def)
  have wf: "bt_wf (subscribers h)" by (rule hub_invD [OF inv])
  then have keys: "distinct (map fst (subscribers h))" by (metis bt.keys_distinct bt_keys_def)
  have "sum_list (map (\<lambda>(t, qs). count_list qs q) (subscribers h)) = 1"
  proof (rule sum_count_one [OF keys _ qs(2)])
    show "(t, qs) \<in> set (subscribers h)" using qs wf by (simp add: bt_get_mem)
    show "distinct qs" using hub_invD(3) [OF inv qs(1)] .
    show "t' = t" if "(t', qs') \<in> set (subscribers h)" "q \<in> set qs'" for t' qs'
      using that wf q hub_invD(4) [OF inv] by (auto simp: bt_get_mem listening_def)
  qed
  then show ?thesis by (simp add: strong_count_def)
qed

text \<open>What each operation does to the relation ``queue \<open>q\<close> is mapped under topic \<open>t\<close>''.\<close>

lemma hub_prune_filter:
  assumes inv: "hub_inv depth ok h" and qs: "bt_get (subscribers h) t = Some qs"
  shows "filter (\<lambda>q. strong_count h q > 1) qs = filter (live h) qs"
  by (rule filter_cong) (use strong_count_live [OF inv] qs in \<open>auto simp: listening_def\<close>)

lemma hub_publish_unfold:
  assumes inv: "hub_inv depth ok h" and qs: "bt_get (subscribers h) t = Some qs"
  shows "hub_publish free d t e h =
    (length (filter free (filter (live h) qs)),
     h\<lparr>subscribers := (if filter (live h) qs = [] then bt_remove t (subscribers h)
                        else bt_insert t (filter (live h) qs) (subscribers h)),
       queues := snd (fanout free d e (filter (live h) qs) (0, queues h))\<rparr>)"
proof -
  obtain n qh where f: "fanout free d e (filter (live h) qs) (0, queues h) = (n, qh)" by fastforce
  then have "n = length (filter free (filter (live h) qs))"
    using fanout_count [of free d e "filter (live h) qs" 0 "queues h"] by simp
  then show ?thesis
    unfolding hub_publish_def qs option.case Let_def hub_prune_filter [OF inv qs] f by simp
qed

lemma get_relisted [simp]:
  "bt_wf m \<Longrightarrow> bt_get (if qs = [] then bt_remove t m else bt_insert t qs m) t' =
     (if t' = t then (if qs = [] then None else Some qs) else bt_get m t')"
  by (simp add: bt_laws)

lemma listening_relisted:
  assumes "bt_wf (subscribers h)"
  shows "listening (h\<lparr>subscribers := (if qs = [] then bt_remove t (subscribers h)
                                       else bt_insert t qs (subscribers h))\<rparr>) t' q \<longleftrightarrow>
     (if t' = t then q \<in> set qs else listening h t' q)"
  using assms by (auto simp: listening_def)

lemma hub_inv_relisted:
  assumes inv: "hub_inv depth ok h" and "bt_get (subscribers h) t = Some qs"
    and sub: "set qs' \<subseteq> set qs" "distinct qs'"
  shows "hub_inv depth ok (h\<lparr>subscribers := (if qs' = [] then bt_remove t (subscribers h)
                                       else bt_insert t qs' (subscribers h))\<rparr>)" (is "hub_inv _ _ ?h")
proof -
  have wf: "bt_wf (subscribers h)" by (rule hub_invD [OF inv])
  have lis: "listening ?h t' q \<longleftrightarrow> (if t' = t then q \<in> set qs' else listening h t' q)" for t' q
    using listening_relisted [OF wf] .
  have old: "listening h t' q" if "listening ?h t' q" for t' q
    using that assms(2) sub unfolding lis by (auto simp: listening_def split: if_splits)
  show ?thesis unfolding hub_inv_def
  proof (intro conjI allI impI)
    show "bt_wf (subscribers ?h)" using wf by simp
    show "t1 = t2" if "listening ?h t1 q" "listening ?h t2 q" for t1 t2 q
      using old that hub_invD(4) [OF inv] by blast
    show "xs \<noteq> []" "distinct xs" if "bt_get (subscribers ?h) t' = Some xs" for t' xs
      using that wf hub_invD(2,3) [OF inv] sub(2) by (auto split: if_splits)
    show "q < fresh ?h" "length (queues ?h q) \<le> depth t'" "list_all (ok t') (queues ?h q)"
      if "listening ?h t' q" for t' q
      using hub_invD(5-7) [OF inv old [OF that]] by simp_all
    show "q < fresh ?h" if "live ?h q" for q
      using hub_invD(8) [OF inv] that by simp
  qed
qed

lemma hub_inv_queues:
  assumes "hub_inv depth ok h"
    and "\<And>t q. listening h t q \<Longrightarrow> length (qh q) \<le> depth t \<and> list_all (ok t) (qh q)"
  shows "hub_inv depth ok (h\<lparr>queues := qh\<rparr>)"
  using assms unfolding hub_inv_def listening_def by simp

lemma listening_queues [simp]: "listening (h\<lparr>queues := qh\<rparr>) t q = listening h t q"
  by (simp add: listening_def)

lemma list_all_lastn: "list_all P xs \<Longrightarrow> list_all P (lastn n xs)"
  by (auto simp: lastn_def list_all_iff dest: in_set_dropD)

lemma hub_inv_new: "hub_inv depth ok hub_new"
  by (simp add: hub_inv_def hub_new_def listening_def bt_get_def bt_wf_def)

lemma hub_inv_subscribe:
  assumes inv: "hub_inv depth ok h"
  shows "hub_inv depth ok (snd (hub_subscribe t h))" (is "hub_inv _ _ ?h")
proof -
  have wf: "bt_wf (subscribers h)" by (rule hub_invD [OF inv])
  have unused: "\<not> listening h t' (fresh h)" for t'
    using hub_invD(5) [OF inv] by blast
  have get: "bt_get (subscribers ?h) t' =
      (if t' = t then Some ((case bt_get (subscribers h) t of None \<Rightarrow> [] | Some qs \<Rightarrow> qs) @ [fresh h])
       else bt_get (subscribers h) t')" for t'
    using wf by (auto simp: hub_subscribe_def Let_def split: option.splits)
  have lis: "listening ?h t' q \<longleftrightarrow> listening h t' q \<or> (t' = t \<and> q = fresh h)" for t' q
    by (cases "bt_get (subscribers h) t") (auto simp: listening_def get)
  have same: "queues ?h q = queues h q" if "q \<noteq> fresh h" for q
    using that by (simp add: hub_subscribe_def Let_def)
  have new: "queues ?h (fresh h) = []" "fresh ?h = Suc (fresh h)"
    by (simp_all add: hub_subscribe_def Let_def)
  show ?thesis unfolding hub_inv_def
  proof (intro conjI allI impI)
    show "bt_wf (subscribers ?h)" using wf by (simp add: hub_subscribe_def Let_def split: option.splits)
    show "t1 = t2" if "listening ?h t1 q" "listening ?h t2 q" for t1 t2 q
      using that hub_invD(4) [OF inv] unused by (auto simp: lis)
    show "xs \<noteq> []" "distinct xs" if "bt_get (subscribers ?h) t' = Some xs" for t' xs
      using that hub_invD(2,3) [OF inv] unused
      by (auto simp: get listening_def split: if_splits option.splits)
    show "q < fresh ?h" "length (queues ?h q) \<le> depth t'" "list_all (ok t') (queues ?h q)"
      if "listening ?h t' q" for t' q
      using that hub_invD(5-7) [OF inv, of t' q] same [of q] by (auto simp: lis new less_SucI)
    show "q < fresh ?h" if "live ?h q" for q
      using that hub_invD(8) [OF inv, of q]
      by (auto simp: hub_subscribe_def Let_def less_SucI split: if_splits)
  qed
qed

lemma hub_inv_unsubscribe: "hub_inv depth ok h \<Longrightarrow> hub_inv depth ok (hub_unsubscribe t q h)"
  using hub_inv_relisted [of depth ok h t _ "filter (\<lambda>x. x \<noteq> q) _"] hub_invD(3)
  by (fastforce simp: hub_unsubscribe_def Let_def split: option.splits)

lemma hub_inv_count: "hub_inv depth ok h \<Longrightarrow> hub_inv depth ok (snd (hub_count t h))"
  using hub_inv_relisted [of depth ok h t _ "filter (\<lambda>q. strong_count h q > 1) _"] hub_invD(3)
  by (fastforce simp: hub_count_def Let_def split: option.splits)

lemma hub_count_live:
  assumes "hub_inv depth ok h"
  shows "fst (hub_count t h) = card {q. listening h t q \<and> live h q}"
proof (cases "bt_get (subscribers h) t")
  case None
  then show ?thesis by (simp add: hub_count_def listening_def)
next
  case (Some qs)
  have "fst (hub_count t h) = length (filter (live h) qs)"
    unfolding hub_count_def Some option.case hub_prune_filter [OF assms Some] by (simp add: Let_def)
  also have "\<dots> = card (set (filter (live h) qs))"
    using hub_invD(3) [OF assms Some] by (simp add: distinct_card del: set_filter)
  also have "set (filter (live h) qs) = {q. listening h t q \<and> live h q}"
    using Some by (auto simp: listening_def)
  finally show ?thesis .
qed

lemma hub_inv_receive: "hub_inv depth ok h \<Longrightarrow> hub_inv depth ok (snd (hub_receive q h))"
proof (cases "queues h q")
  case (Cons e es)
  assume inv: "hub_inv depth ok h"
  have "hub_inv depth ok (h\<lparr>queues := (queues h)(q := es)\<rparr>)"
    by (rule hub_inv_queues [OF inv]) (use hub_invD(6,7) [OF inv] Cons in fastforce)
  then show ?thesis by (simp add: hub_receive_def Cons)
qed (simp add: hub_receive_def)

lemma hub_inv_drop: "hub_inv depth ok h \<Longrightarrow> hub_inv depth ok (hub_drop q h)"
  unfolding hub_inv_def listening_def hub_drop_def by simp

text \<open>Publishing: which queues change, which stay mapped.\<close>

lemma hub_publish_queue:
  assumes inv: "hub_inv depth ok h" and "0 < d"
  shows "queues (snd (hub_publish free d t e h)) q =
    (if listening h t q \<and> live h q \<and> free q then lastn d (queues h q @ [e]) else queues h q)"
proof (cases "bt_get (subscribers h) t")
  case None
  then show ?thesis by (simp add: hub_publish_def listening_def)
next
  case (Some qs)
  have "distinct (filter (live h) qs)" using hub_invD(3) [OF inv Some] by simp
  then show ?thesis
    using Some assms(2) unfolding hub_publish_unfold [OF inv Some]
    by (simp add: fanout_queue push_bounded_lastn listening_def)
qed

lemma hub_publish_listening:
  assumes inv: "hub_inv depth ok h"
  shows "listening (snd (hub_publish free d t e h)) t' q \<longleftrightarrow>
    listening h t' q \<and> (t' = t \<longrightarrow> live h q)"
proof (cases "bt_get (subscribers h) t")
  case None
  then show ?thesis by (auto simp: hub_publish_def listening_def)
next
  case (Some qs)
  have wf: "bt_wf (subscribers h)" by (rule hub_invD [OF inv])
  show ?thesis
    unfolding hub_publish_unfold [OF inv Some] snd_conv listening_queues listening_relisted [OF wf]
    using Some by (auto simp: listening_def)
qed

lemma hub_publish_frame [simp]:
  "live (snd (hub_publish free d t e h)) = live h"
  "fresh (snd (hub_publish free d t e h)) = fresh h"
  by (auto simp: hub_publish_def Let_def split: option.splits prod.splits)

lemma hub_publish_count:
  assumes inv: "hub_inv depth ok h"
  shows "fst (hub_publish free d t e h) = card {q. listening h t q \<and> live h q \<and> free q}"
proof (cases "bt_get (subscribers h) t")
  case None
  then show ?thesis by (simp add: hub_publish_def listening_def)
next
  case (Some qs)
  let ?qs = "filter free (filter (live h) qs)"
  have "length ?qs = card (set ?qs)"
    using hub_invD(3) [OF inv Some] by (simp add: distinct_card del: set_filter)
  also have "set ?qs = {q. listening h t q \<and> live h q \<and> free q}"
    using Some by (auto simp: listening_def)
  finally show ?thesis unfolding hub_publish_unfold [OF inv Some] by simp
qed

lemma hub_inv_publish:
  assumes inv: "hub_inv depth ok h" and "0 < depth t" "ok t e"
  shows "hub_inv depth ok (snd (hub_publish free (depth t) t e h))"
proof (cases "bt_get (subscribers h) t")
  case None
  then show ?thesis using inv by (simp add: hub_publish_def)
next
  case (Some qs)
  let ?q = "filter (live h) qs"
  let ?h1 = "h\<lparr>subscribers := (if ?q = [] then bt_remove t (subscribers h) else bt_insert t ?q (subscribers h))\<rparr>"
  have h1: "hub_inv depth ok ?h1"
    using hub_inv_relisted [OF inv Some, of ?q] hub_invD(3) [OF inv Some] by simp
  have wf: "bt_wf (subscribers h)" by (rule hub_invD [OF inv])
  have q: "length (snd (fanout free (depth t) e ?q (0, queues h)) q) \<le> depth t' \<and>
      list_all (ok t') (snd (fanout free (depth t) e ?q (0, queues h)) q)"
    if "listening ?h1 t' q" for t' q
  proof -
    have d: "distinct ?q" using hub_invD(3) [OF inv Some] by simp
    have l: "length (queues h q) \<le> depth t'" "list_all (ok t') (queues h q)"
      using hub_invD(6,7) [OF h1 that] by simp_all
    have "t' = t" if "q \<in> set ?q"
      using hub_invD(4) [OF h1 \<open>listening ?h1 t' q\<close>] that listening_relisted [OF wf, of ?q t t q] by auto
    then show ?thesis
      using l assms(2,3) unfolding fanout_queue [OF d]
      by (auto simp: push_bounded_lastn list_all_lastn)
  qed
  show ?thesis
    using hub_inv_queues [OF h1 q] unfolding hub_publish_unfold [OF inv Some] by simp
qed

end
