(* ===== verification/EventBus.thy ===== *)
theory EventBus
  imports Hub Stamp TicketLock
begin

text \<open>
  \<^verbatim>\<open>crates/event-bus/src/bus.rs\<close>: the textual event bus.  A publication gets an id, is
  stamped into the audit ring and fanned out to the live subscribers of its topic.

  Every lock on the publish path is acquired by \<^verbatim>\<open>lock_bounded\<close>, which may give up.
  Whether it succeeds is decided by the other cores, so it is a parameter
  (\<open>lock_env\<close>) of the operations: each operation is modelled for every outcome.
  \<open>bus_step\<close> interleaves the operations of all clients.
\<close>

section \<open>Bounded lock acquisition\<close>

definition LOCK_SPIN_BUDGET :: nat where "LOCK_SPIN_BUDGET = 256"

text \<open>\<open>obs i\<close> is the state of the lock when the \<open>i\<close>-th attempt looks at it.\<close>

fun lock_attempts :: "nat \<Rightarrow> nat \<Rightarrow> (nat \<Rightarrow> 'd ticket_lock) \<Rightarrow> 'd ticket_lock option" where
  "lock_attempts 0 i obs = None"
| "lock_attempts (Suc n) i obs =
     (case try_lock (obs i) of Some l \<Rightarrow> Some l | None \<Rightarrow> lock_attempts n (Suc i) obs)"

definition lock_bounded :: "(nat \<Rightarrow> 'd ticket_lock) \<Rightarrow> 'd ticket_lock option" where
  "lock_bounded obs = lock_attempts LOCK_SPIN_BUDGET 0 obs"

section \<open>The bus\<close>

definition DEFAULT_QUEUE_DEPTH :: nat where "DEFAULT_QUEUE_DEPTH = 64"
definition STREAM_QUEUE_DEPTH :: nat where "STREAM_QUEUE_DEPTH = 8"

definition queue_depth_for :: "bytes \<Rightarrow> nat" where
  "queue_depth_for t =
     (if t = bstr ''AUDIO_FRAME'' \<or> t = bstr ''AUDIO_IN'' \<or> t = bstr ''AUDIO_OUT''
      then STREAM_QUEUE_DEPTH else DEFAULT_QUEUE_DEPTH)"

record receiver =
  rx_topic :: bytes
  rx_queue :: nat

record event_bus =
  event_hub :: "event hub"
  next_event_id :: u64
  audit :: stamp_ring
  next_seq :: u64
  hooks :: audit_hooks
  audit_skipped :: u64
  cloned_bytes :: u64
  cloned_count :: u64

record lock_env =
  audit_free :: bool
  map_free :: bool
  queue_free :: "nat \<Rightarrow> bool"

definition all_free :: lock_env where
  "all_free = \<lparr>audit_free = True, map_free = True, queue_free = (\<lambda>_. True)\<rparr>"

definition bus_init :: event_bus where
  "bus_init = \<lparr>event_hub = hub_new, next_event_id = 1, audit = ring_new, next_seq = 0,
     hooks = \<lparr>audit_hasher = None, audit_publisher = None\<rparr>, audit_skipped = 0, cloned_bytes = 0,
     cloned_count = 0\<rparr>"

definition clone_churn_snapshot :: "event_bus \<Rightarrow> u64 \<times> u64" where
  "clone_churn_snapshot b = (cloned_bytes b, cloned_count b)"

definition bus_register_audit_hooks :: "hash_fn \<Rightarrow> u64 \<Rightarrow> event_bus \<Rightarrow> event_bus" where
  "bus_register_audit_hooks h who b = b\<lparr>hooks := register_audit_hooks h who (hooks b)\<rparr>"

definition subscribe :: "bytes \<Rightarrow> event_bus \<Rightarrow> receiver \<times> event_bus" where
  "subscribe t b =
     (let (q, h) = hub_subscribe t (event_hub b)
      in (\<lparr>rx_topic = t, rx_queue = q\<rparr>, b\<lparr>event_hub := h\<rparr>))"

definition unsubscribe :: "receiver \<Rightarrow> event_bus \<Rightarrow> event_bus" where
  "unsubscribe rx b = b\<lparr>event_hub := hub_unsubscribe (rx_topic rx) (rx_queue rx) (event_hub b)\<rparr>"

text \<open>The provenance part of \<^verbatim>\<open>publish\<close>: one stamp, or one more skipped stamp.\<close>

definition audit_event :: "bool \<Rightarrow> event \<Rightarrow> event_bus \<Rightarrow> event_bus" where
  "audit_event free ev b =
     (if free then
        (let st = build_stamp (next_seq b) (event_id ev) (as_legacy (token ev))
                    (active_publisher (hooks b)) (last_hash (audit b)) (topic ev) (payload ev)
                    (active_hasher (hooks b))
         in b\<lparr>next_seq := next_seq b + 1, audit := ring_push st (audit b)\<rparr>)
      else b\<lparr>audit_skipped := audit_skipped b + 1\<rparr>)"

definition publish :: "lock_env \<Rightarrow> event \<Rightarrow> event_bus \<Rightarrow> nat res \<times> event_bus" where
  "publish env event b =
     (if \<not> is_valid (token event) then (Inl ''token de capacidade invalido'', b)
      else
        (let ev = event\<lparr>event_id := next_event_id b\<rparr>;
             b1 = audit_event (audit_free env) ev (b\<lparr>next_event_id := next_event_id b + 1\<rparr>)
         in if \<not> map_free env then (Inr 0, b1)
            else
              (let (delivered, h) =
                     hub_publish (queue_free env) (queue_depth_for (topic ev)) (topic ev) ev (event_hub b1)
               in (Inr delivered,
                   b1\<lparr>event_hub := h,
                      cloned_bytes := cloned_bytes b1 + of_nat delivered * of_nat (length (payload ev)),
                      cloned_count := cloned_count b1 + of_nat delivered\<rparr>))))"

definition audit_verify :: "bool \<Rightarrow> event_bus \<Rightarrow> u64 + u64" where
  "audit_verify free b =
     (if free then verify_stamps (audit b) (active_hasher (hooks b)) else Inl (-1))"

definition audit_dropped :: "bool \<Rightarrow> event_bus \<Rightarrow> u64" where
  "audit_dropped free b = (if free then dropped (audit b) else audit_skipped b)"

definition subscriber_count :: "bool \<Rightarrow> bytes \<Rightarrow> event_bus \<Rightarrow> nat \<times> event_bus" where
  "subscriber_count free t b =
     (if \<not> free then (0, b)
      else (let (n, h) = hub_count t (event_hub b) in (n, b\<lparr>event_hub := h\<rparr>)))"

subsection \<open>The receiver's side\<close>

definition try_receive :: "bool \<Rightarrow> receiver \<Rightarrow> event_bus \<Rightarrow> event option \<times> event_bus" where
  "try_receive free rx b =
     (if \<not> free then (None, b)
      else (let (e, h) = hub_receive (rx_queue rx) (event_hub b) in (e, b\<lparr>event_hub := h\<rparr>)))"

definition has_pending :: "bool \<Rightarrow> receiver \<Rightarrow> event_bus \<Rightarrow> bool" where
  "has_pending free rx b = (free \<and> queues (event_hub b) (rx_queue rx) \<noteq> [])"

definition pending_len :: "bool \<Rightarrow> receiver \<Rightarrow> event_bus \<Rightarrow> nat" where
  "pending_len free rx b = (if free then length (queues (event_hub b) (rx_queue rx)) else 0)"

definition drop_receiver :: "receiver \<Rightarrow> event_bus \<Rightarrow> event_bus" where
  "drop_receiver rx b = b\<lparr>event_hub := hub_drop (rx_queue rx) (event_hub b)\<rparr>"

section \<open>All clients interleaved\<close>

text \<open>
  The kernel registers its hasher once, at boot; events published before carry the
  FNV fallback.  Every other operation may come at any time, with any lock outcome.
\<close>

inductive bus_step :: "event_bus \<Rightarrow> event_bus \<Rightarrow> bool" where
  Register: "audit_hasher (hooks b) = None \<Longrightarrow> bus_step b (bus_register_audit_hooks h who b)"
| Subscribe: "bus_step b (snd (subscribe t b))"
| Unsubscribe: "bus_step b (unsubscribe rx b)"
| Publish: "bus_step b (snd (publish env ev b))"
| Receive: "bus_step b (snd (try_receive free rx b))"
| Count: "bus_step b (snd (subscriber_count free t b))"
| DropRx: "bus_step b (drop_receiver rx b)"

inductive bus_reach :: "event_bus \<Rightarrow> bool" where
  Init: "bus_reach bus_init"
| Step: "bus_reach b \<Longrightarrow> bus_step b b' \<Longrightarrow> bus_reach b'"

section \<open>Invariant\<close>

definition event_ok :: "bytes \<Rightarrow> event \<Rightarrow> bool" where
  "event_ok t e \<longleftrightarrow> topic e = t \<and> is_valid (token e)"

definition audit_inv :: "event_bus \<Rightarrow> bool" where
  "audit_inv b \<longleftrightarrow> ring_inv (active_hasher (hooks b)) (audit b) \<and>
     (audit_hasher (hooks b) = None \<longrightarrow> (\<forall>st \<in> set (entries (audit b)). st_algo st = 0))"

definition event_inv :: "event_bus \<Rightarrow> bool" where
  "event_inv b \<longleftrightarrow> hub_inv queue_depth_for event_ok (event_hub b) \<and> audit_inv b"

lemma queue_depth_pos [simp]: "0 < queue_depth_for t"
  by (simp add: queue_depth_for_def STREAM_QUEUE_DEPTH_def DEFAULT_QUEUE_DEPTH_def)

lemma stamp_chain_fnv: "st_algo st = 0 \<Longrightarrow> stamp_chain h prev st = stamp_chain h' prev st"
  by (simp add: stamp_chain_def)

lemma chain_ok_fnv:
  "\<forall>st \<in> set sts. st_algo st = 0 \<Longrightarrow> chain_ok h prev sts \<longleftrightarrow> chain_ok h' prev sts"
  by (induction sts arbitrary: prev) (auto simp: stamp_chain_fnv [of _ h _ h'])

lemma audit_inv_register:
  "audit_inv b \<Longrightarrow> audit_hasher (hooks b) = None \<Longrightarrow> audit_inv (bus_register_audit_hooks h who b)"
  by (simp add: audit_inv_def ring_inv_def bus_register_audit_hooks_def register_audit_hooks_def
      active_hasher_def chain_ok_fnv [of _ h _ Fnv])

lemma st_algo_build: "st_algo (build_stamp s e t w p tp pl h) = algo_for h"
  by (simp add: build_stamp_def Let_def)

lemma audit_event_frame [simp]:
  "event_hub (audit_event free ev b) = event_hub b"
  "next_event_id (audit_event free ev b) = next_event_id b"
  "hooks (audit_event free ev b) = hooks b"
  "cloned_bytes (audit_event free ev b) = cloned_bytes b"
  "cloned_count (audit_event free ev b) = cloned_count b"
  by (simp_all add: audit_event_def Let_def)

lemma in_set_tl: "x \<in> set (tl xs) \<Longrightarrow> x \<in> set xs"
  by (cases xs) auto

lemma audit_inv_event: "audit_inv b \<Longrightarrow> audit_inv (audit_event free ev b)"
  unfolding audit_inv_def audit_event_def
  by (auto simp: Let_def ring_inv_push stamp_chain_build ring_push_entries st_algo_build active_hasher_def
      dest: in_set_tl split: if_splits)

lemma lock_bounded_none: "lock_bounded obs = None \<longleftrightarrow> (\<forall>i < LOCK_SPIN_BUDGET. is_locked (obs i))"
proof -
  have "lock_attempts n i obs = None \<longleftrightarrow> (\<forall>j < n. is_locked (obs (i + j)))" for n i
  proof (induction n arbitrary: i)
    case (Suc n)
    then show ?case
      using try_lock_iff_free [of "obs i"] by (auto simp: All_less_Suc2 split: option.splits)
  qed simp
  then show ?thesis by (simp add: lock_bounded_def)
qed

lemma publish_valid:
  assumes "is_valid (token ev)"
  shows "fst (publish env ev b) = Inr (if map_free env then fst (hub_publish (queue_free env)
           (queue_depth_for (topic ev)) (topic ev) (ev\<lparr>event_id := next_event_id b\<rparr>) (event_hub b)) else 0)"
    and "event_hub (snd (publish env ev b)) = (if map_free env then snd (hub_publish (queue_free env)
           (queue_depth_for (topic ev)) (topic ev) (ev\<lparr>event_id := next_event_id b\<rparr>) (event_hub b))
           else event_hub b)"
    and "next_event_id (snd (publish env ev b)) = next_event_id b + 1"
    and "hooks (snd (publish env ev b)) = hooks b"
    and "audit (snd (publish env ev b)) =
      audit (audit_event (audit_free env) (ev\<lparr>event_id := next_event_id b\<rparr>) (b\<lparr>next_event_id := next_event_id b + 1\<rparr>))"
  using assms by (simp_all add: publish_def Let_def split: prod.splits)

lemma publish_invalid: "\<not> is_valid (token ev) \<Longrightarrow> publish env ev b = (Inl ''token de capacidade invalido'', b)"
  by (simp add: publish_def)

lemma event_inv_publish: "event_inv b \<Longrightarrow> event_inv (snd (publish env ev b))"
proof (cases "is_valid (token ev)")
  case True
  assume inv: "event_inv b"
  let ?ev = "ev\<lparr>event_id := next_event_id b\<rparr>"
  have "audit_inv (audit_event (audit_free env) ?ev (b\<lparr>next_event_id := next_event_id b + 1\<rparr>))"
    using inv by (intro audit_inv_event) (simp add: event_inv_def audit_inv_def)
  then have "audit_inv (snd (publish env ev b))"
    by (simp add: audit_inv_def publish_valid [OF True])
  moreover have "event_ok (topic ev) ?ev" using True by (simp add: event_ok_def)
  ultimately show ?thesis
    using inv hub_inv_publish [of queue_depth_for event_ok "event_hub b" "topic ev"]
    by (simp add: event_inv_def publish_valid [OF True])
qed (simp add: publish_invalid)

lemma audit_inv_hub [simp]: "audit_inv (b\<lparr>event_hub := h\<rparr>) = audit_inv b"
  by (simp add: audit_inv_def)

lemma event_inv_step: "bus_step b b' \<Longrightarrow> event_inv b \<Longrightarrow> event_inv b'"
proof (induction rule: bus_step.induct)
  case (Register b h who)
  then show ?case
    using audit_inv_register [of b h who] by (simp add: event_inv_def bus_register_audit_hooks_def)
next
  case (Subscribe b t)
  then show ?case using hub_inv_subscribe [of _ _ "event_hub b" t]
    by (simp add: event_inv_def subscribe_def split_beta Let_def)
next
  case (Receive b free rx)
  then show ?case using hub_inv_receive [of _ _ "event_hub b" "rx_queue rx"]
    by (simp add: event_inv_def try_receive_def split_beta Let_def)
next
  case (Count b free t)
  then show ?case using hub_inv_count [of _ _ "event_hub b" t]
    by (simp add: event_inv_def subscriber_count_def split_beta Let_def)
qed (auto simp: event_inv_def unsubscribe_def drop_receiver_def hub_inv_unsubscribe hub_inv_drop
      intro: event_inv_publish [unfolded event_inv_def, THEN conjunct1]
        event_inv_publish [unfolded event_inv_def, THEN conjunct2])

lemma event_inv_init: "event_inv bus_init"
  by (simp add: event_inv_def bus_init_def hub_inv_new audit_inv_def active_hasher_def ring_inv_new)
     (simp add: ring_new_def)

lemma event_inv_reach: "bus_reach b \<Longrightarrow> event_inv b"
  by (induction rule: bus_reach.induct) (auto simp: event_inv_init intro: event_inv_step)

lemma audit_verify_ok: "audit_inv b \<Longrightarrow> audit_verify True b = Inr (of_nat (length (entries (audit b))))"
  by (simp add: audit_inv_def ring_inv_def audit_verify_def verify_stamps_def verify_loop_ok)

section \<open>What a subscriber gets\<close>








section \<open>Properties\<close>

text \<open>
  C3.  One publication, with any lock outcome on the subscriber queues: the
  result is the number of live subscribers of the topic whose queue could be locked; exactly
  those queues get the event, with the next id and as their newest entry, cut to the newest
  64 (8 for audio streams); every other queue is untouched; dead subscribers of
  the topic are unmapped and live ones stay.
\<close>

theorem publish_delivers:
  assumes "event_inv b" "is_valid (token ev)" "map_free env"
  shows "fst (publish env ev b) =
      Inr (card {q. listening (event_hub b) (topic ev) q \<and> live (event_hub b) q \<and> queue_free env q}) \<and>
    (\<forall>q. queues (event_hub (snd (publish env ev b))) q =
       (if listening (event_hub b) (topic ev) q \<and> live (event_hub b) q \<and> queue_free env q
        then lastn (queue_depth_for (topic ev))
               (queues (event_hub b) q @ [ev\<lparr>event_id := next_event_id b\<rparr>])
        else queues (event_hub b) q)) \<and>
    (\<forall>q. listening (event_hub (snd (publish env ev b))) (topic ev) q \<longleftrightarrow>
       listening (event_hub b) (topic ev) q \<and> live (event_hub b) q)"
proof -
  have inv: "hub_inv queue_depth_for event_ok (event_hub b)" using assms(1) by (simp add: event_inv_def)
  show ?thesis
    using assms(3)
    by (simp add: publish_valid [OF assms(2)] hub_publish_count [OF inv] hub_publish_queue [OF inv]
        hub_publish_listening [OF inv])
qed

definition sample_event :: "string \<Rightarrow> event" where
  "sample_event t = \<lparr>event_id = 0, topic = bstr t, payload = [1, 2, 3], token = Legacy 7\<rparr>"

text \<open>A bus with a live and a dropped subscriber of one topic.\<close>

definition sample_bus :: event_bus where
  "sample_bus = drop_receiver \<lparr>rx_topic = bstr ''BOOT'', rx_queue = 0\<rparr>
     (snd (subscribe (bstr ''BOOT'') (snd (subscribe (bstr ''BOOT'') bus_init))))"

lemma sample_bus_reach: "bus_reach sample_bus"
  unfolding sample_bus_def
  by (rule bus_reach.Step [OF bus_reach.Step [OF bus_reach.Step [OF bus_reach.Init Subscribe] Subscribe] DropRx])

lemma sample_bus_hub:
  "event_hub sample_bus = \<lparr>subscribers = [(bstr ''BOOT'', [0, 1])], queues = (\<lambda>_. []),
     live = (\<lambda>_. False)(0 := False, 1 := True), fresh = 2\<rparr>"
  by (simp add: sample_bus_def subscribe_def hub_subscribe_def drop_receiver_def hub_drop_def bus_init_def
      hub_new_def bt_get_def fun_eq_iff)

theorem publish_delivers_witness:
  "event_inv sample_bus \<and> fst (publish all_free (sample_event ''BOOT'') sample_bus) = Inr 1"
proof -
  have l: "listening (event_hub sample_bus) (bstr ''BOOT'') q \<longleftrightarrow> q = 0 \<or> q = 1" for q
    by (auto simp: listening_def sample_bus_hub bt_get_def)
  have "{q. (q = 0 \<or> q = 1) \<and> live (event_hub sample_bus) q} = {1}"
    by (auto simp: sample_bus_hub)
  with publish_delivers [of sample_bus "sample_event ''BOOT''" all_free] show ?thesis
    using event_inv_reach [OF sample_bus_reach] by (simp add: sample_event_def all_free_def l)
qed

text \<open>
  C5.  Whatever the clients do, in any interleaving and with any lock outcomes: every
  mapped queue stays within its depth and holds only validly signed events of its own
  topic, and the audit chain verifies in full, across the one registration of the kernel's hasher.
\<close>

theorem bus_reach_safe:
  assumes "bus_reach b"
  shows "(\<forall>t q. listening (event_hub b) t q \<longrightarrow>
       length (queues (event_hub b) q) \<le> queue_depth_for t \<and>
       list_all (\<lambda>e. topic e = t \<and> is_valid (token e)) (queues (event_hub b) q)) \<and>
     audit_verify True b = Inr (of_nat (length (entries (audit b))))"
proof -
  have inv: "hub_inv queue_depth_for event_ok (event_hub b)" "audit_inv b"
    using event_inv_reach [OF assms] by (simp_all add: event_inv_def)
  show ?thesis
    using hub_invD(6,7) [OF inv(1)] audit_verify_ok [OF inv(2)] by (simp add: event_ok_def [abs_def])
qed

theorem bus_reach_safe_witness:
  "audit_verify True sample_bus = Inr (of_nat (length (entries (audit sample_bus))))"
  using bus_reach_safe [OF sample_bus_reach] by blast



end
