(* ===== verification/LatentBus.thy ===== *)
theory LatentBus
  imports Hub
begin

text \<open>
  \<^verbatim>\<open>crates/event-bus/src/latent.rs\<close>: the bus for hidden-state vectors.  Its locks are the
  blocking \<^verbatim>\<open>lock()\<close>, so no operation gives up; it counts publications and actual receives.
\<close>

section \<open>The bus\<close>

definition LATENT_DIM :: nat where "LATENT_DIM = 256"
definition TOPIC_THOUGHT_LLM :: bytes where "TOPIC_THOUGHT_LLM = bstr ''THOUGHT_LLM''"
definition LATENT_QUEUE_DEPTH :: nat where "LATENT_QUEUE_DEPTH = 16"

record latent_packet =
  lp_id :: u64
  lp_topic :: bytes
  lp_vec :: "u16 list"
  lp_token :: capability_token
  lp_norm_bits :: u32

record latent_receiver =
  lrx_topic :: bytes
  lrx_queue :: nat

record latent_bus =
  latent_hub :: "latent_packet hub"
  latent_next_id :: u64
  publish_count :: u64
  recv_count :: u64

definition latent_new :: latent_bus where
  "latent_new = \<lparr>latent_hub = hub_new, latent_next_id = 1, publish_count = 0, recv_count = 0\<rparr>"

definition latent_subscribe :: "bytes \<Rightarrow> latent_bus \<Rightarrow> latent_receiver \<times> latent_bus" where
  "latent_subscribe t b =
     (let (q, h) = hub_subscribe t (latent_hub b)
      in (\<lparr>lrx_topic = t, lrx_queue = q\<rparr>, b\<lparr>latent_hub := h\<rparr>))"

definition latent_unsubscribe :: "latent_receiver \<Rightarrow> latent_bus \<Rightarrow> latent_bus" where
  "latent_unsubscribe rx b = b\<lparr>latent_hub := hub_unsubscribe (lrx_topic rx) (lrx_queue rx) (latent_hub b)\<rparr>"

definition latent_publish :: "latent_packet \<Rightarrow> latent_bus \<Rightarrow> nat res \<times> latent_bus" where
  "latent_publish packet b =
     (if \<not> is_valid (lp_token packet) then (Inl ''token de capacidade invalido'', b)
      else
        (let p = packet\<lparr>lp_id := latent_next_id b\<rparr>;
             b1 = b\<lparr>latent_next_id := latent_next_id b + 1, publish_count := publish_count b + 1\<rparr>;
             (delivered, h) = hub_publish (\<lambda>_. True) LATENT_QUEUE_DEPTH (lp_topic p) p (latent_hub b1)
         in (Inr delivered, b1\<lparr>latent_hub := h\<rparr>)))"

definition latent_try_receive :: "latent_receiver \<Rightarrow> latent_bus \<Rightarrow> latent_packet option \<times> latent_bus" where
  "latent_try_receive rx b =
     (case hub_receive (lrx_queue rx) (latent_hub b) of
        (None, h) \<Rightarrow> (None, b\<lparr>latent_hub := h\<rparr>)
      | (Some p, h) \<Rightarrow> (Some p, b\<lparr>latent_hub := h, recv_count := recv_count b + 1\<rparr>))"

definition latent_has_pending :: "latent_receiver \<Rightarrow> latent_bus \<Rightarrow> bool" where
  "latent_has_pending rx b \<longleftrightarrow> queues (latent_hub b) (lrx_queue rx) \<noteq> []"

definition latent_stats :: "latent_bus \<Rightarrow> u64 \<times> u64" where
  "latent_stats b = (publish_count b, recv_count b)"

definition latent_drop :: "latent_receiver \<Rightarrow> latent_bus \<Rightarrow> latent_bus" where
  "latent_drop rx b = b\<lparr>latent_hub := hub_drop (lrx_queue rx) (latent_hub b)\<rparr>"

section \<open>Sequences of operations\<close>

datatype latent_op =
    LSubscribe bytes | LUnsubscribe latent_receiver | LPublish latent_packet
  | LReceive latent_receiver | LDrop latent_receiver

datatype latent_out = Quiet | Published nat | Refused string | Received latent_packet | Empty

fun latent_exec :: "latent_op \<Rightarrow> latent_bus \<Rightarrow> latent_out \<times> latent_bus" where
  "latent_exec (LSubscribe t) b = (Quiet, snd (latent_subscribe t b))"
| "latent_exec (LUnsubscribe rx) b = (Quiet, latent_unsubscribe rx b)"
| "latent_exec (LPublish p) b =
     (case latent_publish p b of (Inl e, b') \<Rightarrow> (Refused e, b') | (Inr n, b') \<Rightarrow> (Published n, b'))"
| "latent_exec (LReceive rx) b =
     (case latent_try_receive rx b of (None, b') \<Rightarrow> (Empty, b') | (Some p, b') \<Rightarrow> (Received p, b'))"
| "latent_exec (LDrop rx) b = (Quiet, latent_drop rx b)"

fun latent_run :: "latent_op list \<Rightarrow> latent_bus \<Rightarrow> latent_out list \<times> latent_bus" where
  "latent_run [] b = ([], b)"
| "latent_run (p # ps) b =
     (let (out, b1) = latent_exec p b; (outs, b2) = latent_run ps b1 in (out # outs, b2))"

fun is_published :: "latent_out \<Rightarrow> bool" where
  "is_published (Published n) = True"
| "is_published out = False"

fun is_received :: "latent_out \<Rightarrow> bool" where
  "is_received (Received p) = True"
| "is_received out = False"

section \<open>Invariant\<close>

definition packet_ok :: "bytes \<Rightarrow> latent_packet \<Rightarrow> bool" where
  "packet_ok t p \<longleftrightarrow> lp_topic p = t \<and> is_valid (lp_token p)"

definition latent_inv :: "latent_bus \<Rightarrow> bool" where
  "latent_inv b \<longleftrightarrow> hub_inv (\<lambda>_. LATENT_QUEUE_DEPTH) packet_ok (latent_hub b)"

lemma latent_depth_pos [simp]: "0 < LATENT_QUEUE_DEPTH"
  by (simp add: LATENT_QUEUE_DEPTH_def)

lemma latent_publish_valid:
  assumes "is_valid (lp_token p)"
  shows "latent_publish p b =
    (Inr (fst (hub_publish (\<lambda>_. True) LATENT_QUEUE_DEPTH (lp_topic p) (p\<lparr>lp_id := latent_next_id b\<rparr>) (latent_hub b))),
     b\<lparr>latent_hub := snd (hub_publish (\<lambda>_. True) LATENT_QUEUE_DEPTH (lp_topic p)
           (p\<lparr>lp_id := latent_next_id b\<rparr>) (latent_hub b)),
       latent_next_id := latent_next_id b + 1, publish_count := publish_count b + 1\<rparr>)"
  using assms by (simp add: latent_publish_def Let_def split: prod.splits)

lemma latent_inv_publish: "latent_inv b \<Longrightarrow> latent_inv (snd (latent_publish p b))"
proof (cases "is_valid (lp_token p)")
  case True
  assume "latent_inv b"
  moreover have "packet_ok (lp_topic p) (p\<lparr>lp_id := latent_next_id b\<rparr>)" using True by (simp add: packet_ok_def)
  ultimately show ?thesis
    using hub_inv_publish [of "\<lambda>_. LATENT_QUEUE_DEPTH" packet_ok "latent_hub b" "lp_topic p"]
    by (simp add: latent_publish_valid [OF True] latent_inv_def)
qed (simp add: latent_publish_def)

lemma latent_inv_exec: "latent_inv b \<Longrightarrow> latent_inv (snd (latent_exec p b))"
proof (cases p)
  case (LPublish k)
  assume "latent_inv b"
  from latent_inv_publish [OF this, of k] show ?thesis
    by (cases "latent_publish k b") (auto simp: LPublish split: sum.splits)
next
  case (LReceive rx)
  assume "latent_inv b"
  then have "latent_inv (b\<lparr>latent_hub := snd (hub_receive (lrx_queue rx) (latent_hub b))\<rparr>)"
    by (simp add: latent_inv_def hub_inv_receive)
  then show ?thesis
    by (cases "hub_receive (lrx_queue rx) (latent_hub b)")
       (auto simp: LReceive latent_try_receive_def latent_inv_def split: option.splits)
qed (auto simp: latent_inv_def latent_subscribe_def latent_unsubscribe_def latent_drop_def split_beta
      Let_def hub_inv_subscribe hub_inv_unsubscribe hub_inv_drop)

section \<open>What a subscriber gets\<close>

definition latent_subscribed :: "latent_receiver \<Rightarrow> latent_bus \<Rightarrow> bool" where
  "latent_subscribed rx b \<longleftrightarrow> listening (latent_hub b) (lrx_topic rx) (lrx_queue rx) \<and>
     live (latent_hub b) (lrx_queue rx)"

definition latent_inbox :: "latent_receiver \<Rightarrow> latent_bus \<Rightarrow> latent_packet list" where
  "latent_inbox rx b = queues (latent_hub b) (lrx_queue rx)"

lemma latent_inbox_publish:
  assumes inv: "latent_inv b" and rx: "latent_subscribed rx b"
  shows "latent_inbox rx (snd (latent_publish p b)) =
    (if lp_topic p = lrx_topic rx \<and> is_valid (lp_token p)
     then lastn LATENT_QUEUE_DEPTH (latent_inbox rx b @ [p\<lparr>lp_id := latent_next_id b\<rparr>])
     else latent_inbox rx b)"
proof (cases "is_valid (lp_token p)")
  case True
  note hinv = inv [unfolded latent_inv_def]
  show ?thesis
    using True rx hub_publish_queue [OF hinv] hub_invD(4) [OF hinv]
    by (auto simp: latent_inbox_def latent_publish_valid [OF True] latent_subscribed_def)
qed (simp add: latent_publish_def)

lemma latent_subscribed_publish:
  assumes inv: "latent_inv b" and rx: "latent_subscribed rx b"
  shows "latent_subscribed rx (snd (latent_publish p b))"
proof (cases "is_valid (lp_token p)")
  case True
  then show ?thesis
    using rx hub_publish_listening [OF inv [unfolded latent_inv_def]]
    by (simp add: latent_subscribed_def latent_publish_valid [OF True])
qed (use rx in \<open>simp add: latent_publish_def\<close>)

interpretation thought: drop_oldest
  "\<lambda>p (b :: latent_bus). snd (latent_publish p b)" "\<lambda>b. map lp_vec (latent_inbox rx b)"
  "\<lambda>p. lp_topic p = lrx_topic rx \<and> is_valid (lp_token p)" lp_vec
  LATENT_QUEUE_DEPTH "\<lambda>b. latent_inv b \<and> latent_subscribed rx b" for rx :: latent_receiver
proof (unfold_locales, goal_cases)
  case 1
  show ?case by simp
next
  case (2 s e)
  then show ?case by (simp add: latent_inbox_publish map_lastn)
next
  case (3 s e)
  then show ?case by (simp add: latent_inv_publish latent_subscribed_publish)
next
  case (4 s)
  then show ?case
    using hub_invD(6) [of "\<lambda>_. LATENT_QUEUE_DEPTH" packet_ok "latent_hub s" "lrx_topic rx" "lrx_queue rx"]
    by (simp add: latent_inv_def latent_subscribed_def latent_inbox_def)
qed

lemma latent_exec_counts:
  assumes "latent_exec p b = (out, b')"
  shows "publish_count b' = publish_count b + (if is_published out then 1 else 0) \<and>
     recv_count b' = recv_count b + (if is_received out then 1 else 0)"
proof (cases p)
  case (LPublish k)
  with assms show ?thesis
    by (cases "is_valid (lp_token k)") (auto simp: latent_publish_valid, auto simp: latent_publish_def)
next
  case (LReceive rx)
  with assms show ?thesis
    by (auto simp: latent_try_receive_def split: prod.splits option.splits)
qed (use assms in \<open>auto simp: latent_subscribe_def latent_unsubscribe_def latent_drop_def split_beta Let_def\<close>)

section \<open>Properties\<close>

text \<open>
  C20.  The statistics are honest in every run: \<^verbatim>\<open>publish_count\<close> grows by the number of accepted
  publications, \<^verbatim>\<open>recv_count\<close> by the number of packets handed to a receiver (never by
  fan-out), modulo \<open>2^64\<close>.
\<close>

theorem latent_stats_honest:
  "latent_stats (snd (latent_run ops b)) =
     (publish_count b + of_nat (length (filter is_published (fst (latent_run ops b)))),
      recv_count b + of_nat (length (filter is_received (fst (latent_run ops b)))))"
proof (induction ops arbitrary: b)
  case Nil
  then show ?case by (simp add: latent_stats_def)
next
  case (Cons p ps)
  obtain out b1 where e: "latent_exec p b = (out, b1)" by fastforce
  from latent_exec_counts [OF e] Cons [of b1] show ?case
    by (simp add: e split_beta Let_def add.assoc)
qed

text \<open>
  C19.  A latent subscriber that does not read holds the newest 16 vectors
  published under a valid token on its topic, in order.
\<close>

theorem latent_keeps_newest:
  assumes "latent_inv b" "latent_subscribed rx b"
  shows "map lp_vec (latent_inbox rx (foldl (\<lambda>b p. snd (latent_publish p b)) b ps)) =
    lastn LATENT_QUEUE_DEPTH
      (map lp_vec (latent_inbox rx b) @
       map lp_vec (filter (\<lambda>p. lp_topic p = lrx_topic rx \<and> is_valid (lp_token p)) ps))"
  using thought.deliver_run [of b rx ps] assms by simp

definition sample_packet :: "u16 \<Rightarrow> latent_packet" where
  "sample_packet v = \<lparr>lp_id = 0, lp_topic = TOPIC_THOUGHT_LLM, lp_vec = replicate LATENT_DIM v,
     lp_token = Legacy 1, lp_norm_bits = 0\<rparr>"

theorem latent_keeps_newest_witness:
  "map lp_vec (latent_inbox \<lparr>lrx_topic = TOPIC_THOUGHT_LLM, lrx_queue = 0\<rparr>
     (foldl (\<lambda>b p. snd (latent_publish p b)) (snd (latent_subscribe TOPIC_THOUGHT_LLM latent_new))
        (map (\<lambda>n. sample_packet (of_nat n)) [0..<18]))) =
   map (\<lambda>n. replicate LATENT_DIM (of_nat n)) [2..<18]"
proof -
  let ?b = "snd (latent_subscribe TOPIC_THOUGHT_LLM latent_new)"
  let ?rx = "\<lparr>lrx_topic = TOPIC_THOUGHT_LLM, lrx_queue = 0\<rparr>"
  have inv: "latent_inv ?b"
    by (simp add: latent_inv_def latent_subscribe_def latent_new_def split_beta Let_def hub_inv_subscribe
        hub_inv_new)
  have rx: "latent_subscribed ?rx ?b" "latent_inbox ?rx ?b = []"
    by (simp_all add: latent_subscribed_def latent_inbox_def listening_def latent_subscribe_def
        latent_new_def hub_subscribe_def hub_new_def bt_get_def)
  have "map lp_vec (filter (\<lambda>p. lp_topic p = TOPIC_THOUGHT_LLM \<and> is_valid (lp_token p))
      (map (\<lambda>n. sample_packet (of_nat n)) [0..<18])) = map (\<lambda>n. replicate LATENT_DIM (of_nat n)) [0..<18]"
    by (simp add: filter_map o_def sample_packet_def)
  then show ?thesis
    using latent_keeps_newest [OF inv rx(1), of "map (\<lambda>n. sample_packet (of_nat n)) [0..<18]"] rx(2)
    by (simp add: lastn_def LATENT_QUEUE_DEPTH_def drop_map numeral_2_eq_2 del: upt_rec_numeral)
qed

end
