(* ===== verification/Budget.thy ===== *)
theory Budget
  imports BTreeMap
begin

text \<open>
  \<^verbatim>\<open>crates/agent-core/src/budget.rs\<close> and \<^verbatim>\<open>hooks.rs\<close>: the per-agent watchdog state machine
  (Normal, Warning, Paused, Crashed) driven by wall-clock overruns, the manager
  that keeps one budget per agent name, and the registry of tick hooks.  A hook
  callback is code of the kernel: a function of the agent's name, the tick and
  the world \<open>'w\<close> it may change.
\<close>

section \<open>Agent budgets\<close>

datatype agent_watchdog_state = Normal | Warning | Paused | WdCrashed

record agent_budget =
  ticks_used :: u64
  tick_budget :: u64
  overruns :: u64
  watchdog :: agent_watchdog_state
  agent_name :: bytes

definition budget_new :: "bytes \<Rightarrow> u64 \<Rightarrow> agent_budget" where
  "budget_new name budget =
     \<lparr>ticks_used = 0, tick_budget = budget, overruns = 0, watchdog = Normal, agent_name = name\<rparr>"

definition allow_poll :: "agent_budget \<Rightarrow> bool \<times> agent_budget" where
  "allow_poll b =
     (case watchdog b of
        Paused \<Rightarrow> (False, b)
      | WdCrashed \<Rightarrow> (False, b)
      | _ \<Rightarrow> (True, b\<lparr>ticks_used := sat_add (ticks_used b) 1\<rparr>))"

definition note_wall_overrun :: "agent_budget \<Rightarrow> agent_budget" where
  "note_wall_overrun b =
     (if watchdog b = WdCrashed then b
      else
        (let b1 = b\<lparr>overruns := sat_add (overruns b) 1\<rparr>
         in if overruns b1 > 3 then b1\<lparr>watchdog := Paused\<rparr> else b1\<lparr>watchdog := Warning\<rparr>))"

definition consume :: "u64 \<Rightarrow> agent_budget \<Rightarrow> bool \<times> agent_budget" where
  "consume ticks b =
     (watchdog b \<noteq> Paused \<and> watchdog b \<noteq> WdCrashed,
      b\<lparr>ticks_used := sat_add (ticks_used b) ticks\<rparr>)"

definition budget_reset :: "agent_budget \<Rightarrow> agent_budget" where
  "budget_reset b =
     (let b1 = b\<lparr>ticks_used := 0\<rparr>
      in if watchdog b1 = Warning then b1\<lparr>watchdog := Normal\<rparr> else b1)"

definition budget_recover :: "agent_budget \<Rightarrow> agent_budget" where
  "budget_recover b = b\<lparr>ticks_used := 0, overruns := 0, watchdog := Normal\<rparr>"

section \<open>The manager\<close>

record budget_manager =
  budgets :: "(bytes, agent_budget) btree"
  default_budget :: u64

definition manager_new :: budget_manager where
  "manager_new = \<lparr>budgets = [], default_budget = 100\<rparr>"

definition bm_register :: "bytes \<Rightarrow> u64 option \<Rightarrow> budget_manager \<Rightarrow> budget_manager" where
  "bm_register name budget m =
     m\<lparr>budgets := bt_insert name
         (budget_new name (case budget of None \<Rightarrow> default_budget m | Some b \<Rightarrow> b)) (budgets m)\<rparr>"

definition bm_consume :: "bytes \<Rightarrow> u64 \<Rightarrow> budget_manager \<Rightarrow> bool \<times> budget_manager" where
  "bm_consume name ticks m =
     (case bt_get (budgets m) name of
        None \<Rightarrow> (True, m)
      | Some b \<Rightarrow> (let (ok, b') = consume ticks b in (ok, m\<lparr>budgets := bt_insert name b' (budgets m)\<rparr>)))"

definition bm_allow_poll :: "bytes \<Rightarrow> budget_manager \<Rightarrow> bool \<times> budget_manager" where
  "bm_allow_poll name m =
     (case bt_get (budgets m) name of
        None \<Rightarrow> (True, m)
      | Some b \<Rightarrow> (let (ok, b') = allow_poll b in (ok, m\<lparr>budgets := bt_insert name b' (budgets m)\<rparr>)))"

definition bm_note_wall_overrun :: "bytes \<Rightarrow> budget_manager \<Rightarrow> budget_manager" where
  "bm_note_wall_overrun name m =
     (case bt_get (budgets m) name of
        None \<Rightarrow> m
      | Some b \<Rightarrow> m\<lparr>budgets := bt_insert name (note_wall_overrun b) (budgets m)\<rparr>)"

definition reset_all :: "budget_manager \<Rightarrow> budget_manager" where
  "reset_all m = m\<lparr>budgets := map (\<lambda>(k, b). (k, budget_reset b)) (budgets m)\<rparr>"

definition bm_status :: "budget_manager \<Rightarrow> agent_budget list" where
  "bm_status m = map snd (budgets m)"

definition get_state :: "bytes \<Rightarrow> budget_manager \<Rightarrow> agent_watchdog_state option" where
  "get_state name m = map_option watchdog (bt_get (budgets m) name)"

definition bm_recover :: "bytes \<Rightarrow> budget_manager \<Rightarrow> budget_manager" where
  "bm_recover name m =
     (case bt_get (budgets m) name of
        None \<Rightarrow> m
      | Some b \<Rightarrow> m\<lparr>budgets := bt_insert name (budget_recover b) (budgets m)\<rparr>)"

definition bm_stats :: "budget_manager \<Rightarrow> (bytes \<times> u64 \<times> agent_watchdog_state) list" where
  "bm_stats m = map (\<lambda>(k, b). (agent_name b, ticks_used b, watchdog b)) (budgets m)"

section \<open>Hooks\<close>

datatype hook_result = Allow | Block | Modify

datatype hook_type = PreTick | PostTick | OnCrash | OnSpawn

record 'w hook =
  hook_type :: hook_type
  hook_name :: bytes
  callback :: "bytes \<Rightarrow> u64 \<Rightarrow> 'w \<Rightarrow> hook_result \<times> 'w"

type_synonym 'w hook_registry = "'w hook list"

definition hooks_register :: "'w hook \<Rightarrow> 'w hook_registry \<Rightarrow> 'w hook_registry" where
  "hooks_register h hs = hs @ [h]"

fun hooks_run :: "hook_type \<Rightarrow> bytes \<Rightarrow> u64 \<Rightarrow> 'w hook_registry \<Rightarrow> 'w \<Rightarrow> (bytes \<times> hook_result) list \<times> 'w" where
  "hooks_run ty name tick [] w = ([], w)"
| "hooks_run ty name tick (h # hs) w =
     (if hook_type h = ty then
        (let (r, w1) = callback h name tick w
         in if r = Block then ([(hook_name h, r)], w1)
            else (let (rs, w2) = hooks_run ty name tick hs w1 in ((hook_name h, r) # rs, w2)))
      else hooks_run ty name tick hs w)"

fun hooks_check :: "hook_type \<Rightarrow> bytes \<Rightarrow> u64 \<Rightarrow> 'w hook_registry \<Rightarrow> 'w \<Rightarrow> bool \<times> 'w" where
  "hooks_check ty name tick [] w = (True, w)"
| "hooks_check ty name tick (h # hs) w =
     (if hook_type h = ty then
        (let (r, w1) = callback h name tick w
         in if r = Block then (False, w1) else hooks_check ty name tick hs w1)
      else hooks_check ty name tick hs w)"

definition hook_count :: "'w hook_registry \<Rightarrow> nat" where
  "hook_count hs = length hs"

section \<open>Lemmas\<close>

definition budget_inv :: "agent_budget \<Rightarrow> bool" where
  "budget_inv b \<longleftrightarrow> (overruns b > 3 \<longrightarrow> watchdog b = Paused) \<and> watchdog b \<noteq> WdCrashed \<and>
     (watchdog b = Warning \<longrightarrow> overruns b \<noteq> 0)"

definition manager_inv :: "budget_manager \<Rightarrow> bool" where
  "manager_inv m \<longleftrightarrow> bt_wf (budgets m) \<and> (\<forall>k b. bt_get (budgets m) k = Some b \<longrightarrow> budget_inv b \<and> agent_name b = k)"

lemma bm_get_reset: "bt_get (map (\<lambda>(k, b). (k, f b)) m) k = map_option f (bt_get m k)"
  by (induction m) (auto simp: bt_get_def)

lemma bt_wf_map: "bt_wf (map (\<lambda>(k, b). (k, f b)) m) \<longleftrightarrow> bt_wf m"
  by (simp add: bt_wf_def o_def split_beta)

lemma get_state_reset:
  "get_state nm (reset_all m) = map_option (\<lambda>w. if w = Warning then Normal else w) (get_state nm m)"
  by (cases "bt_get (budgets m) nm") (auto simp: get_state_def reset_all_def bm_get_reset budget_reset_def Let_def)

lemma overrun_nonzero: "sat_add x (1 :: u64) \<noteq> 0"
proof -
  have "unat (sat_add x 1) \<noteq> 0" by (simp add: unat_sat_add)
  then show ?thesis by auto
qed

text \<open>\<^verbatim>\<open>run\<close> and \<^verbatim>\<open>check\<close> walk the same chain: the check passes exactly if no result blocks.\<close>

lemma hooks_check_run:
  "hooks_check ty name tick hs w =
     ((\<forall>p \<in> set (fst (hooks_run ty name tick hs w)). snd p \<noteq> Block), snd (hooks_run ty name tick hs w))"
  by (induction hs arbitrary: w) (auto simp: Let_def split: prod.splits)

end
