(* ===== verification/Agents.thy ===== *)
theory Agents
  imports Budget "HOL-Library.Multiset"
begin

text \<open>
  The data of \<^verbatim>\<open>crates/agent-core/src/lib.rs\<close>: agents, their instances and the registry,
  and the registry operations outside the scheduler loop.

  An agent (\<^verbatim>\<open>Box<dyn Agent>\<close>) is code of other crates.  Its private state is the type
  \<open>'a\<close>, everything else it can touch (the buses, devices, the clock) is the world \<open>'w\<close>;
  its methods are the fields of the parameter \<open>agent_ops\<close>.
\<close>

section \<open>Agents\<close>

datatype agent_tier = Permanent | User

fun tier_priority :: "agent_tier \<Rightarrow> u8" where
  "tier_priority Permanent = 0"
| "tier_priority User = 1"

datatype agent_kind = System | Driver | Inference | Router | Console | Network | Skill

datatype schedule_kind = Oneshot | Continuous | PollEvery u64 | EventDriven

datatype flow_trigger = Schedule schedule_kind | Start | Listen bytes | Route bytes

text \<open>The subtraction \<^verbatim>\<open>tick - last_poll\<close> is the wrapping one of a release build.\<close>

fun should_poll_flow :: "flow_trigger \<Rightarrow> u64 \<Rightarrow> u64 \<Rightarrow> bool \<Rightarrow> bool" where
  "should_poll_flow (Schedule Continuous) tick last_poll has_event = True"
| "should_poll_flow (Schedule (PollEvery n)) tick last_poll has_event =
     (last_poll = 0 \<or> tick - last_poll \<ge> n)"
| "should_poll_flow (Schedule Oneshot) tick last_poll has_event = True"
| "should_poll_flow (Schedule EventDriven) tick last_poll has_event = has_event"
| "should_poll_flow Start tick last_poll has_event = (last_poll = 0)"
| "should_poll_flow (Listen t) tick last_poll has_event = has_event"
| "should_poll_flow (Route t) tick last_poll has_event = has_event"

definition watchdog_should_crash :: "u8 \<Rightarrow> u64 \<Rightarrow> bool" where
  "watchdog_should_crash urgency consecutive \<longleftrightarrow> urgency = 0 \<and> consecutive > 10000"

definition event_driven_has_event :: "u64 \<Rightarrow> bool \<Rightarrow> bool" where
  "event_driven_has_event last_poll has_pending \<longleftrightarrow> last_poll = 0 \<or> has_pending"

record agent_manifest =
  mf_name :: bytes
  mf_kind :: agent_kind
  mf_schedule :: schedule_kind
  mf_auto_start :: bool
  mf_persist :: bool

datatype agent_tick_result = TickPending | TickDone | TickCrashed

datatype agent_state = Inactive | Active | Done | Crashed

record ('a, 'w) agent_ops =
  ag_manifest :: "'a \<Rightarrow> agent_manifest"
  ag_tick :: "'a \<Rightarrow> u64 \<Rightarrow> u64 \<Rightarrow> 'w \<Rightarrow> agent_tick_result \<times> 'a \<times> 'w"
  ag_on_activate :: "'a \<Rightarrow> 'w \<Rightarrow> 'a \<times> 'w"
  ag_has_pending :: "'a \<Rightarrow> 'w \<Rightarrow> bool"

record crew_manifest =
  cm_role :: bytes
  cm_goal :: bytes
  cm_backstory :: bytes
  cm_flow :: flow_trigger
  cm_crew_id :: "u16 option"

definition crew_manifest_empty :: crew_manifest where
  "crew_manifest_empty = \<lparr>cm_role = [], cm_goal = [], cm_backstory = [],
     cm_flow = Schedule Continuous, cm_crew_id = None\<rparr>"

record 'a agent_instance =
  agent :: 'a
  state :: agent_state
  last_poll :: u64
  tick_counter :: u64
  name :: bytes
  auto_start :: bool
  schedule :: schedule_kind
  consecutive_pending :: u64
  crew :: crew_manifest
  tier :: agent_tier
  affinity_ring :: u8
  goal_urgency :: u8
  novelty_score :: u8
  coherence_partner :: "nat option"
  paused_ticks :: u64
  lifetime_paused_polls :: u64
  bench_waiting_us :: u64
  bench_turnaround_us :: u64
  bench_ticks :: u64
  bench_tick_start_ms :: u64
  bench_last_end_ms :: u64

fun default_ring :: "schedule_kind \<Rightarrow> u8" where
  "default_ring Continuous = 0"
| "default_ring Oneshot = 0"
| "default_ring (PollEvery n) = 1"
| "default_ring EventDriven = 2"

definition default_urgency :: "schedule_kind \<Rightarrow> u8" where
  "default_urgency sched = (if sched = Continuous then 100 else 0)"

definition instance_new :: "('a, 'w, 'z) agent_ops_scheme \<Rightarrow> 'a \<Rightarrow> 'a agent_instance" where
  "instance_new p ag =
     (let mf = ag_manifest p ag; sched = mf_schedule mf
      in \<lparr>agent = ag, state = Inactive, last_poll = 0, tick_counter = 0, name = mf_name mf,
          auto_start = mf_auto_start mf, schedule = sched, consecutive_pending = 0,
          crew = \<lparr>cm_role = [], cm_goal = [], cm_backstory = [], cm_flow = Schedule sched,
                  cm_crew_id = None\<rparr>,
          tier = Permanent, affinity_ring = default_ring sched,
          goal_urgency = default_urgency sched, novelty_score = 0, coherence_partner = None,
          paused_ticks = 0, lifetime_paused_polls = 0, bench_waiting_us = 0,
          bench_turnaround_us = 0, bench_ticks = 0, bench_tick_start_ms = 0,
          bench_last_end_ms = 0\<rparr>)"

section \<open>The registry\<close>

text \<open>
  The registry and the crate's statics, next to the world.  A \<^verbatim>\<open>&'static str\<close> kept as a
  pointer and a length is the name itself, 0 is \<open>None\<close>.
\<close>

record ('a, 'w) sched =
  agents :: "'a agent_instance list"
  bmgr :: budget_manager
  reg_hooks :: "'w hook_registry"
  tick_entered_ms :: u64
  cur_agent :: "bytes option"
  last_agent :: "bytes option"
  last_stamped :: "bytes option"
  last_sched_agents :: nat
  last_sched_polled :: u32
  world :: 'w

definition registry_new :: "'w \<Rightarrow> ('a, 'w) sched" where
  "registry_new w = \<lparr>agents = [], bmgr = manager_new, reg_hooks = [], tick_entered_ms = 0, cur_agent = None,
     last_agent = None, last_stamped = None, last_sched_agents = 0, last_sched_polled = 0, world = w\<rparr>"

definition upd_agent :: "nat \<Rightarrow> ('a agent_instance \<Rightarrow> 'a agent_instance) \<Rightarrow> ('a, 'w) sched \<Rightarrow> ('a, 'w) sched" where
  "upd_agent i f s = s\<lparr>agents := (agents s)[i := f (agents s ! i)]\<rparr>"

definition reg_register :: "('a, 'w, 'z) agent_ops_scheme \<Rightarrow> 'a \<Rightarrow> ('a, 'w) sched \<Rightarrow> nat \<times> ('a, 'w) sched" where
  "reg_register p ag s =
     (length (agents s),
      s\<lparr>agents := agents s @ [instance_new p ag],
        bmgr := bm_register (mf_name (ag_manifest p ag)) None (bmgr s)\<rparr>)"

fun apply_priority_hints :: "(bytes \<times> u8) list \<Rightarrow> ('a, 'w) sched \<Rightarrow> ('a, 'w) sched" where
  "apply_priority_hints [] s = s"
| "apply_priority_hints ((nm, urgency) # hints) s =
     apply_priority_hints hints
       (s\<lparr>agents := map (\<lambda>a. if name a = nm then a\<lparr>goal_urgency := urgency\<rparr> else a) (agents s)\<rparr>)"

definition activate_agent :: "('a, 'w, 'z) agent_ops_scheme \<Rightarrow> nat \<Rightarrow> ('a, 'w) sched \<Rightarrow> ('a, 'w) sched" where
  "activate_agent p i s =
     (let (ag, w) = ag_on_activate p (agent (agents s ! i)) (world s)
      in upd_agent i (\<lambda>a. a\<lparr>state := Active, agent := ag\<rparr>) s\<lparr>world := w\<rparr>)"

definition activate :: "('a, 'w, 'z) agent_ops_scheme \<Rightarrow> nat \<Rightarrow> ('a, 'w) sched \<Rightarrow> ('a, 'w) sched" where
  "activate p i s = (if i < length (agents s) then activate_agent p i s else s)"

definition register_hook :: "'w hook \<Rightarrow> ('a, 'w) sched \<Rightarrow> ('a, 'w) sched" where
  "register_hook h s = s\<lparr>reg_hooks := hooks_register h (reg_hooks s)\<rparr>"

definition set_budget :: "bytes \<Rightarrow> u64 \<Rightarrow> ('a, 'w) sched \<Rightarrow> ('a, 'w) sched" where
  "set_budget nm max_ticks s = s\<lparr>bmgr := bm_register nm (Some max_ticks) (bmgr s)\<rparr>"

text \<open>\<^verbatim>\<open>position\<close>, and \<^verbatim>\<open>get\<close>/\<^verbatim>\<open>get_mut\<close> by name: the first instance with the name.\<close>

fun position :: "('x \<Rightarrow> bool) \<Rightarrow> 'x list \<Rightarrow> nat option" where
  "position P [] = None"
| "position P (x # xs) = (if P x then Some 0 else map_option Suc (position P xs))"

definition reg_get :: "bytes \<Rightarrow> ('a, 'w) sched \<Rightarrow> 'a agent_instance option" where
  "reg_get nm s = find (\<lambda>a. name a = nm) (agents s)"

definition get_mut_by_name ::
  "bytes \<Rightarrow> ('a agent_instance \<Rightarrow> 'a agent_instance) \<Rightarrow> ('a, 'w) sched \<Rightarrow> bool \<times> ('a, 'w) sched" where
  "get_mut_by_name nm f s =
     (case position (\<lambda>a. name a = nm) (agents s) of
        None \<Rightarrow> (False, s)
      | Some i \<Rightarrow> (True, upd_agent i f s))"

definition set_affinity_ring :: "bytes \<Rightarrow> u8 \<Rightarrow> ('a, 'w) sched \<Rightarrow> bool \<times> ('a, 'w) sched" where
  "set_affinity_ring nm ring = get_mut_by_name nm (\<lambda>a. a\<lparr>affinity_ring := ring\<rparr>)"

definition set_urgency :: "bytes \<Rightarrow> u8 \<Rightarrow> ('a, 'w) sched \<Rightarrow> bool \<times> ('a, 'w) sched" where
  "set_urgency nm urgency = get_mut_by_name nm (\<lambda>a. a\<lparr>goal_urgency := urgency\<rparr>)"

definition boost_novelty :: "bytes \<Rightarrow> u8 \<Rightarrow> ('a, 'w) sched \<Rightarrow> bool \<times> ('a, 'w) sched" where
  "boost_novelty nm amount =
     get_mut_by_name nm (\<lambda>a. a\<lparr>novelty_score := sat_add (novelty_score a) amount\<rparr>)"

definition active_count :: "('a, 'w) sched \<Rightarrow> nat" where
  "active_count s = length (filter (\<lambda>a. state a = Active) (agents s))"

definition bench_snapshot :: "('a, 'w) sched \<Rightarrow> (bytes \<times> u64 \<times> u64 \<times> u64) list" where
  "bench_snapshot s =
     map (\<lambda>a. (name a, bench_ticks a, bench_waiting_us a, bench_turnaround_us a)) (agents s)"

section \<open>Poll order\<close>

definition agents_by_affinity_ring :: "u8 \<Rightarrow> 'a agent_instance list \<Rightarrow> nat list" where
  "agents_by_affinity_ring ring as = filter (\<lambda>i. affinity_ring (as ! i) = ring) [0..<length as]"

definition poll_score :: "'a agent_instance \<Rightarrow> u16" where
  "poll_score a = ucast (goal_urgency a) * 2 + ucast (novelty_score a)"

definition poll_order_by_affinity :: "'a agent_instance list \<Rightarrow> nat list" where
  "poll_order_by_affinity as =
     concat (map (\<lambda>ring. sort_key (\<lambda>i. - int (unat (poll_score (as ! i)))) (agents_by_affinity_ring ring as))
       [0, 1, 2]) @
     filter (\<lambda>i. affinity_ring (as ! i) > 2) [0..<length as]"

lemma unat_u8_bound: "unat (x :: u8) < 256"
  using unsigned_less [of x] by simp

lemma unat_ucast_u8_u16: "unat (ucast (x :: u8) :: u16) = unat x"
proof -
  have "unat x < 2 ^ 16" using unat_u8_bound [of x] by simp
  then show ?thesis by (simp add: unsigned_ucast_eq take_bit_nat_eq_self)
qed

lemma poll_score_val: "unat (poll_score a) = 2 * unat (goal_urgency a) + unat (novelty_score a)"
  using unat_u8_bound [of "goal_urgency a"] unat_u8_bound [of "novelty_score a"]
  by (simp add: poll_score_def unat_word_ariths unat_ucast_u8_u16)

text \<open>The order relation the poll order realises: lower rings first, then higher scores.\<close>

definition polled_before :: "'a agent_instance list \<Rightarrow> nat \<Rightarrow> nat \<Rightarrow> bool" where
  "polled_before as i j \<longleftrightarrow>
     affinity_ring (as ! i) \<le> 2 \<and>
       (affinity_ring (as ! i) < affinity_ring (as ! j) \<or>
        affinity_ring (as ! i) = affinity_ring (as ! j) \<and> poll_score (as ! j) \<le> poll_score (as ! i)) \<or>
     affinity_ring (as ! i) > 2 \<and> affinity_ring (as ! j) > 2"

lemma ring_cases:
  fixes r :: u8
  shows "r = 0 \<or> r = 1 \<or> r = 2 \<or> 2 < r"
proof -
  have "unat r = 0 \<or> unat r = 1 \<or> unat r = 2 \<or> 2 < unat r" by linarith
  then show ?thesis by (simp add: word_unat_eq_iff word_less_nat_alt)
qed

lemma mset_poll_order: "mset (poll_order_by_affinity as) = mset [0..<length as]"
proof (rule multiset_eqI)
  fix i
  have c: "count (mset (filter P xs)) i = (if P i then count (mset xs) i else 0)" for P and xs :: "nat list"
    by (simp add: mset_filter)
  show "count (mset (poll_order_by_affinity as)) i = count (mset [0..<length as]) i"
    using ring_cases [of "affinity_ring (as ! i)"]
    by (auto simp: poll_order_by_affinity_def agents_by_affinity_ring_def c word_less_nat_alt simp del: mset_filter mset_upt)
qed

lemma sorted_ring:
  "sorted_wrt (polled_before as) (sort_key (\<lambda>i. - int (unat (poll_score (as ! i)))) (agents_by_affinity_ring r as))"
proof -
  let ?xs = "sort_key (\<lambda>i. - int (unat (poll_score (as ! i)))) (agents_by_affinity_ring r as)"
  have "sorted_wrt (\<lambda>i j. - int (unat (poll_score (as ! i))) \<le> - int (unat (poll_score (as ! j)))) ?xs"
    using sorted_sort_key [of "\<lambda>i. - int (unat (poll_score (as ! i)))" "agents_by_affinity_ring r as"]
    by (simp add: sorted_map)
  then show ?thesis
    by (rule sorted_wrt_mono_rel [rotated])
       (auto simp: polled_before_def agents_by_affinity_ring_def word_le_def not_less)
qed

section \<open>Properties\<close>

text \<open>
  C14.  The poll order visits every agent exactly once, ring 0 before ring 1 before ring 2
  before any other ring, and inside a ring the agent with the higher score
  (twice the urgency plus the novelty, which never overflows) first.
\<close>

theorem poll_order_correct:
  "mset (poll_order_by_affinity as) = mset [0..<length as] \<and>
   sorted_wrt (polled_before as) (poll_order_by_affinity as) \<and>
   (\<forall>a :: 'a agent_instance. unat (poll_score a) = 2 * unat (goal_urgency a) + unat (novelty_score a))"
proof -
  let ?ring = "\<lambda>r. sort_key (\<lambda>i. - int (unat (poll_score (as ! i)))) (agents_by_affinity_ring r as)"
  have mem: "affinity_ring (as ! i) = r" if "i \<in> set (?ring r)" for i r
    using that by (simp add: agents_by_affinity_ring_def)
  have above: "1 < r \<and> 0 < r" if "2 < r" for r :: u8
    using that order.strict_trans [of 1 2 r] order.strict_trans [of 0 2 r] by simp
  have "sorted_wrt (polled_before as) (filter (\<lambda>i. affinity_ring (as ! i) > 2) [0..<length as])"
    by (rule sorted_wrt_mono_rel [of _ "\<lambda>_ _. True"]) (auto simp: polled_before_def sorted_wrt_iff_nth_less)
  then have "sorted_wrt (polled_before as) (poll_order_by_affinity as)"
    using mem above by (auto simp: poll_order_by_affinity_def sorted_wrt_append sorted_ring [simplified] polled_before_def
        simp del: set_sort)
  then show ?thesis by (simp add: mset_poll_order poll_score_val)
qed

end
