(* ===== verification/Scheduler.thy ===== *)
theory Scheduler
  imports Agents
begin

text \<open>
  The scheduler of \<^verbatim>\<open>crates/agent-core/src/lib.rs\<close>: the budget guard, the effect of a tick
  result, the boot phase, one cycle of \<^verbatim>\<open>run()\<close> and the tick of an agent on another core.
  \<^verbatim>\<open>run()\<close> never returns; \<open>run_cycles\<close> is its state after a number of cycles.

  The kernel's function pointers are the fields of the parameter \<open>platform\<close>: each may
  change the world, a hook that is not registered is \<open>None\<close>, a hook kept as an
  address is called through \<open>call_\<dots>\<close> after the code's range check.
  Whether the tick lock is obtained within its budget is the answer of \<open>tick_lock\<close>;
  the bounded spin itself is \<open>tick_lock_spin\<close>.
\<close>

section \<open>Platform\<close>

record ('a, 'w) platform = "('a, 'w) agent_ops" +
  clock_hook :: "('w \<Rightarrow> u64 \<times> 'w) option"
  slow_hook :: "(bytes \<Rightarrow> u64 \<Rightarrow> 'w \<Rightarrow> 'w) option"
  ui_overdue_hook :: "('w \<Rightarrow> bool \<times> 'w) option"
  ui_live_hook :: "('w \<Rightarrow> bool \<times> 'w) option"
  smp_offload_predicate :: "('w \<Rightarrow> bool \<times> 'w) option"
  smp_distribute :: "((u32 \<times> u8 \<times> u8 \<times> nat option \<times> u8) list \<Rightarrow> u32 \<Rightarrow> 'w \<Rightarrow> 'w) option"
  tick_lock :: "u64 \<Rightarrow> 'w \<Rightarrow> bool \<times> 'w"
  tick_stamp_fn :: u64
  call_stamp :: "u64 \<Rightarrow> bytes \<Rightarrow> 'w \<Rightarrow> 'w"
  tick_stage_fn :: u64
  call_stage :: "u64 \<Rightarrow> u8 \<Rightarrow> 'w \<Rightarrow> 'w"
  heartbeat_hook :: u64
  heartbeat_min_ms :: u64
  call_heartbeat :: "u64 \<Rightarrow> bytes \<Rightarrow> u64 \<Rightarrow> 'w \<Rightarrow> 'w"
  sched_metrics_hook :: "(u64 \<Rightarrow> nat \<Rightarrow> u32 \<Rightarrow> 'w \<Rightarrow> 'w) option"
  bei_tick_hook :: "(u64 \<Rightarrow> 'w \<Rightarrow> 'w) option"
  budget_event_hook :: "(bytes \<Rightarrow> string \<Rightarrow> 'w \<Rightarrow> 'w) option"
  init_trace :: "(bytes \<Rightarrow> u64 \<Rightarrow> 'w \<Rightarrow> 'w) option"
  halt :: "'w \<Rightarrow> 'w"
  check_respawns :: "'w \<Rightarrow> bytes list \<times> 'w"
  spawn_agent :: "bytes \<Rightarrow> 'w \<Rightarrow> 'a option \<times> 'w"

definition TICK_WATCHDOG_MS :: u64 where "TICK_WATCHDOG_MS = 500"
definition BSP_TICK_LOCK_BUDGET_MS :: u64 where "BSP_TICK_LOCK_BUDGET_MS = 50"
definition SCHED_METRICS_PERIOD :: u64 where "SCHED_METRICS_PERIOD = 32"
definition SCHED_STAGE_PRE_LOOP :: u8 where "SCHED_STAGE_PRE_LOOP = 7"
definition SCHED_STAGE_POST_LOOP :: u8 where "SCHED_STAGE_POST_LOOP = 8"
definition SCHED_STAGE_HALT :: u8 where "SCHED_STAGE_HALT = 9"
definition MAX_ROUNDS :: nat where "MAX_ROUNDS = 10000"

definition hook_ptr_ok :: "u64 \<Rightarrow> bool" where
  "hook_ptr_ok p \<longleftrightarrow> p \<ge> 0xffffffff80000000 \<and> p < 0xffffffffc0000000"

definition on_world :: "('w \<Rightarrow> 'w) \<Rightarrow> ('a, 'w) sched \<Rightarrow> ('a, 'w) sched" where
  "on_world f s = s\<lparr>world := f (world s)\<rparr>"

definition ask :: "('w \<Rightarrow> 'x \<times> 'w) \<Rightarrow> ('a, 'w) sched \<Rightarrow> 'x \<times> ('a, 'w) sched" where
  "ask f s = (let (x, w) = f (world s) in (x, s\<lparr>world := w\<rparr>))"

text \<open>\<^verbatim>\<open>HOOK.map(|p| p()).unwrap_or(default)\<close>\<close>

definition ask_hook :: "('w \<Rightarrow> 'x \<times> 'w) option \<Rightarrow> 'x \<Rightarrow> ('a, 'w) sched \<Rightarrow> 'x \<times> ('a, 'w) sched" where
  "ask_hook h dflt s = (case h of None \<Rightarrow> (dflt, s) | Some f \<Rightarrow> ask f s)"

definition trace_hook :: "('a, 'w) platform \<Rightarrow> bytes \<Rightarrow> u64 \<Rightarrow> ('a, 'w) sched \<Rightarrow> ('a, 'w) sched" where
  "trace_hook p nm n s = (case init_trace p of None \<Rightarrow> s | Some f \<Rightarrow> on_world (f nm n) s)"

definition tick_stage :: "('a, 'w) platform \<Rightarrow> u8 \<Rightarrow> ('a, 'w) sched \<Rightarrow> ('a, 'w) sched" where
  "tick_stage p n s =
     (let f = tick_stage_fn p
      in if f \<noteq> 0 \<and> hook_ptr_ok f then on_world (call_stage p f n) s else s)"

definition maybe_log_budget :: "('a, 'w) platform \<Rightarrow> bytes \<Rightarrow> string \<Rightarrow> ('a, 'w) sched \<Rightarrow> ('a, 'w) sched" where
  "maybe_log_budget p nm ev s =
     (case budget_event_hook p of None \<Rightarrow> s | Some f \<Rightarrow> on_world (f nm ev) s)"

definition maybe_log_sched_metrics :: "('a, 'w) platform \<Rightarrow> u64 \<Rightarrow> nat \<Rightarrow> u32 \<Rightarrow> ('a, 'w) sched \<Rightarrow> ('a, 'w) sched"
  where
  "maybe_log_sched_metrics p tick_id n_agents polled s =
     (let s1 = s\<lparr>last_sched_agents := n_agents, last_sched_polled := polled\<rparr>;
          s2 = (if tick_id = 1 \<or> tick_id mod SCHED_METRICS_PERIOD = 0 then
                  (case sched_metrics_hook p of
                     None \<Rightarrow> s1 | Some f \<Rightarrow> on_world (f tick_id n_agents polled) s1)
                else s1)
      in case bei_tick_hook p of None \<Rightarrow> s2 | Some f \<Rightarrow> on_world (f tick_id) s2)"

definition run_hooks :: "hook_type \<Rightarrow> bytes \<Rightarrow> u64 \<Rightarrow> ('a, 'w) sched \<Rightarrow> ('a, 'w) sched" where
  "run_hooks ty nm tick_id s = on_world (\<lambda>w. snd (hooks_run ty nm tick_id (reg_hooks s) w)) s"

definition ui_critical_agent :: "bytes \<Rightarrow> bool" where
  "ui_critical_agent nm \<longleftrightarrow>
     nm \<in> set (map bstr [''display'', ''input'', ''hw_bridge'', ''mouse'', ''audio_mixer'', ''JARBAS'',
                        ''intent_router'', ''hermes_console''])"

definition heavy_agent :: "bytes \<Rightarrow> bool" where
  "heavy_agent nm \<longleftrightarrow>
     nm \<in> set (map bstr [''infer_worker'', ''network_agent'', ''cortex_llm'', ''sleep_cycle'',
                        ''auto_learn'', ''self_evolve'', ''browser''])"

section \<open>Tick lock\<close>

text \<open>
  \<^verbatim>\<open>try_with_agent_tick_lock_ms\<close>: \<open>busy i\<close> is what the \<open>i\<close>-th swap returns, \<open>now i\<close> the \<open>i\<close>-th
  clock reading.  \<open>None\<close> means still spinning when the fuel ends, \<open>Some False\<close> that the budget ran out.
\<close>

fun tick_lock_spin :: "nat \<Rightarrow> nat \<Rightarrow> u64 \<Rightarrow> u64 \<Rightarrow> (nat \<Rightarrow> bool) \<Rightarrow> (nat \<Rightarrow> u64) option \<Rightarrow> bool option" where
  "tick_lock_spin 0 i budget_ms t0 busy now = None"
| "tick_lock_spin (Suc fuel) i budget_ms t0 busy now =
     (if \<not> busy i then Some True
      else (case now of
              None \<Rightarrow> tick_lock_spin fuel (Suc i) budget_ms t0 busy now
            | Some c \<Rightarrow> if c i - t0 > budget_ms then Some False
                       else tick_lock_spin fuel (Suc i) budget_ms t0 busy now))"

text \<open>The body run under the lock: count the tick and call the agent.\<close>

definition tick_agent :: "('a, 'w) platform \<Rightarrow> nat \<Rightarrow> u64 \<Rightarrow> ('a, 'w) sched \<Rightarrow> agent_tick_result \<times> ('a, 'w) sched" where
  "tick_agent p i tick_id s =
     (let s1 = upd_agent i (\<lambda>a. a\<lparr>tick_counter := tick_counter a + 1\<rparr>) s;
          a = agents s1 ! i;
          (r, ag, w) = ag_tick p (agent a) tick_id (tick_counter a) (world s1)
      in (r, upd_agent i (\<lambda>a. a\<lparr>agent := ag\<rparr>) s1\<lparr>world := w\<rparr>))"

definition try_tick_agent ::
  "('a, 'w) platform \<Rightarrow> u64 \<Rightarrow> nat \<Rightarrow> u64 \<Rightarrow> ('a, 'w) sched \<Rightarrow> agent_tick_result option \<times> ('a, 'w) sched" where
  "try_tick_agent p budget_ms i tick_id s =
     (let (got, s1) = ask (tick_lock p budget_ms) s
      in if got then (let (r, s2) = tick_agent p i tick_id s1 in (Some r, s2)) else (None, s1))"

section \<open>Budget guard and tick results\<close>

definition check_budget :: "('a, 'w) platform \<Rightarrow> nat \<Rightarrow> ('a, 'w) sched \<Rightarrow> bool \<times> ('a, 'w) sched" where
  "check_budget p i s =
     (let nm = name (agents s ! i)
      in if paused_ticks (agents s ! i) > 0 then
           (let s1 = upd_agent i (\<lambda>a. a\<lparr>paused_ticks := sat_add (paused_ticks a) 1,
                       lifetime_paused_polls := sat_add (lifetime_paused_polls a) 1\<rparr>) s
            in if lifetime_paused_polls (agents s1 ! i) \<ge> 10000 then
                 (False, maybe_log_budget p nm ''crashed_timeout''
                           (upd_agent i (\<lambda>a. a\<lparr>state := Crashed\<rparr>) s1))
               else if paused_ticks (agents s1 ! i) \<ge> 1000 then
                 (False, maybe_log_budget p nm ''recovered''
                           (upd_agent i (\<lambda>a. a\<lparr>paused_ticks := 0\<rparr>) (s1\<lparr>bmgr := bm_recover nm (bmgr s1)\<rparr>)))
               else (False, s1))
         else
           (let (ok, m) = bm_allow_poll nm (bmgr s); s1 = s\<lparr>bmgr := m\<rparr>
            in if \<not> ok then
                 (False, maybe_log_budget p nm ''paused''
                           (upd_agent i (\<lambda>a. a\<lparr>paused_ticks := 1,
                               lifetime_paused_polls := sat_add (lifetime_paused_polls a) 1\<rparr>) s1))
               else (True, s1)))"

definition bench_record :: "('a, 'w) platform \<Rightarrow> nat \<Rightarrow> ('a, 'w) sched \<Rightarrow> ('a, 'w) sched" where
  "bench_record p i s =
     (let start = bench_tick_start_ms (agents s ! i)
      in if start = 0 then s
         else (case clock_hook p of
                 None \<Rightarrow> upd_agent i (\<lambda>a. a\<lparr>bench_tick_start_ms := 0\<rparr>) s
               | Some clock \<Rightarrow>
                   (let (now, s1) = ask clock s;
                        turnaround = sat_sub now start;
                        last_end = bench_last_end_ms (agents s1 ! i);
                        waiting = (if last_end = 0 then 0 else sat_sub start last_end)
                    in upd_agent i (\<lambda>a. a\<lparr>
                         bench_waiting_us := sat_add (bench_waiting_us a) (sat_mul waiting 1000),
                         bench_turnaround_us := sat_add (bench_turnaround_us a) (sat_mul turnaround 1000),
                         bench_ticks := sat_add (bench_ticks a) 1,
                         bench_last_end_ms := now,
                         bench_tick_start_ms := 0\<rparr>) s1)))"

definition apply_tick_result ::
  "('a, 'w) platform \<Rightarrow> nat \<Rightarrow> agent_tick_result \<Rightarrow> u64 \<Rightarrow> ('a, 'w) sched \<Rightarrow> ('a, 'w) sched" where
  "apply_tick_result p i result tick_id s =
     (if i \<ge> length (agents s) then s
      else
        (let s1 = upd_agent i (\<lambda>a. a\<lparr>last_poll := tick_id\<rparr>) (bench_record p i s);
             nm = name (agents s1 ! i)
         in case result of
              TickPending \<Rightarrow>
                (let s2 = upd_agent i (\<lambda>a. a\<lparr>consecutive_pending := sat_add (consecutive_pending a) 1\<rparr>) s1;
                     a = agents s2 ! i
                 in if watchdog_should_crash (goal_urgency a) (consecutive_pending a)
                    then upd_agent i (\<lambda>a. a\<lparr>state := Crashed\<rparr>) s2 else s2)
            | TickDone \<Rightarrow>
                upd_agent i (\<lambda>a. if schedule a = Oneshot then a\<lparr>consecutive_pending := 0, state := Done\<rparr>
                                 else a\<lparr>consecutive_pending := 0\<rparr>) s1
            | TickCrashed \<Rightarrow>
                run_hooks OnCrash nm tick_id (upd_agent i (\<lambda>a. a\<lparr>state := Crashed\<rparr>) s1)))"

section \<open>Boot phase\<close>

definition init_activate :: "('a, 'w) platform \<Rightarrow> nat \<Rightarrow> ('a, 'w) sched \<Rightarrow> ('a, 'w) sched" where
  "init_activate p i s =
     (let a = agents s ! i
      in if schedule a \<noteq> Oneshot then s
         else if \<not> auto_start a then s
         else if state a = Done \<or> state a = Crashed then s
         else activate_agent p i s)"

definition init_tick :: "('a, 'w) platform \<Rightarrow> u64 \<Rightarrow> nat \<Rightarrow> bool \<times> ('a, 'w) sched \<Rightarrow> bool \<times> ('a, 'w) sched" where
  "init_tick p round i acc =
     (let (any_active, s) = acc; a = agents s ! i
      in if schedule a \<noteq> Oneshot then acc
         else if state a \<noteq> Active then acc
         else
           (let s1 = upd_agent i (\<lambda>a. a\<lparr>tick_counter := tick_counter a + 1\<rparr>) s;
                tc = tick_counter (agents s1 ! i);
                s2 = trace_hook p (name (agents s1 ! i)) round s1;
                (r, ag, w) = ag_tick p (agent (agents s2 ! i)) round tc (world s2);
                s3 = upd_agent i (\<lambda>a. a\<lparr>agent := ag\<rparr>) s2\<lparr>world := w\<rparr>
            in (True,
                case r of
                  TickDone \<Rightarrow> upd_agent i (\<lambda>a. a\<lparr>state := Done\<rparr>) s3
                | TickCrashed \<Rightarrow> upd_agent i (\<lambda>a. a\<lparr>state := Crashed\<rparr>) s3
                | TickPending \<Rightarrow> s3)))"

definition init_round :: "('a, 'w) platform \<Rightarrow> u64 \<Rightarrow> ('a, 'w) sched \<Rightarrow> bool \<times> ('a, 'w) sched" where
  "init_round p round s = fold (init_tick p round) [0..<length (agents s)] (False, s)"

text \<open>The loop of \<^verbatim>\<open>init_phase\<close>; \<open>round\<close> counts the rounds done and stays below \<^verbatim>\<open>MAX_ROUNDS\<close>.\<close>

function init_loop :: "('a, 'w) platform \<Rightarrow> nat \<Rightarrow> ('a, 'w) sched \<Rightarrow> ('a, 'w) sched" where
  "init_loop p done_rounds s =
     (let round = Suc done_rounds;
          (any_active, s') = init_round p (of_nat round) s
      in if \<not> any_active then s'
         else if round \<ge> MAX_ROUNDS then s'
         else init_loop p round s')"
  by auto
termination by (relation "measure (\<lambda>(p, n, s). MAX_ROUNDS - n)") auto

declare init_loop.simps [simp del]

definition init_phase :: "('a, 'w) platform \<Rightarrow> ('a, 'w) sched \<Rightarrow> ('a, 'w) sched" where
  "init_phase p s = init_loop p 0 (fold (init_activate p) [0..<length (agents s)] s)"

section \<open>One cycle of the scheduler\<close>

definition run_activate :: "('a, 'w) platform \<Rightarrow> nat \<Rightarrow> ('a, 'w) sched \<Rightarrow> ('a, 'w) sched" where
  "run_activate p i s =
     (if state (agents s ! i) \<noteq> Inactive then s
      else
        (let s1 = trace_hook p (name (agents s ! i)) (of_nat i) s
         in if auto_start (agents s1 ! i) then activate_agent p i s1 else s1))"

definition run_enter :: "('a, 'w) platform \<Rightarrow> ('a, 'w) sched \<Rightarrow> ('a, 'w) sched" where
  "run_enter p s =
     (let s1 = trace_hook p (bstr ''>> ENTER run'') 0 s;
          s2 = fold (run_activate p) [0..<length (agents s1)] s1
      in trace_hook p (bstr ''>> ACT_DONE'') 0 s2)"

definition respawn :: "('a, 'w) platform \<Rightarrow> u64 \<Rightarrow> bytes \<Rightarrow> ('a, 'w) sched \<Rightarrow> ('a, 'w) sched" where
  "respawn p tick_id nm s =
     (let (ag, s1) = ask (spawn_agent p nm) s
      in case ag of
           None \<Rightarrow> s1
         | Some a \<Rightarrow>
             (let i = length (agents s1);
                  s2 = s1\<lparr>agents := agents s1 @ [instance_new p a], bmgr := bm_register nm None (bmgr s1)\<rparr>
              in run_hooks OnSpawn nm tick_id (activate_agent p i s2)))"

definition offload_batch :: "'a agent_instance list \<Rightarrow> (u32 \<times> u8 \<times> u8 \<times> nat option \<times> u8) list" where
  "offload_batch as =
     map (\<lambda>i. (of_nat i, affinity_ring (as ! i), tier_priority (tier (as ! i)), coherence_partner (as ! i),
               goal_urgency (as ! i)))
       (filter (\<lambda>i. \<not> (state (as ! i) \<noteq> Active \<or> affinity_ring (as ! i) = 0)) [0..<length as])"

definition distribute :: "('a, 'w) platform \<Rightarrow> bool \<Rightarrow> u64 \<Rightarrow> ('a, 'w) sched \<Rightarrow> ('a, 'w) sched" where
  "distribute p smp_offload tick_id s =
     (if smp_offload then
        (case smp_distribute p of
           None \<Rightarrow> s
         | Some dist \<Rightarrow>
             (let batch = offload_batch (agents s)
              in if batch \<noteq> [] then on_world (dist batch (ucast tick_id)) s else s))
      else s)"

text \<open>The frame painted ahead of the queue, and again mid-cycle when it is overdue.\<close>

definition display_tick :: "('a, 'w) platform \<Rightarrow> u64 \<Rightarrow> ('a, 'w) sched \<times> u32 \<Rightarrow> ('a, 'w) sched \<times> u32" where
  "display_tick p tick_id acc =
     (let (s, polled) = acc
      in case position (\<lambda>a. name a = bstr ''display'') (agents s) of
           None \<Rightarrow> acc
         | Some di \<Rightarrow>
             if state (agents s ! di) = Active then
               (let (r, s1) = try_tick_agent p 2 di tick_id s
                in case r of
                     None \<Rightarrow> (s1, polled)
                   | Some result \<Rightarrow> (apply_tick_result p di result tick_id s1, sat_add polled 1))
             else acc)"

text \<open>The conditions under which the loop reaches the budget guard for agent \<open>i\<close>.\<close>

definition eligible ::
  "('a, 'w) platform \<Rightarrow> bool \<Rightarrow> bool \<Rightarrow> bool \<Rightarrow> u64 \<Rightarrow> ('a, 'w) sched \<Rightarrow> nat \<Rightarrow> bool" where
  "eligible p smp_offload ui_live ui_overdue_now tick_id s i =
     (let a = agents s ! i
      in if state a \<noteq> Active then False
         else if smp_offload \<and> affinity_ring a \<ge> 1 then False
         else if ui_live \<and> name a = bstr ''display'' then False
         else if ui_overdue_now \<and> heavy_agent (name a) then False
         else if ui_live \<and> \<not> ui_critical_agent (name a) \<and> schedule a = Continuous \<and> tick_id mod 8 \<noteq> 0
              then False
         else if ui_live \<and> \<not> ui_critical_agent (name a) \<and> (case schedule a of PollEvery n \<Rightarrow> True | _ \<Rightarrow> False) \<and>
                 tick_id mod 4 \<noteq> 0 then False
         else if goal_urgency a = 0 \<and> consecutive_pending a > 50 \<and> tick_id mod 5 \<noteq> 0 then False
         else
           (let has_event = (schedule a \<noteq> EventDriven \<or>
                  event_driven_has_event (last_poll a) (ag_has_pending p (agent a) (world s)))
            in should_poll_flow (cm_flow (crew a)) tick_id (last_poll a) has_event))"

definition stamp_agent :: "('a, 'w) platform \<Rightarrow> bytes \<Rightarrow> u64 \<Rightarrow> ('a, 'w) sched \<Rightarrow> ('a, 'w) sched" where
  "stamp_agent p nm t0 s =
     (let s1 = s\<lparr>tick_entered_ms := max t0 1, cur_agent := Some nm, last_agent := Some nm\<rparr>;
          f = tick_stamp_fn p
      in if f \<noteq> 0 \<and> hook_ptr_ok f then
           (let s2 = s1\<lparr>last_stamped := Some nm\<rparr>
            in if last_stamped s1 \<noteq> Some nm then on_world (call_stamp p f nm) s2 else s2)
         else s1)"

definition heartbeat :: "('a, 'w) platform \<Rightarrow> bytes \<Rightarrow> u64 \<Rightarrow> ('a, 'w) sched \<Rightarrow> ('a, 'w) sched" where
  "heartbeat p nm t0 s =
     (let f = heartbeat_hook p
      in if f \<noteq> 0 \<and> hook_ptr_ok f then
           (let (dt, s1) = (case clock_hook p of
                              None \<Rightarrow> (0, s)
                            | Some c \<Rightarrow> (let (now, s1) = ask c s in (sat_sub now t0, s1)))
            in if dt \<ge> heartbeat_min_ms p then on_world (call_heartbeat p f nm dt) s1 else s1)
         else s)"

definition wall_overrun :: "('a, 'w) platform \<Rightarrow> bytes \<Rightarrow> u64 \<Rightarrow> ('a, 'w) sched \<Rightarrow> ('a, 'w) sched" where
  "wall_overrun p nm t0 s =
     (case (clock_hook p, slow_hook p) of
        (Some c, Some report) \<Rightarrow>
          (let (now, s1) = ask c s; dt = now - t0
           in if dt > TICK_WATCHDOG_MS
              then (on_world (report nm dt) s1)\<lparr>bmgr := bm_note_wall_overrun nm (bmgr s1)\<rparr>
              else s1)
      | _ \<Rightarrow> s)"

definition ui_boost :: "('a, 'w) platform \<Rightarrow> bytes \<Rightarrow> u64 \<Rightarrow> ('a, 'w) sched \<times> u32 \<Rightarrow> ('a, 'w) sched \<times> u32" where
  "ui_boost p nm tick_id acc =
     (let (s, polled) = acc
      in if nm \<noteq> bstr ''display'' then
           (let (overdue, s1) = ask_hook (ui_overdue_hook p) False s
            in if overdue then display_tick p tick_id (s1, polled) else (s1, polled))
         else acc)"

text \<open>A poll: the stamps before the tick, what follows the tick, and the whole body of the loop.\<close>

definition poll_enter :: "('a, 'w) platform \<Rightarrow> bytes \<Rightarrow> nat \<Rightarrow> ('a, 'w) sched \<Rightarrow> u64 \<times> ('a, 'w) sched" where
  "poll_enter p nm i s =
     (let (t0, s1) = ask_hook (clock_hook p) 0 s
      in (t0, upd_agent i (\<lambda>a. a\<lparr>bench_tick_start_ms := t0\<rparr>) (stamp_agent p nm t0 s1)))"

definition poll_leave ::
  "('a, 'w) platform \<Rightarrow> bytes \<Rightarrow> nat \<Rightarrow> u64 \<Rightarrow> u64 \<Rightarrow> agent_tick_result \<Rightarrow> u32 \<Rightarrow> ('a, 'w) sched \<Rightarrow>
    ('a, 'w) sched \<times> u32" where
  "poll_leave p nm i tick_id t0 result polled s =
     (let s1 = wall_overrun p nm t0 (heartbeat p nm t0 s);
          s2 = run_hooks PostTick nm tick_id s1;
          (s3, polled') = ui_boost p nm tick_id (s2, sat_add polled 1)
      in (apply_tick_result p i result tick_id s3, polled'))"

definition poll_agent ::
  "('a, 'w) platform \<Rightarrow> bool \<Rightarrow> bool \<Rightarrow> bool \<Rightarrow> u64 \<Rightarrow> nat \<Rightarrow> ('a, 'w) sched \<times> u32 \<Rightarrow> ('a, 'w) sched \<times> u32" where
  "poll_agent p smp_offload ui_live ui_overdue_now tick_id i acc =
     (let (s, polled) = acc; nm = name (agents s ! i)
      in if \<not> eligible p smp_offload ui_live ui_overdue_now tick_id s i then acc
         else
           (let (ok, s1) = check_budget p i s
            in if \<not> ok then (s1, polled)
               else
                 (let (pass, s2) = ask (hooks_check PreTick nm tick_id (reg_hooks s1)) s1
                  in if \<not> pass then (s2, polled)
                     else
                       (let (t0, s3) = poll_enter p nm i s2;
                            (r, s4) = try_tick_agent p BSP_TICK_LOCK_BUDGET_MS i tick_id s3;
                            s5 = s4\<lparr>tick_entered_ms := 0\<rparr>
                        in case r of
                             None \<Rightarrow> (s5, polled)
                           | Some result \<Rightarrow> poll_leave p nm i tick_id t0 result polled s5))))"

definition novelty_decay :: "('a, 'w) sched \<Rightarrow> ('a, 'w) sched" where
  "novelty_decay s =
     s\<lparr>agents := map (\<lambda>a. if novelty_score a > 0 then a\<lparr>novelty_score := novelty_score a - 1\<rparr> else a) (agents s)\<rparr>"

text \<open>A cycle is its part before the polls, the polls, and the part after them.\<close>

definition cycle_prepare ::
  "('a, 'w) platform \<Rightarrow> u64 \<Rightarrow> ('a, 'w) sched \<Rightarrow> bool \<times> bool \<times> bool \<times> ('a, 'w) sched" where
  "cycle_prepare p tick_id s =
     (let s1 = trace_hook p (bstr ''>> TICK'') tick_id s;
          s2 = s1\<lparr>bmgr := reset_all (bmgr s1)\<rparr>;
          (respawns, s3) = ask (check_respawns p) s2;
          s4 = fold (respawn p tick_id) respawns s3;
          (smp_offload, s5) = ask_hook (smp_offload_predicate p) False s4;
          s6 = tick_stage p SCHED_STAGE_PRE_LOOP (distribute p smp_offload tick_id s5);
          (ui_live, s7) = ask_hook (ui_live_hook p) False s6;
          (ui_overdue_now, s8) = ask_hook (ui_overdue_hook p) False s7
      in (smp_offload, ui_live, ui_overdue_now, s8))"

definition cycle_polls ::
  "('a, 'w) platform \<Rightarrow> u64 \<Rightarrow> bool \<Rightarrow> bool \<Rightarrow> bool \<Rightarrow> ('a, 'w) sched \<Rightarrow> ('a, 'w) sched \<times> u32" where
  "cycle_polls p tick_id smp_offload ui_live ui_overdue_now s =
     (let (s1, polled) = (if ui_live then display_tick p tick_id (s, 0) else (s, 0))
      in fold (poll_agent p smp_offload ui_live ui_overdue_now tick_id)
           (poll_order_by_affinity (agents s1)) (s1, polled))"

definition cycle_finish :: "('a, 'w) platform \<Rightarrow> u64 \<Rightarrow> u32 \<Rightarrow> ('a, 'w) sched \<Rightarrow> ('a, 'w) sched" where
  "cycle_finish p tick_id polled s =
     (let s1 = (tick_stage p SCHED_STAGE_POST_LOOP s)\<lparr>last_stamped := None\<rparr>;
          s2 = novelty_decay s1;
          s3 = maybe_log_sched_metrics p tick_id (length (agents s2)) polled s2
      in on_world (halt p) (tick_stage p SCHED_STAGE_HALT s3))"

definition cycle :: "('a, 'w) platform \<Rightarrow> u64 \<Rightarrow> ('a, 'w) sched \<Rightarrow> ('a, 'w) sched" where
  "cycle p tick_id s =
     (let (smp_offload, ui_live, ui_overdue_now, s1) = cycle_prepare p tick_id s;
          (s2, polled) = cycle_polls p tick_id smp_offload ui_live ui_overdue_now s1
      in cycle_finish p tick_id polled s2)"

fun run_cycles :: "('a, 'w) platform \<Rightarrow> nat \<Rightarrow> u64 \<Rightarrow> ('a, 'w) sched \<Rightarrow> ('a, 'w) sched" where
  "run_cycles p 0 tick_id s = s"
| "run_cycles p (Suc n) tick_id s = run_cycles p n (tick_id + 1) (cycle p (tick_id + 1) s)"

definition run_for :: "('a, 'w) platform \<Rightarrow> nat \<Rightarrow> ('a, 'w) sched \<Rightarrow> ('a, 'w) sched" where
  "run_for p n s = run_cycles p n 0 (run_enter p s)"

section \<open>Ticks on other cores\<close>

definition tick_agent_by_index :: "('a, 'w) platform \<Rightarrow> u32 \<Rightarrow> u32 \<Rightarrow> ('a, 'w) sched \<Rightarrow> bool \<times> ('a, 'w) sched" where
  "tick_agent_by_index p idx tick_id s =
     (let i = unat idx
      in if i \<ge> length (agents s) then (False, s)
         else if state (agents s ! i) \<noteq> Active then (False, s)
         else
           (let (ok, s1) = check_budget p i s
            in if \<not> ok then (False, s1)
               else
                 (let s2 = upd_agent i (\<lambda>a. a\<lparr>tick_counter := tick_counter a + 1\<rparr>) s1;
                      tc = tick_counter (agents s2 ! i);
                      (t0, s3) = ask_hook (clock_hook p) 0 s2;
                      s4 = upd_agent i (\<lambda>a. a\<lparr>bench_tick_start_ms := t0\<rparr>) s3;
                      (r, ag, w) = ag_tick p (agent (agents s4 ! i)) (ucast tick_id) tc (world s4);
                      s5 = upd_agent i (\<lambda>a. a\<lparr>agent := ag\<rparr>) s4\<lparr>world := w\<rparr>
                  in (True, apply_tick_result p i r (ucast tick_id) s5))))"

end
