(* ===== verification/SchedulerProofs.thy ===== *)
theory SchedulerProofs
  imports Scheduler
begin

text \<open>
  Theorems on the scheduler.  \<open>frame J s s'\<close> says that a step changed only the agents in \<open>J\<close>
  and the budgets of their names; every piece of a poll has such a frame, and the
  properties of a cycle follow from the frames of its polls.
\<close>

section \<open>Frames\<close>

definition frame :: "nat set \<Rightarrow> ('a, 'w) sched \<Rightarrow> ('a, 'w) sched \<Rightarrow> bool" where
  "frame J s s' \<longleftrightarrow>
     map name (agents s') = map name (agents s) \<and>
     (\<forall>k < length (agents s). k \<notin> J \<longrightarrow> agents s' ! k = agents s ! k) \<and>
     reg_hooks s' = reg_hooks s \<and>
     (bt_wf (budgets (bmgr s)) \<longrightarrow> bt_wf (budgets (bmgr s')) \<and>
        (\<forall>nm. (\<forall>k < length (agents s). k \<in> J \<longrightarrow> name (agents s ! k) \<noteq> nm) \<longrightarrow>
           bt_get (budgets (bmgr s')) nm = bt_get (budgets (bmgr s)) nm))"

lemma frame_length: "frame J s s' \<Longrightarrow> length (agents s') = length (agents s)"
  unfolding frame_def by (metis length_map)

lemma frame_name: "frame J s s' \<Longrightarrow> k < length (agents s) \<Longrightarrow> name (agents s' ! k) = name (agents s ! k)"
  unfolding frame_def by (metis length_map nth_map)

lemma frame_same: "frame J s s' \<Longrightarrow> k < length (agents s) \<Longrightarrow> k \<notin> J \<Longrightarrow> agents s' ! k = agents s ! k"
  unfolding frame_def by blast

lemma frame_refl [simp]: "frame J s s"
  by (simp add: frame_def)

lemma frame_trans:
  assumes a: "frame J s s'" and b: "frame K s' s''"
  shows "frame (J \<union> K) s s''"
  unfolding frame_def
proof (intro conjI allI impI)
  show "map name (agents s'') = map name (agents s)" "reg_hooks s'' = reg_hooks s"
    using a b by (simp_all add: frame_def)
  show "agents s'' ! k = agents s ! k" if "k < length (agents s)" "k \<notin> J \<union> K" for k
    using that frame_same [OF a] frame_same [OF b] frame_length [OF a] by simp
  assume wf: "bt_wf (budgets (bmgr s))"
  then show "bt_wf (budgets (bmgr s''))" using a b by (simp add: frame_def)
  fix nm
  assume "\<forall>k<length (agents s). k \<in> J \<union> K \<longrightarrow> name (agents s ! k) \<noteq> nm"
  then show "bt_get (budgets (bmgr s'')) nm = bt_get (budgets (bmgr s)) nm"
    using a b wf frame_length [OF a] frame_name [OF a] unfolding frame_def by (metis Un_iff)
qed

lemma frame_mono: "frame J s s' \<Longrightarrow> J \<subseteq> K \<Longrightarrow> frame K s s'"
  unfolding frame_def by blast

lemma frame_trans_same: "frame J s s' \<Longrightarrow> frame J s' s'' \<Longrightarrow> frame J s s''"
  using frame_trans [of J s s' J s''] by simp

lemma frame_upd [intro]:
  assumes "\<And>a. name (f a) = name a"
  shows "frame {i} s (upd_agent i f s)"
proof (cases "i < length (agents s)")
  case True
  then have "map name ((agents s)[i := f (agents s ! i)]) = map name (agents s)"
    by (intro nth_equalityI) (auto simp: nth_list_update assms)
  then show ?thesis by (simp add: frame_def upd_agent_def)
next
  case False
  then show ?thesis by (simp add: frame_def upd_agent_def list_update_beyond)
qed

lemma frame_statics:
  "agents s' = agents s \<Longrightarrow> bmgr s' = bmgr s \<Longrightarrow> reg_hooks s' = reg_hooks s \<Longrightarrow> frame J s s'"
  by (simp add: frame_def)

lemma frame_budget:
  assumes "i < length (agents s)" "\<And>nm. bt_wf (budgets (bmgr s)) \<Longrightarrow> nm \<noteq> name (agents s ! i) \<Longrightarrow> bt_get (budgets m) nm = bt_get (budgets (bmgr s)) nm"
    and "bt_wf (budgets (bmgr s)) \<Longrightarrow> bt_wf (budgets m)"
  shows "frame {i} s (s\<lparr>bmgr := m\<rparr>)"
  using assms by (auto simp: frame_def)

subsection \<open>Steps that leave agents, budgets and hooks alone\<close>

lemma on_world_frame [simp]:
  "agents (on_world f s) = agents s" "bmgr (on_world f s) = bmgr s" "reg_hooks (on_world f s) = reg_hooks s"
  by (simp_all add: on_world_def)

lemma ask_frame [simp]:
  "agents (snd (ask f s)) = agents s" "bmgr (snd (ask f s)) = bmgr s" "reg_hooks (snd (ask f s)) = reg_hooks s"
  by (simp_all add: ask_def split_beta Let_def)

lemma ask_hook_frame [simp]:
  "agents (snd (ask_hook h d s)) = agents s" "bmgr (snd (ask_hook h d s)) = bmgr s"
  "reg_hooks (snd (ask_hook h d s)) = reg_hooks s"
  by (simp_all add: ask_hook_def split: option.splits)

lemma trace_frame [simp]:
  "agents (trace_hook p nm n s) = agents s" "bmgr (trace_hook p nm n s) = bmgr s"
  "reg_hooks (trace_hook p nm n s) = reg_hooks s"
  by (simp_all add: trace_hook_def split: option.splits)

lemma stage_frame [simp]:
  "agents (tick_stage p n s) = agents s" "bmgr (tick_stage p n s) = bmgr s"
  "reg_hooks (tick_stage p n s) = reg_hooks s"
  by (simp_all add: tick_stage_def Let_def)

lemma log_frame [simp]:
  "agents (maybe_log_budget p nm ev s) = agents s" "bmgr (maybe_log_budget p nm ev s) = bmgr s"
  "reg_hooks (maybe_log_budget p nm ev s) = reg_hooks s"
  by (simp_all add: maybe_log_budget_def split: option.splits)

lemma run_hooks_frame [simp]:
  "agents (run_hooks ty nm n s) = agents s" "bmgr (run_hooks ty nm n s) = bmgr s"
  "reg_hooks (run_hooks ty nm n s) = reg_hooks s"
  by (simp_all add: run_hooks_def)

lemma stamp_frame [simp]:
  "agents (stamp_agent p nm t s) = agents s" "bmgr (stamp_agent p nm t s) = bmgr s"
  "reg_hooks (stamp_agent p nm t s) = reg_hooks s"
  by (simp_all add: stamp_agent_def Let_def)

lemma heartbeat_frame [simp]:
  "agents (heartbeat p nm t s) = agents s" "bmgr (heartbeat p nm t s) = bmgr s"
  "reg_hooks (heartbeat p nm t s) = reg_hooks s"
  by (simp_all add: heartbeat_def Let_def split_beta split: option.splits)

lemma distribute_frame [simp]:
  "agents (distribute p off t s) = agents s" "bmgr (distribute p off t s) = bmgr s"
  "reg_hooks (distribute p off t s) = reg_hooks s"
  by (simp_all add: distribute_def Let_def split: option.splits)

lemma metrics_frame [simp]:
  "agents (maybe_log_sched_metrics p t n k s) = agents s" "bmgr (maybe_log_sched_metrics p t n k s) = bmgr s"
  "reg_hooks (maybe_log_sched_metrics p t n k s) = reg_hooks s"
  by (simp_all add: maybe_log_sched_metrics_def Let_def split: option.splits)

lemma wall_overrun_frame:
  "agents (wall_overrun p nm t s) = agents s" "reg_hooks (wall_overrun p nm t s) = reg_hooks s"
  "bmgr (wall_overrun p nm t s) = bmgr s \<or> bmgr (wall_overrun p nm t s) = bm_note_wall_overrun nm (bmgr s)"
  by (auto simp: wall_overrun_def Let_def split_beta split: option.splits)

declare wall_overrun_frame(1,2) [simp]

subsection \<open>Budgets\<close>

lemma bm_frames:
  assumes "bt_wf (budgets m)"
  shows "bt_wf (budgets (bm_recover nm m))" "bt_wf (budgets (snd (bm_allow_poll nm m)))"
    "bt_wf (budgets (bm_note_wall_overrun nm m))" "bt_wf (budgets (bm_register nm q m))"
    "nm' \<noteq> nm \<Longrightarrow> bt_get (budgets (bm_recover nm m)) nm' = bt_get (budgets m) nm'"
    "nm' \<noteq> nm \<Longrightarrow> bt_get (budgets (snd (bm_allow_poll nm m))) nm' = bt_get (budgets m) nm'"
    "nm' \<noteq> nm \<Longrightarrow> bt_get (budgets (bm_note_wall_overrun nm m)) nm' = bt_get (budgets m) nm'"
    "nm' \<noteq> nm \<Longrightarrow> bt_get (budgets (bm_register nm q m)) nm' = bt_get (budgets m) nm'"
  using assms
  by (auto simp: bm_recover_def bm_allow_poll_def bm_note_wall_overrun_def bm_register_def split_beta Let_def
      split: option.splits)

lemma frame_direct:
  assumes i: "i < length (agents s)"
    and "agents s' = (agents s)[i := a]" "name a = name (agents s ! i)" "reg_hooks s' = reg_hooks s"
    and m: "bmgr s' = bmgr s \<or> bmgr s' = bm_recover (name (agents s ! i)) (bmgr s) \<or>
      bmgr s' = snd (bm_allow_poll (name (agents s ! i)) (bmgr s)) \<or>
      bmgr s' = bm_note_wall_overrun (name (agents s ! i)) (bmgr s)"
  shows "frame {i} s s'"
proof -
  have "map name ((agents s)[i := a]) = map name (agents s)"
    using assms by (intro nth_equalityI) (auto simp: nth_list_update)
  moreover have "bt_wf (budgets (bmgr s')) \<and>
      (\<forall>nm. nm \<noteq> name (agents s ! i) \<longrightarrow> bt_get (budgets (bmgr s')) nm = bt_get (budgets (bmgr s)) nm)"
    if "bt_wf (budgets (bmgr s))"
    using m bm_frames [OF that] that by auto
  ultimately show ?thesis using assms by (auto simp: frame_def)
qed

subsection \<open>Polls\<close>

lemma frame_check_budget:
  assumes i: "i < length (agents s)"
  shows "frame {i} s (snd (check_budget p i s))"
proof (cases "paused_ticks (agents s ! i) > 0")
  case True
  with i show ?thesis
    by (auto simp: check_budget_def Let_def upd_agent_def
        intro!: frame_direct [where a = "agents (snd (check_budget p i s)) ! i"])
next
  case False
  with i show ?thesis
    by (auto simp: check_budget_def Let_def upd_agent_def split_beta
        intro!: frame_direct [where a = "agents (snd (check_budget p i s)) ! i"])
qed

lemma frame_bench_record: "i < length (agents s) \<Longrightarrow> frame {i} s (bench_record p i s)"
  by (rule frame_direct [where a = "agents (bench_record p i s) ! i"])
     (auto simp: bench_record_def Let_def upd_agent_def split_beta split: option.splits)

lemma frame_apply:
  "frame {i} s (apply_tick_result p i r t s)"
proof (cases "i < length (agents s)")
  case True
  note b = frame_bench_record [OF True, of p]
  have "frame {i} (bench_record p i s) (apply_tick_result p i r t s)"
    using True frame_length [OF b]
    by (intro frame_direct [where a = "agents (apply_tick_result p i r t s) ! i"])
       (auto simp: apply_tick_result_def Let_def upd_agent_def split: agent_tick_result.splits)
  with b show ?thesis by (rule frame_trans_same)
qed (simp add: apply_tick_result_def)

lemma frame_tick_agent: "i < length (agents s) \<Longrightarrow> frame {i} s (snd (tick_agent p i t s))"
  by (rule frame_direct [where a = "agents (snd (tick_agent p i t s)) ! i"])
     (auto simp: tick_agent_def Let_def upd_agent_def split_beta)

lemma frame_try_tick:
  assumes "i < length (agents s)"
  shows "frame {i} s (snd (try_tick_agent p b i t s))"
proof -
  have "frame {i} s (snd (ask (tick_lock p b) s))" by (rule frame_statics) simp_all
  moreover have "frame {i} (snd (ask (tick_lock p b) s)) (snd (tick_agent p i t (snd (ask (tick_lock p b) s))))"
    using assms by (intro frame_tick_agent) simp
  ultimately show ?thesis
    by (auto simp: try_tick_agent_def split_beta Let_def intro: frame_trans_same)
qed

lemma position_Some:
  "position P xs = Some i \<Longrightarrow> i < length xs \<and> P (xs ! i) \<and> (\<forall>j < i. \<not> P (xs ! j))"
proof (induction xs arbitrary: i)
  case (Cons x xs)
  then show ?case by (auto split: if_splits simp: less_Suc_eq_0_disj)
qed simp

definition display_at :: "('a, 'w) sched \<Rightarrow> nat set" where
  "display_at s = {d. position (\<lambda>a. name a = bstr ''display'') (agents s) = Some d \<and> state (agents s ! d) = Active}"

lemma frame_display: "frame (display_at s) s (fst (display_tick p t (s, n)))"
proof (cases "position (\<lambda>a. name a = bstr ''display'') (agents s)")
  case None
  then show ?thesis by (simp add: display_tick_def)
next
  case (Some d)
  have "frame {d} s (fst (display_tick p t (s, n)))" if "state (agents s ! d) = Active"
  proof -
    let ?r = "try_tick_agent p 2 d t s"
    have "frame {d} s (snd ?r)" using position_Some [OF Some] by (intro frame_try_tick) simp
    then show ?thesis
      using Some that frame_apply [of d "snd ?r" p _ t]
      by (auto simp: display_tick_def split_beta Let_def split: option.splits intro: frame_trans_same)
  qed
  moreover have "display_at s = (if state (agents s ! d) = Active then {d} else {})"
    using Some by (auto simp: display_at_def)
  ultimately show ?thesis using Some by (simp add: display_tick_def)
qed

lemma display_at_cong:
  "agents s' = agents s \<Longrightarrow> display_at s' = display_at s"
  by (simp add: display_at_def)

lemma position_names: "map name as = map name bs \<Longrightarrow> position (\<lambda>a. name a = n) as = position (\<lambda>a. name a = n) bs"
proof (induction as arbitrary: bs)
  case (Cons a as)
  then show ?case by (cases bs) auto
qed simp

text \<open>A step on a non-display agent cannot change which display would be painted.\<close>

lemma display_at_frame:
  assumes f: "frame {i} s s'" and "i < length (agents s)" "name (agents s ! i) \<noteq> bstr ''display''"
  shows "display_at s' = display_at s"
proof -
  have pos: "position (\<lambda>a. name a = bstr ''display'') (agents s') = position (\<lambda>a. name a = bstr ''display'') (agents s)"
    using f by (intro position_names) (simp add: frame_def)
  have "agents s' ! d = agents s ! d" if "position (\<lambda>a. name a = bstr ''display'') (agents s) = Some d" for d
    using position_Some [OF that] assms(3) frame_same [OF f] by auto
  then show ?thesis unfolding display_at_def pos by auto
qed

definition touched :: "('a, 'w) platform \<Rightarrow> bool \<Rightarrow> bool \<Rightarrow> bool \<Rightarrow> u64 \<Rightarrow> nat \<Rightarrow> ('a, 'w) sched \<Rightarrow> nat set" where
  "touched p off ui over t i s =
     (if eligible p off ui over t s i
      then insert i (if name (agents s ! i) = bstr ''display'' then {} else display_at s) else {})"

lemma frame_ui_boost:
  "frame (if nm = bstr ''display'' then {} else display_at s) s (fst (ui_boost p nm t (s, n)))"
proof (cases "nm = bstr ''display''")
  case False
  let ?s1 = "snd (ask_hook (ui_overdue_hook p) False s)"
  have "frame (display_at s) s ?s1" by (rule frame_statics) simp_all
  moreover have "frame (display_at s) ?s1 (fst (display_tick p t (?s1, n)))"
    using frame_display [of ?s1 p t n] by (simp add: display_at_def)
  ultimately show ?thesis
    using False by (auto simp: ui_boost_def split_beta Let_def intro: frame_trans_same)
qed (simp add: ui_boost_def)

lemma frame_wall_overrun:
  assumes "i < length (agents s)" "nm = name (agents s ! i)"
  shows "frame {i} s (wall_overrun p nm t s)"
  by (rule frame_direct [where a = "agents s ! i"])
     (use assms wall_overrun_frame [of p nm t s] in auto)

lemma frame_poll_enter:
  assumes "i < length (agents s)"
  shows "frame {i} s (snd (poll_enter p nm i s))"
  by (rule frame_direct [where a = "agents (snd (poll_enter p nm i s)) ! i"])
     (use assms in \<open>auto simp: poll_enter_def split_beta Let_def upd_agent_def\<close>)

lemma frame_poll_leave:
  assumes i: "i < length (agents s)" and nm: "nm = name (agents s ! i)"
  shows "frame (insert i (if nm = bstr ''display'' then {} else display_at s)) s
    (fst (poll_leave p nm i t t0 r n s))"
proof -
  let ?w = "wall_overrun p nm t0 (heartbeat p nm t0 s)"
  let ?s8 = "run_hooks PostTick nm t ?w"
  let ?s9 = "fst (ui_boost p nm t (?s8, sat_add n 1))"
  let ?D = "\<lambda>s. if nm = bstr ''display'' then {} else display_at s"
  have "frame {i} (heartbeat p nm t0 s) ?w" using assms by (intro frame_wall_overrun) simp_all
  moreover have "frame {i} s (heartbeat p nm t0 s)" "frame {i} ?w ?s8" by (rule frame_statics, simp_all)+
  ultimately have s8: "frame {i} s ?s8" by (blast intro: frame_trans_same)
  have "?D ?s8 = ?D s" using display_at_frame [OF s8 i] nm by auto
  then have s9: "frame (?D s) ?s8 ?s9" using frame_ui_boost [of nm ?s8 p t "sat_add n 1"] by simp
  have "frame ({i} \<union> ?D s \<union> {i}) s (apply_tick_result p i r t ?s9)"
    by (rule frame_trans [OF frame_trans [OF s8 s9] frame_apply])
  then show ?thesis by (simp add: poll_leave_def split_beta Let_def insert_commute)
qed

lemma frame_poll:
  assumes i: "i < length (agents s)"
  shows "frame (touched p off ui over t i s) s (fst (poll_agent p off ui over t i (s, n)))"
proof (cases "eligible p off ui over t s i")
  case False
  then show ?thesis by (simp add: poll_agent_def split_beta Let_def)
next
  case True
  define nm where "nm = name (agents s ! i)"
  define D where "D = (\<lambda>s :: ('a, 'b) sched. if nm = bstr ''display'' then {} else display_at s)"
  obtain ok s1 where c: "check_budget p i s = (ok, s1)" by fastforce
  obtain pass s2 where h: "ask (hooks_check PreTick nm t (reg_hooks s1)) s1 = (pass, s2)" by fastforce
  obtain t0 s3 where e: "poll_enter p nm i s2 = (t0, s3)" by fastforce
  obtain r s4 where k: "try_tick_agent p BSP_TICK_LOCK_BUDGET_MS i t s3 = (r, s4)" by fastforce
  let ?s5 = "s4\<lparr>tick_entered_ms := 0\<rparr>"
  have s1: "frame {i} s s1" using frame_check_budget [OF i, of p] by (simp add: c)
  have "frame {i} s1 (snd (ask (hooks_check PreTick nm t (reg_hooks s1)) s1))" by (rule frame_statics) simp_all
  then have s2: "frame {i} s s2" using frame_trans_same [OF s1] by (simp add: h)
  have s3: "frame {i} s s3"
    using frame_trans_same [OF s2] frame_poll_enter [of i s2 p nm] frame_length [OF s2] i by (simp add: e)
  have "frame {i} s s4"
    using frame_trans_same [OF s3] frame_try_tick [of i s3 p BSP_TICK_LOCK_BUDGET_MS t] frame_length [OF s3] i
    by (simp add: k)
  then have s5: "frame {i} s ?s5" by (rule frame_trans_same [OF _ frame_statics]) simp_all
  have "frame (insert i (D ?s5)) ?s5 (fst (poll_leave p nm i t t0 x n ?s5))" for x
    using frame_poll_leave [of i ?s5 nm] frame_length [OF s5] frame_name [OF s5 i] i by (simp add: D_def nm_def)
  moreover have "D ?s5 = D s" using display_at_frame [OF s5 i] by (auto simp: D_def nm_def)
  ultimately have leave: "frame (insert i (D s)) s (fst (poll_leave p nm i t t0 x n ?s5))" for x
    using frame_trans [OF s5, of "insert i (D s)"] by simp
  have small: "frame (insert i (D s)) s x" if "frame {i} s x" for x
    using that by (rule frame_mono) auto
  have "poll_agent p off ui over t i (s, n) =
      (if \<not> ok then (s1, n) else if \<not> pass then (s2, n)
       else case r of None \<Rightarrow> (?s5, n) | Some x \<Rightarrow> poll_leave p nm i t t0 x n ?s5)"
    using True by (simp add: poll_agent_def c h e k flip: nm_def) (simp add: Let_def)
  moreover have "touched p off ui over t i s = insert i (D s)"
    using True by (simp add: touched_def D_def nm_def)
  ultimately show ?thesis
    using small [OF s1] small [OF s2] small [OF s5] leave by (simp split: option.splits)
qed

section \<open>Cycles\<close>

lemma touched_active: "k \<in> touched p off ui over t i s \<Longrightarrow> state (agents s ! k) = Active"
  by (auto simp: touched_def display_at_def eligible_def Let_def split: if_splits)

lemma set_poll_order: "set (poll_order_by_affinity as) = {..<length as}"
  using arg_cong [OF mset_poll_order [of as], of set_mset] by (simp add: atLeast0LessThan)


text \<open>An invariant of the scheduler state that every poll keeps is kept by the whole poll loop.\<close>

lemma fold_polls:
  assumes "I s" "set xs \<subseteq> {..<length (agents s)}"
    and "\<And>s i n. I s \<Longrightarrow> i < length (agents s) \<Longrightarrow> I (fst (poll_agent p off ui over t i (s, n)))"
  shows "I (fst (fold (poll_agent p off ui over t) xs (s, n)))"
  using assms(1,2)
proof (induction xs arbitrary: s n)
  case (Cons i xs)
  let ?s = "poll_agent p off ui over t i (s, n)"
  have "length (agents (fst ?s)) = length (agents s)"
    using Cons.prems(2) by (intro frame_length [OF frame_poll]) simp
  moreover have "I (fst ?s)" using Cons.prems assms(3) by simp
  ultimately show ?case
    using Cons.IH [of "fst ?s" "snd ?s"] Cons.prems(2) by simp
qed simp


lemma cycle_polls_inv:
  assumes "I s" "\<And>s n. I s \<Longrightarrow> I (fst (display_tick p t (s, n)))"
    and "\<And>s i n. I s \<Longrightarrow> i < length (agents s) \<Longrightarrow> I (fst (poll_agent p off ui over t i (s, n)))"
  shows "I (fst (cycle_polls p t off ui over s))"
proof -
  obtain s1 n where d: "(if ui then display_tick p t (s, 0) else (s, 0)) = (s1, n)" by fastforce
  then have "I s1" using assms(1,2) by (metis fst_conv)
  then show ?thesis
    using fold_polls [where I = I, OF _ _ assms(3)] by (simp add: cycle_polls_def d set_poll_order)
qed

lemma respawn_appends: "\<exists>new. agents (respawn p t nm s) = agents s @ new"
proof -
  have "agents (activate_agent p (length as) (s1\<lparr>agents := as @ [x], bmgr := m\<rparr>)) = as @
      [x\<lparr>state := Active, agent := fst (ag_on_activate p (agent x) (world s1))\<rparr>]" for as x m and s1 :: "('a, 'b) sched"
    by (simp add: activate_agent_def upd_agent_def split_beta Let_def list_update_append)
  then show ?thesis by (auto simp: respawn_def split_beta Let_def split: option.splits)
qed

lemma respawns_append: "\<exists>new. agents (fold (respawn p t) nms s) = agents s @ new"
proof (induction nms arbitrary: s)
  case (Cons nm nms)
  then show ?case using respawn_appends [of p t nm s] by (metis append.assoc fold_simps(2))
qed simp

definition cycle_start :: "('a, 'w) platform \<Rightarrow> u64 \<Rightarrow> ('a, 'w) sched \<Rightarrow> bytes list \<times> ('a, 'w) sched" where
  "cycle_start p t s = ask (check_respawns p)
     ((trace_hook p (bstr ''>> TICK'') t s)\<lparr>bmgr := reset_all (bmgr s)\<rparr>)"

lemma cycle_prepare_state:
  assumes "cycle_prepare p t s = (off, ui, over, s1)"
  shows "agents s1 = agents (fold (respawn p t) (fst (cycle_start p t s)) (snd (cycle_start p t s)))"
    and "bmgr s1 = bmgr (fold (respawn p t) (fst (cycle_start p t s)) (snd (cycle_start p t s)))"
    and "reg_hooks s1 = reg_hooks (fold (respawn p t) (fst (cycle_start p t s)) (snd (cycle_start p t s)))"
proof -
  have s1: "s1 = snd (snd (snd (cycle_prepare p t s)))" using assms by simp
  show "agents s1 = agents (fold (respawn p t) (fst (cycle_start p t s)) (snd (cycle_start p t s)))"
    and "bmgr s1 = bmgr (fold (respawn p t) (fst (cycle_start p t s)) (snd (cycle_start p t s)))"
    and "reg_hooks s1 = reg_hooks (fold (respawn p t) (fst (cycle_start p t s)) (snd (cycle_start p t s)))"
    unfolding s1 by (simp_all add: cycle_prepare_def cycle_start_def split_beta Let_def)
qed

lemma cycle_prepare_appends:
  assumes "cycle_prepare p t s = (off, ui, over, s1)"
  shows "\<exists>new. agents s1 = agents s @ new"
  using respawns_append [of p t "fst (cycle_start p t s)" "snd (cycle_start p t s)"]
  by (simp add: cycle_prepare_state [OF assms]) (simp add: cycle_start_def)

definition decayed :: "'a agent_instance \<Rightarrow> 'a agent_instance" where
  "decayed a = (if novelty_score a > 0 then a\<lparr>novelty_score := novelty_score a - 1\<rparr> else a)"

lemma cycle_finish_agents: "agents (cycle_finish p t n s) = map decayed (agents s)"
  by (simp add: cycle_finish_def Let_def novelty_decay_def decayed_def [abs_def])

lemma cycle_split:
  obtains off ui over s1 n where "cycle_prepare p t s = (off, ui, over, s1)"
    "cycle p t s = cycle_finish p t n (fst (cycle_polls p t off ui over s1))"
proof -
  obtain off ui over s1 where a: "cycle_prepare p t s = (off, ui, over, s1)" by (metis prod_cases4)
  obtain s2 n where "cycle_polls p t off ui over s1 = (s2, n)" by fastforce
  with a that show thesis by (simp add: cycle_def)
qed

definition live_answer :: "('a, 'w) platform \<Rightarrow> bool \<Rightarrow> bool" where
  "live_answer p ui \<longleftrightarrow> (\<exists>s0 :: ('a, 'w) sched. ui = fst (ask_hook (ui_live_hook p) False s0))"

lemma cycle_inv:
  assumes "\<And>new s1. agents s1 = agents s @ new \<Longrightarrow> I s1"
    and "\<And>s n. I s \<Longrightarrow> I (fst (display_tick p t (s, n)))"
    and "\<And>s i n off ui over. I s \<Longrightarrow> i < length (agents s) \<Longrightarrow> live_answer p ui \<Longrightarrow>
      I (fst (poll_agent p off ui over t i (s, n)))"
  obtains s2 where "I s2" "agents (cycle p t s) = map decayed (agents s2)"
proof -
  obtain off ui over s1 n where c: "cycle_prepare p t s = (off, ui, over, s1)"
    "cycle p t s = cycle_finish p t n (fst (cycle_polls p t off ui over s1))" by (rule cycle_split)
  have "ui = fst (snd (cycle_prepare p t s))" using c(1) by simp
  then have ui: "live_answer p ui" by (auto simp: live_answer_def cycle_prepare_def split_beta Let_def)
  have "I s1" using cycle_prepare_appends [OF c(1)] assms(1) by blast
  then have "I (fst (cycle_polls p t off ui over s1))"
    by (rule cycle_polls_inv) (rule assms(2), assumption, rule assms(3) [OF _ _ ui], assumption+)
  then show thesis using that by (simp add: c(2) cycle_finish_agents)
qed

lemma decayed_frame [simp]:
  "agent (decayed a) = agent a" "state (decayed a) = state a" "tick_counter (decayed a) = tick_counter a"
  "name (decayed a) = name a" "schedule (decayed a) = schedule a"
  by (simp_all add: decayed_def)

text \<open>What stays of an agent that is not Active: everything but its novelty score.\<close>

definition parked :: "'a agent_instance \<Rightarrow> nat \<Rightarrow> ('a, 'w) sched \<Rightarrow> bool" where
  "parked a k s \<longleftrightarrow> k < length (agents s) \<and> state a \<noteq> Active \<and>
     (agents s ! k)\<lparr>novelty_score := 0\<rparr> = a\<lparr>novelty_score := 0\<rparr>"

lemma parked_state: "parked a k s \<Longrightarrow> state (agents s ! k) \<noteq> Active"
  unfolding parked_def by (metis agent_instance.select_convs(2) agent_instance.surjective agent_instance.update_convs(13))

lemma parked_poll:
  assumes "parked a k s" "i < length (agents s)"
  shows "parked a k (fst (poll_agent p off ui over t i (s, n)))"
proof -
  have f: "frame (touched p off ui over t i s) s (fst (poll_agent p off ui over t i (s, n)))"
    using assms(2) by (rule frame_poll)
  have "k \<notin> touched p off ui over t i s" using parked_state [OF assms(1)] touched_active by blast
  then show ?thesis
    using assms(1) frame_same [OF f] frame_length [OF f] by (simp add: parked_def)
qed

lemma parked_display:
  assumes "parked a k s"
  shows "parked a k (fst (display_tick p t (s, n)))"
proof -
  have "k \<notin> display_at s" using parked_state [OF assms] by (auto simp: display_at_def)
  then show ?thesis
    using assms frame_same [OF frame_display [of s p t n]] frame_length [OF frame_display [of s p t n]]
    by (simp add: parked_def)
qed

lemma parked_cycle:
  assumes "parked a k s"
  shows "parked a k (cycle p t s)"
proof (rule cycle_inv [where I = "parked a k" and p = p and t = t and s = s])
  fix new and s1 :: "('a, 'b) sched"
  assume "agents s1 = agents s @ new"
  then show "parked a k s1" using assms by (auto simp: parked_def nth_append)
next
  fix s2 assume "parked a k s2" "agents (cycle p t s) = map decayed (agents s2)"
  then show "parked a k (cycle p t s)" by (auto simp: parked_def decayed_def)
qed (auto intro: parked_display parked_poll)

lemma parked_run: "parked a k s \<Longrightarrow> parked a k (run_cycles p n t s)"
  by (induction n arbitrary: t s) (auto intro: parked_cycle)

text \<open>A second display instance behind a dead one, while the desktop is live.\<close>

definition shadowed :: "'a agent_instance \<Rightarrow> nat \<Rightarrow> 'a agent_instance \<Rightarrow> nat \<Rightarrow> ('a, 'w) sched \<Rightarrow> bool" where
  "shadowed a d b j s \<longleftrightarrow> parked a d s \<and>
     position (\<lambda>a. name a = bstr ''display'') (agents s) = Some d \<and>
     j < length (agents s) \<and> name b = bstr ''display'' \<and>
     (agents s ! j)\<lparr>novelty_score := 0\<rparr> = b\<lparr>novelty_score := 0\<rparr>"

lemma shadowed_name: "shadowed a d b j s \<Longrightarrow> name (agents s ! j) = bstr ''display''"
  unfolding shadowed_def
  by (metis agent_instance.select_convs(5) agent_instance.surjective agent_instance.update_convs(13))

lemma shadowed_frame:
  assumes s: "shadowed a d b j s" and f: "frame J s s'" and "j \<notin> J" "parked a d s'"
  shows "shadowed a d b j s'"
proof -
  have "position (\<lambda>a. name a = bstr ''display'') (agents s') = position (\<lambda>a. name a = bstr ''display'') (agents s)"
    using f by (intro position_names) (simp add: frame_def)
  then show ?thesis
    using s assms(3,4) frame_same [OF f, of j] frame_length [OF f] by (simp add: shadowed_def)
qed

lemma shadowed_no_display: "shadowed a d b j s \<Longrightarrow> display_at s = {}"
  using parked_state [of a d s] by (auto simp: shadowed_def display_at_def)

lemma shadowed_poll:
  assumes s: "shadowed a d b j s" and i: "i < length (agents s)"
  shows "shadowed a d b j (fst (poll_agent p off True over t i (s, n)))"
proof (rule shadowed_frame [OF s frame_poll [OF i]])
  show "parked a d (fst (poll_agent p off True over t i (s, n)))"
    using s i by (auto simp: shadowed_def intro: parked_poll)
  have "\<not> eligible p off True over t s j" using shadowed_name [OF s] by (simp add: eligible_def Let_def)
  then show "j \<notin> touched p off True over t i s"
    using shadowed_no_display [OF s] by (auto simp: touched_def)
qed

lemma shadowed_display:
  assumes s: "shadowed a d b j s"
  shows "shadowed a d b j (fst (display_tick p t (s, n)))"
  by (rule shadowed_frame [OF s frame_display])
     (use s shadowed_no_display [OF s] in \<open>auto simp: shadowed_def intro: parked_display\<close>)

lemma position_append: "position P xs = Some i \<Longrightarrow> position P (xs @ ys) = Some i"
  by (induction xs arbitrary: i) (auto split: if_splits)

lemma shadowed_cycle:
  assumes s: "shadowed a d b j s" and ui: "\<And>ui. live_answer p ui \<Longrightarrow> ui"
  shows "shadowed a d b j (cycle p t s)"
proof (rule cycle_inv [where I = "shadowed a d b j" and p = p and t = t and s = s])
  fix new and s1 :: "('a, 'b) sched"
  assume "agents s1 = agents s @ new"
  then show "shadowed a d b j s1"
    using s by (auto simp: shadowed_def parked_def nth_append position_append)
next
  fix s2 assume s2: "shadowed a d b j s2" "agents (cycle p t s) = map decayed (agents s2)"
  have "position (\<lambda>a. name a = bstr ''display'') (map decayed (agents s2)) =
      position (\<lambda>a. name a = bstr ''display'') (agents s2)"
    by (rule position_names) simp
  then show "shadowed a d b j (cycle p t s)" using s2 by (auto simp: shadowed_def parked_def decayed_def)
next
  fix s :: "('a, 'b) sched" and i n off ui over
  assume "shadowed a d b j s" "i < length (agents s)" "live_answer p ui"
  then show "shadowed a d b j (fst (poll_agent p off ui over t i (s, n)))"
    using ui [of ui] shadowed_poll [of a d b j s i p off over t n] by simp
qed (auto intro: shadowed_display)

lemma shadowed_run:
  "shadowed a d b j s \<Longrightarrow> (\<And>ui. live_answer p ui \<Longrightarrow> ui) \<Longrightarrow> shadowed a d b j (run_cycles p n t s)"
  by (induction n arbitrary: t s) (auto intro: shadowed_cycle)

subsection \<open>An interactive agent is polled in every cycle\<close>















section \<open>Properties\<close>

text \<open>
  C10.  The scheduler never revives an agent: one that is not Active (Inactive, Done or
  Crashed) keeps its private state, its state, its tick count and every other field but the
  novelty score through any number of cycles, whatever the hooks, clocks, locks and other agents do.
\<close>

theorem inert_agents_untouched:
  assumes "k < length (agents s)" "state (agents s ! k) \<noteq> Active"
  shows "k < length (agents (run_cycles p n t s)) \<and>
    (agents (run_cycles p n t s) ! k)\<lparr>novelty_score := 0\<rparr> = (agents s ! k)\<lparr>novelty_score := 0\<rparr>"
proof -
  have "parked (agents s ! k) k s" using assms by (simp add: parked_def)
  from parked_run [OF this, of p n t] show ?thesis by (simp add: parked_def)
qed

text \<open>A platform for the witnesses: a live desktop, free locks, agents that are always pending.\<close>

definition demo_agent :: "string \<Rightarrow> agent_manifest" where
  "demo_agent nm = \<lparr>mf_name = bstr nm, mf_kind = System, mf_schedule = Continuous, mf_auto_start = True,
     mf_persist = True\<rparr>"

definition demo_platform :: "(agent_manifest, nat) platform" where
  "demo_platform = \<lparr>ag_manifest = (\<lambda>m. m), ag_tick = (\<lambda>m t tc w. (TickPending, m, Suc w)),
     ag_on_activate = (\<lambda>m w. (m, w)), ag_has_pending = (\<lambda>m w. False),
     clock_hook = Some (\<lambda>w. (of_nat w, w)), slow_hook = None, ui_overdue_hook = None,
     ui_live_hook = Some (\<lambda>w. (True, w)), smp_offload_predicate = None, smp_distribute = None,
     tick_lock = (\<lambda>b w. (True, w)), tick_stamp_fn = 0, call_stamp = (\<lambda>f nm w. w), tick_stage_fn = 0,
     call_stage = (\<lambda>f n w. w), heartbeat_hook = 0, heartbeat_min_ms = 0, call_heartbeat = (\<lambda>f nm d w. w),
     sched_metrics_hook = None, bei_tick_hook = None, budget_event_hook = None, init_trace = None,
     halt = (\<lambda>w. w), check_respawns = (\<lambda>w. ([], w)), spawn_agent = (\<lambda>nm w. (Some (demo_agent ''display''), w))\<rparr>"

text \<open>A crashed display with a respawned one behind it, and a console.\<close>

definition demo_state :: "(agent_manifest, nat) sched" where
  "demo_state =
     (let s1 = snd (reg_register demo_platform (demo_agent ''display'') (registry_new 1));
          s2 = snd (reg_register demo_platform (demo_agent ''hermes_console'') s1);
          s3 = upd_agent 0 (\<lambda>a. a\<lparr>state := Crashed\<rparr>) (activate demo_platform 1 s2)
      in respawn demo_platform 1 (bstr ''display'') s3)"

lemmas demo_eval = demo_state_def demo_platform_def demo_agent_def reg_register_def registry_new_def activate_def
  activate_agent_def respawn_def upd_agent_def instance_new_def ask_def run_hooks_def on_world_def
  default_urgency_def

lemma demo_agents:
  "length (agents demo_state) = 3" "state (agents demo_state ! 0) = Crashed"
  "name (agents demo_state ! 0) = bstr ''display''" "name (agents demo_state ! 2) = bstr ''display''"
  "state (agents demo_state ! 2) = Active" "tick_counter (agents demo_state ! 2) = 0"
  by (simp_all add: demo_eval)

theorem inert_agents_untouched_witness:
  "state (agents (run_cycles demo_platform 5 1 demo_state) ! 0) = Crashed"
proof -
  have "state (agents (run_cycles demo_platform 5 1 demo_state) ! 0) =
      state ((agents (run_cycles demo_platform 5 1 demo_state) ! 0)\<lparr>novelty_score := 0\<rparr>)" by simp
  also have "\<dots> = Crashed"
    using inert_agents_untouched [of 0 demo_state demo_platform 5 1] by (simp add: demo_agents)
  finally show ?thesis .
qed

text \<open>
  C8.  Defect: after the display agent has crashed and was respawned, the new instance is never
  ticked while the desktop is live, for any number of cycles.  \<^verbatim>\<open>position\<close> finds the dead first
  instance, and the main loop skips every agent named \<^verbatim>\<open>display\<close>.
\<close>

theorem respawned_display_starves:
  fixes p :: "('a, 'w) platform"
  assumes live: "ui_live_hook p = Some h" "\<And>w. fst (h w)"
    and "position (\<lambda>a. name a = bstr ''display'') (agents s) = Some d" "state (agents s ! d) = Crashed"
    and "j < length (agents s)" "name (agents s ! j) = bstr ''display''"
  shows "tick_counter (agents (run_cycles p n t s) ! j) = tick_counter (agents s ! j) \<and>
    agent (agents (run_cycles p n t s) ! j) = agent (agents s ! j)"
proof -
  have ui: "ui" if ans: "live_answer p ui" for ui
  proof -
    obtain s0 :: "('a, 'w) sched" where "ui = fst (ask_hook (ui_live_hook p) False s0)"
      using ans by (auto simp: live_answer_def)
    with live show ?thesis by (simp add: ask_hook_def ask_def split_beta Let_def)
  qed
  have "shadowed (agents s ! d) d (agents s ! j) j s"
    using assms(3-6) position_Some [OF assms(3)] by (simp add: shadowed_def parked_def)
  from shadowed_run [OF this ui] have
    "(agents (run_cycles p n t s) ! j)\<lparr>novelty_score := 0\<rparr> = (agents s ! j)\<lparr>novelty_score := 0\<rparr>"
    by (simp add: shadowed_def)
  then show ?thesis
    by (metis (no_types, lifting) agent_instance.ext_inject agent_instance.surjective agent_instance.update_convs(13))
qed

theorem respawned_display_starves_witness:
  "state (agents demo_state ! 2) = Active \<and> tick_counter (agents (run_cycles demo_platform 100 1 demo_state) ! 2) = 0"
  using respawned_display_starves [of demo_platform "\<lambda>w. (True, w)" demo_state 0 2 100 1]
  by (simp add: demo_eval)




end
