(* ===== verification/SchedulerBoot.thy ===== *)
theory SchedulerBoot
  imports SchedulerProofs
begin

text \<open>
  Theorems on the parts of the scheduler with a time bound: the pause and recovery of an agent by the
  budget watchdog, the boot phase with its 10000 rounds, and the spin on the tick lock.
\<close>

section \<open>Pause, recovery and crash\<close>
















section \<open>The boot phase\<close>












section \<open>Properties\<close>








text \<open>
  C13.  The bounded spin on the tick lock returns: as soon as some clock reading is past the budget
  (at attempt \<open>n\<close>, in wrapping arithmetic), the loop has returned within \<open>n + 1\<close> attempts.  It holds the lock
  exactly if an attempt found it free before the clock ran past the budget.
\<close>

theorem tick_lock_returns:
  assumes "c n - t0 > budget_ms"
  shows "tick_lock_spin (Suc n) 0 budget_ms t0 busy (Some c) =
    Some (\<exists>m \<le> n. \<not> busy m \<and> (\<forall>k < m. c k - t0 \<le> budget_ms))"
proof -
  have "tick_lock_spin (Suc d) i budget_ms t0 busy (Some c) =
      Some (\<exists>m. i \<le> m \<and> m \<le> n \<and> \<not> busy m \<and> (\<forall>k. i \<le> k \<and> k < m \<longrightarrow> c k - t0 \<le> budget_ms))"
    if "i + d = n" for d i
    using that
  proof (induction d arbitrary: i)
    case 0
    then show ?case using assms by (auto simp: not_le [symmetric])
  next
    case (Suc d)
    show ?case
    proof (cases "busy i \<and> c i - t0 \<le> budget_ms")
      case True
      have split: "(i \<le> m \<and> m \<le> n \<and> \<not> busy m \<and> (\<forall>k. i \<le> k \<and> k < m \<longrightarrow> c k - t0 \<le> budget_ms)) \<longleftrightarrow>
          (Suc i \<le> m \<and> m \<le> n \<and> \<not> busy m \<and> (\<forall>k. Suc i \<le> k \<and> k < m \<longrightarrow> c k - t0 \<le> budget_ms))" for m
        using True by (metis Suc_leD Suc_leI le_neq_implies_less)
      have "\<not> budget_ms < c i - t0" using True by (simp add: not_less)
      then have "tick_lock_spin (Suc (Suc d)) i budget_ms t0 busy (Some c) =
          tick_lock_spin (Suc d) (Suc i) budget_ms t0 busy (Some c)" using True by simp
      then show ?thesis using Suc.IH [of "Suc i"] Suc.prems unfolding split by (simp del: tick_lock_spin.simps)
    next
      case False
      have "i < m" if "i \<le> m" "busy i" "\<not> busy m" for m using that by (cases "i = m") auto
      with False Suc.prems show ?thesis by (auto simp: not_le intro!: exI [of _ i] dest: spec [of _ i])
    qed
  qed
  from this [of 0 n] show ?thesis by simp
qed

theorem tick_lock_returns_witness:
  "tick_lock_spin 4 0 2 (- 1) (\<lambda>i. i < 7) (Some (\<lambda>i. of_nat i)) = Some False"
proof -
  have "\<not> (\<exists>m \<le> 3. \<not> m < 7 \<and> (\<forall>k < m. (of_nat k :: u64) - (- 1) \<le> 2))" by auto
  with tick_lock_returns [of "2 :: u64" "\<lambda>i. of_nat i" 3 "- 1" "\<lambda>i. i < 7"] show ?thesis by simp
qed

end
