(* ===== verification/Crew.thy ===== *)
theory Crew
  imports Prelude
begin

text \<open>
  \<^verbatim>\<open>crates/agent-core/src/crew.rs\<close> and \<^verbatim>\<open>state_graph.rs\<close>: crews of agents with task dependencies, and the
  conditional state graph.  The condition of an edge is code of the caller, a function of the
  world \<open>'w\<close> it may change.
\<close>

section \<open>Crews\<close>

datatype process_type = Sequential | Hierarchical

datatype output_schema = AnyOutput | StringOutput | JsonOutput "bytes list"

record scheduled_task =
  task_id :: u16
  description :: bytes
  task_agent :: bytes
  task_skill :: bytes
  depends_on :: "u16 list"
  expected_output :: output_schema
  task_priority :: u8
  task_done :: bool
  task_result :: bytes

record crew =
  crew_id :: u16
  crew_name :: bytes
  goal :: bytes
  process :: process_type
  agent_ids :: "nat list"
  tasks :: "scheduled_task list"
  crew_active :: bool

definition crew_new :: "u16 \<Rightarrow> bytes \<Rightarrow> bytes \<Rightarrow> process_type \<Rightarrow> crew" where
  "crew_new i nm g proc =
     \<lparr>crew_id = i, crew_name = nm, goal = g, process = proc, agent_ids = [], tasks = [], crew_active = False\<rparr>"

text \<open>\<^verbatim>\<open>self.tasks.len() as u16 + 1\<close> truncates and wraps, as in a release build.\<close>

definition add_task :: "bytes \<Rightarrow> bytes \<Rightarrow> bytes \<Rightarrow> crew \<Rightarrow> u16 \<times> crew" where
  "add_task desc ag sk c =
     (let i = of_nat (length (tasks c)) + 1
      in (i, c\<lparr>tasks := tasks c @ [\<lparr>task_id = i, description = desc, task_agent = ag, task_skill = sk,
             depends_on = [], expected_output = AnyOutput, task_priority = 5, task_done = False,
             task_result = []\<rparr>]\<rparr>))"

record crew_pool =
  crews :: "crew list"
  next_crew_id :: u16

definition pool_new :: crew_pool where
  "pool_new = \<lparr>crews = [], next_crew_id = 1\<rparr>"

definition pool_create :: "bytes \<Rightarrow> bytes \<Rightarrow> process_type \<Rightarrow> crew_pool \<Rightarrow> u16 \<times> crew_pool" where
  "pool_create nm g proc p =
     (let i = next_crew_id p
      in (i, p\<lparr>next_crew_id := i + 1, crews := crews p @ [crew_new i nm g proc]\<rparr>))"

text \<open>\<^verbatim>\<open>iter_mut().find(..)\<close>: update the first element that satisfies the predicate.\<close>

fun update_first :: "('x \<Rightarrow> bool) \<Rightarrow> ('x \<Rightarrow> 'x) \<Rightarrow> 'x list \<Rightarrow> 'x list" where
  "update_first P f [] = []"
| "update_first P f (x # xs) = (if P x then f x # xs else x # update_first P f xs)"

definition pool_get :: "u16 \<Rightarrow> crew_pool \<Rightarrow> crew option" where
  "pool_get i p = find (\<lambda>c. crew_id c = i) (crews p)"

definition pool_get_mut :: "u16 \<Rightarrow> (crew \<Rightarrow> crew) \<Rightarrow> crew_pool \<Rightarrow> crew_pool" where
  "pool_get_mut i f p = p\<lparr>crews := update_first (\<lambda>c. crew_id c = i) f (crews p)\<rparr>"

definition assign_to_crew :: "u16 \<Rightarrow> nat \<Rightarrow> crew_pool \<Rightarrow> crew_pool" where
  "assign_to_crew i agent_idx =
     pool_get_mut i (\<lambda>c. if agent_idx \<notin> set (agent_ids c) then c\<lparr>agent_ids := agent_ids c @ [agent_idx]\<rparr> else c)"

definition kickoff :: "u16 \<Rightarrow> crew_pool \<Rightarrow> bool \<times> crew_pool" where
  "kickoff i p =
     (case pool_get i p of
        None \<Rightarrow> (False, p)
      | Some c \<Rightarrow> (True, pool_get_mut i (\<lambda>c. c\<lparr>crew_active := True\<rparr>) p))"

definition task_ready :: "scheduled_task list \<Rightarrow> scheduled_task \<Rightarrow> bool" where
  "task_ready ts t \<longleftrightarrow> \<not> task_done t \<and>
     list_all (\<lambda>dep. case find (\<lambda>dt. task_id dt = dep) ts of None \<Rightarrow> True | Some dt \<Rightarrow> task_done dt) (depends_on t)"

definition next_ready_task :: "u16 \<Rightarrow> crew_pool \<Rightarrow> scheduled_task option" where
  "next_ready_task i p =
     (case pool_get i p of
        None \<Rightarrow> None
      | Some c \<Rightarrow> if \<not> crew_active c then None else find (task_ready (tasks c)) (tasks c))"

definition finish_task :: "u16 \<Rightarrow> bytes \<Rightarrow> crew \<Rightarrow> crew" where
  "finish_task tid res c =
     (let c1 = c\<lparr>tasks := update_first (\<lambda>t. task_id t = tid) (\<lambda>t. t\<lparr>task_done := True, task_result := res\<rparr>) (tasks c)\<rparr>
      in if list_all task_done (tasks c1) then c1\<lparr>crew_active := False\<rparr> else c1)"

definition complete_task :: "u16 \<Rightarrow> u16 \<Rightarrow> bytes \<Rightarrow> crew_pool \<Rightarrow> crew_pool" where
  "complete_task i tid res = pool_get_mut i (finish_task tid res)"

definition pool_list :: "crew_pool \<Rightarrow> crew list" where
  "pool_list p = filter crew_active (crews p)"

section \<open>State graph\<close>

record 'w graph_edge =
  edge_from :: nat
  edge_to :: nat
  edge_condition :: "'w \<Rightarrow> bool \<times> 'w"
  edge_label :: bytes

record 'w state_graph =
  nodes :: "(bytes \<times> bytes) list"
  edges :: "'w graph_edge list"
  current :: "nat option"
  start_node :: nat

definition graph_new :: "'w state_graph" where
  "graph_new = \<lparr>nodes = [], edges = [], current = None, start_node = 0\<rparr>"

definition add_node :: "bytes \<Rightarrow> bytes \<Rightarrow> 'w state_graph \<Rightarrow> nat \<times> 'w state_graph" where
  "add_node nm desc g = (length (nodes g), g\<lparr>nodes := nodes g @ [(nm, desc)]\<rparr>)"

definition add_edge :: "nat \<Rightarrow> nat \<Rightarrow> ('w \<Rightarrow> bool \<times> 'w) \<Rightarrow> bytes \<Rightarrow> 'w state_graph \<Rightarrow> 'w state_graph" where
  "add_edge src dst cond lbl g =
     g\<lparr>edges := edges g @ [\<lparr>edge_from = src, edge_to = dst, edge_condition = cond, edge_label = lbl\<rparr>]\<rparr>"


definition graph_here :: "'w state_graph \<Rightarrow> nat" where
  "graph_here g = (case current g of None \<Rightarrow> start_node g | Some n \<Rightarrow> n)"


definition current_agent :: "'w state_graph \<Rightarrow> bytes option" where
  "current_agent g = (if graph_here g < length (nodes g) then Some (fst (nodes g ! graph_here g)) else None)"

section \<open>Running a crew\<close>

text \<open>A driver that repeatedly takes the next ready task and completes it.\<close>

fun crew_run :: "nat \<Rightarrow> u16 \<Rightarrow> crew_pool \<Rightarrow> u16 list \<times> crew_pool" where
  "crew_run 0 i p = ([], p)"
| "crew_run (Suc n) i p =
     (case next_ready_task i p of
        None \<Rightarrow> ([], p)
      | Some t \<Rightarrow> (let (ids, p') = crew_run n i (complete_task i (task_id t) [] p) in (task_id t # ids, p')))"

text \<open>Well-formed tasks: distinct ids, and a task depends only on tasks listed before it or unknown ids.\<close>

definition tasks_wf :: "scheduled_task list \<Rightarrow> bool" where
  "tasks_wf ts \<longleftrightarrow> distinct (map task_id ts) \<and>
     (\<forall>k < length ts. \<forall>d \<in> set (depends_on (ts ! k)). d \<notin> task_id ` set (drop k ts))"

definition open_tasks :: "scheduled_task list \<Rightarrow> u16 list" where
  "open_tasks ts = map task_id (filter (\<lambda>t. \<not> task_done t) ts)"

definition mark_done :: "u16 \<Rightarrow> scheduled_task list \<Rightarrow> scheduled_task list" where
  "mark_done tid ts = update_first (\<lambda>t. task_id t = tid) (\<lambda>t. t\<lparr>task_done := True, task_result := []\<rparr>) ts"

lemma pool_get_update:
  assumes "pool_get i p = Some c" "crew_id (f c) = i"
  shows "pool_get i (pool_get_mut i f p) = Some (f c)"
proof -
  have "find (\<lambda>c. crew_id c = i) xs = Some c \<Longrightarrow> find (\<lambda>c. crew_id c = i) (update_first (\<lambda>c. crew_id c = i) f xs) = Some (f c)" for xs
    using assms(2) by (induction xs) (auto split: if_splits)
  then show ?thesis using assms(1) by (simp add: pool_get_def pool_get_mut_def)
qed

lemma pool_get_id: "pool_get i p = Some c \<Longrightarrow> crew_id c = i"
  by (auto simp: pool_get_def find_Some_iff)

lemma find_split:
  "find P xs = Some x \<Longrightarrow> \<exists>ys zs. xs = ys @ x # zs \<and> P x \<and> (\<forall>y \<in> set ys. \<not> P y)"
proof (induction xs)
  case (Cons a xs)
  show ?case
  proof (cases "P a")
    case True
    with Cons.prems have "a # xs = [] @ x # xs \<and> P x \<and> (\<forall>y \<in> set []. \<not> P y)" by simp
    then show ?thesis by blast
  next
    case False
    with Cons obtain ys zs where "xs = ys @ x # zs" "P x" "\<forall>y \<in> set ys. \<not> P y" by auto
    with False have "a # xs = (a # ys) @ x # zs \<and> P x \<and> (\<forall>y \<in> set (a # ys). \<not> P y)" by simp
    then show ?thesis by blast
  qed
qed simp

lemma find_splitI: "\<forall>y \<in> set ys. \<not> P y \<Longrightarrow> P x \<Longrightarrow> find P (ys @ x # zs) = Some x"
  by (induction ys) auto

lemma update_first_split:
  "\<forall>y \<in> set ys. \<not> P y \<Longrightarrow> P x \<Longrightarrow> update_first P f (ys @ x # zs) = ys @ f x # zs"
  by (induction ys) auto

text \<open>In well-formed tasks the first open task is ready, so the first ready task is the first open one.\<close>

lemma next_is_first_open:
  assumes wf: "tasks_wf ts" and "open_tasks ts = d # ds"
  obtains ys t zs where "ts = ys @ t # zs" "find (task_ready ts) ts = Some t" "task_id t = d"
    "\<forall>y \<in> set ys. task_done y" "\<not> task_done t"
proof -
  have "filter (\<lambda>t. \<not> task_done t) ts \<noteq> []" using assms(2) by (auto simp: open_tasks_def)
  then have "find (\<lambda>t. \<not> task_done t) ts \<noteq> None" by (auto simp: find_None_iff filter_empty_conv)
  then obtain t where "find (\<lambda>t. \<not> task_done t) ts = Some t" by blast
  then obtain ys zs where ts: "ts = ys @ t # zs" "\<not> task_done t" "\<forall>y \<in> set ys. task_done y"
    using find_split by fastforce
  have "task_done dt" if "dep \<in> set (depends_on t)" "find (\<lambda>dt. task_id dt = dep) ts = Some dt" for dep dt
  proof -
    have "dt \<in> set ts" "task_id dt = dep" using that(2) by (auto simp: find_Some_iff)
    moreover have "dep \<notin> task_id ` set (drop (length ys) ts)"
      using wf that(1) ts(1) unfolding tasks_wf_def by (metis length_append length_Cons less_add_Suc1 add_Suc_right nth_append_length)
    ultimately show ?thesis using ts by auto
  qed
  then have "task_ready ts t" using ts(2) by (auto simp: task_ready_def list_all_iff split: option.splits)
  moreover have "\<not> task_ready ts y" if "y \<in> set ys" for y using ts(3) that by (simp add: task_ready_def)
  ultimately have "find (task_ready ts) ts = Some t"
    unfolding ts(1) by (intro find_splitI) simp_all
  moreover have "task_id t = d" using assms(2) ts by (simp add: open_tasks_def)
  ultimately show thesis using that ts by blast
qed

lemma mark_done_props:
  assumes wf: "tasks_wf ts" and o: "open_tasks ts = d # ds"
  shows "tasks_wf (mark_done d ts)" "open_tasks (mark_done d ts) = ds"
proof -
  obtain ys t zs where ts: "ts = ys @ t # zs" "task_id t = d" "\<forall>y \<in> set ys. task_done y" "\<not> task_done t"
    by (rule next_is_first_open [OF wf o]) blast
  let ?t = "t\<lparr>task_done := True, task_result := []\<rparr>"
  have "distinct (map task_id ts)" using wf by (simp add: tasks_wf_def)
  then have "\<forall>y \<in> set ys. task_id y \<noteq> d" unfolding ts(1) ts(2) [symmetric]
    by (auto dest: arg_cong [of _ _ task_id] simp: image_iff)
  then have m: "mark_done d ts = ys @ ?t # zs" using ts by (simp add: mark_done_def update_first_split)
  show "open_tasks (mark_done d ts) = ds" using o ts(3,4) unfolding m by (simp add: open_tasks_def ts(1))
  have l: "length (mark_done d ts) = length ts" "map task_id (mark_done d ts) = map task_id ts"
    unfolding m by (simp_all add: ts(1))
  have dep: "depends_on (mark_done d ts ! k) = depends_on (ts ! k)" for k
    unfolding m by (simp add: ts(1) nth_append nth_Cons split: nat.split)
  have "map task_id (drop k (mark_done d ts)) = map task_id (drop k ts)" for k
    using l(2) by (metis drop_map)
  then have img: "task_id ` set (drop k (mark_done d ts)) = task_id ` set (drop k ts)" for k
    by (metis set_map)
  show "tasks_wf (mark_done d ts)" using wf by (simp add: tasks_wf_def l dep img)
qed

lemma finish_task_mark:
  assumes "tasks_wf (tasks c)" "open_tasks (tasks c) = d # ds"
  shows "tasks (finish_task d [] c) = mark_done d (tasks c)" "crew_id (finish_task d [] c) = crew_id c"
    "crew_active (finish_task d [] c) = (if ds = [] then False else crew_active c)"
proof -
  have "list_all task_done (mark_done d (tasks c)) \<longleftrightarrow> ds = []"
    using mark_done_props(2) [OF assms] by (auto simp: open_tasks_def list_all_iff filter_empty_conv)
  then show "tasks (finish_task d [] c) = mark_done d (tasks c)" "crew_id (finish_task d [] c) = crew_id c"
    "crew_active (finish_task d [] c) = (if ds = [] then False else crew_active c)"
    by (simp_all add: finish_task_def Let_def mark_done_def)
qed

lemma crew_run_open:
  assumes "pool_get i p = Some c" "crew_active c" "tasks_wf (tasks c)" "open_tasks (tasks c) = d # ds"
    and "length ds < n"
  shows "fst (crew_run n i p) = d # ds \<and>
    (\<exists>c'. pool_get i (snd (crew_run n i p)) = Some c' \<and> \<not> crew_active c' \<and> list_all task_done (tasks c'))"
  using assms
proof (induction n arbitrary: p c d ds)
  case (Suc n)
  note c = Suc.prems(3,4)
  obtain t where t: "find (task_ready (tasks c)) (tasks c) = Some t" "task_id t = d"
    by (rule next_is_first_open [OF c]) blast
  let ?c = "finish_task d [] c" and ?p = "complete_task i d [] p"
  have p: "pool_get i ?p = Some ?c"
    unfolding complete_task_def
    by (rule pool_get_update [OF Suc.prems(1)]) (simp add: finish_task_mark [OF c] pool_get_id [OF Suc.prems(1)])
  have run: "crew_run (Suc n) i p = (d # fst (crew_run n i ?p), snd (crew_run n i ?p))"
    using Suc.prems(1,2) t by (simp add: next_ready_task_def split_beta Let_def)
  note wf = mark_done_props [OF c] and fin = finish_task_mark [OF c]
  show ?case
  proof (cases ds)
    case Nil
    have "list_all task_done (tasks ?c)"
      using wf(2) Nil by (auto simp: fin open_tasks_def list_all_iff filter_empty_conv)
    moreover have "crew_run n i ?p = ([], ?p)"
      using p fin(3) Nil by (cases n) (simp_all add: next_ready_task_def)
    ultimately show ?thesis using p fin(3) Nil unfolding run by simp
  next
    case (Cons e es)
    have "fst (crew_run n i ?p) = e # es \<and>
        (\<exists>c'. pool_get i (snd (crew_run n i ?p)) = Some c' \<and> \<not> crew_active c' \<and> list_all task_done (tasks c'))"
      by (rule Suc.IH [OF p]) (use Suc.prems Cons wf in \<open>simp_all add: fin\<close>)
    then show ?thesis unfolding run by (simp add: Cons)
  qed
qed simp

section \<open>Properties\<close>

text \<open>
  C25.  A crew whose tasks depend only on earlier tasks (or on unknown ids, which count as done) never deadlocks: taking
  \<^verbatim>\<open>next_ready_task\<close> and completing it, again and again, performs every open task exactly once and in list order, and
  the last completion deactivates the crew.
\<close>

theorem crew_completes:
  assumes "pool_get i p = Some c" "crew_active c" "tasks_wf (tasks c)" "open_tasks (tasks c) \<noteq> []"
    and "length (open_tasks (tasks c)) \<le> n"
  shows "fst (crew_run n i p) = open_tasks (tasks c) \<and>
    (\<exists>c'. pool_get i (snd (crew_run n i p)) = Some c' \<and> \<not> crew_active c' \<and> list_all task_done (tasks c'))"
proof -
  obtain d ds where "open_tasks (tasks c) = d # ds" using assms(4) by (cases "open_tasks (tasks c)") auto
  with crew_run_open [OF assms(1-3), of d ds n] assms(5) show ?thesis by simp
qed

definition sample_crew :: crew where
  "sample_crew =
     (let c = snd (add_task [2] [2] [2] (snd (add_task [1] [1] [1] (crew_new 1 [7] [8] Sequential))))
      in c\<lparr>tasks := update_first (\<lambda>t. task_id t = 2) (\<lambda>t. t\<lparr>depends_on := [1, 9]\<rparr>) (tasks c)\<rparr>)"

definition sample_pool :: crew_pool where
  "sample_pool = snd (kickoff 1 \<lparr>crews = [sample_crew], next_crew_id = 2\<rparr>)"

theorem crew_completes_witness: "fst (crew_run 2 1 sample_pool) = [1, 2]"
proof -
  define c where "c = sample_crew\<lparr>crew_active := True\<rparr>"
  have c: "pool_get 1 sample_pool = Some c"
    by (simp add: sample_pool_def kickoff_def pool_get_def pool_get_mut_def c_def sample_crew_def add_task_def
        crew_new_def Let_def)
  have t: "tasks_wf (tasks c)"
    by (auto simp: tasks_wf_def c_def sample_crew_def add_task_def crew_new_def Let_def less_Suc_eq)
  have "open_tasks (tasks c) = [1, 2]"
    by (simp add: open_tasks_def c_def sample_crew_def add_task_def crew_new_def Let_def)
  with crew_completes [OF c _ t, of 2] show ?thesis by (simp add: c_def)
qed


end
