(* ===== verification/Skills.thy ===== *)
theory Skills
  imports Capability
begin

text \<open>
  The crate \<^verbatim>\<open>skill-registry\<close>: output schemas and contracts (\<^verbatim>\<open>mcp.rs\<close>, \<^verbatim>\<open>contract.rs\<close>), the registry with its
  policy and token gates (\<^verbatim>\<open>registry.rs\<close>), the output cache (\<^verbatim>\<open>cache.rs\<close>) and the skills generated at run
  time (\<^verbatim>\<open>dynskill.rs\<close>).  A skill (\<^verbatim>\<open>Box<dyn Skill>\<close>) is code of other crates: its three methods are functions
  of the payload, kept in a record.
\<close>

section \<open>Manifests and contracts\<close>

datatype output_schema = AnyOut | StringOut | JsonOut "bytes list"

fun schema_validate :: "output_schema \<Rightarrow> bytes \<Rightarrow> bool" where
  "schema_validate AnyOut output \<longleftrightarrow> True"
| "schema_validate StringOut output \<longleftrightarrow> from_utf8 output"
| "schema_validate (JsonOut keys) output \<longleftrightarrow> from_utf8 output \<and> list_all (\<lambda>k. contains output k) keys"

datatype contract_action = WarnOnly | RejectOutput | RetrySkill

record completion_contract =
  contract_name :: bytes
  validate :: "bytes \<Rightarrow> unit res"
  on_failure :: contract_action

definition contract_verify :: "completion_contract \<Rightarrow> bytes \<Rightarrow> unit res" where
  "contract_verify c output = validate c output"

definition CONTRACT_NONEMPTY :: completion_contract where
  "CONTRACT_NONEMPTY = \<lparr>contract_name = bstr ''non_empty'',
     validate = (\<lambda>out. if out = [] then Inl ''output vazio'' else Inr ()), on_failure = WarnOnly\<rparr>"

definition CONTRACT_UTF8 :: completion_contract where
  "CONTRACT_UTF8 = \<lparr>contract_name = bstr ''utf8'',
     validate = (\<lambda>out. if from_utf8 out then Inr () else Inl ''output nao e utf-8 valido''),
     on_failure = RejectOutput\<rparr>"

record mcp_manifest =
  sk_name :: bytes
  sk_description :: bytes
  required_tokens :: "u64 list"
  preconditions :: "bytes list"
  context_links :: "bytes list"
  output_schema :: output_schema
  idempotent :: bool
  contracts :: "completion_contract list"

record skill =
  manifest :: mcp_manifest
  skill_execute :: "bytes \<Rightarrow> bytes res"
  skill_verify :: "bytes \<Rightarrow> unit res"

section \<open>Registry\<close>

record tool_policy =
  enabled :: bool
  auto_approve :: bool

definition policy_default :: tool_policy where
  "policy_default = \<lparr>enabled = False, auto_approve = False\<rparr>"

record skill_registry =
  skills :: "(bytes, skill) btree"
  policies :: "(bytes, tool_policy) btree"

definition skills_new :: skill_registry where
  "skills_new = \<lparr>skills = [], policies = []\<rparr>"

definition skill_register :: "skill \<Rightarrow> skill_registry \<Rightarrow> skill_registry" where
  "skill_register sk r = r\<lparr>skills := bt_insert (sk_name (manifest sk)) sk (skills r)\<rparr>"

definition skill_unregister :: "bytes \<Rightarrow> skill_registry \<Rightarrow> bool \<times> skill_registry" where
  "skill_unregister nm r =
     (bt_contains (skills r) nm,
      r\<lparr>skills := bt_remove nm (skills r), policies := bt_remove nm (policies r)\<rparr>)"

definition has_skill :: "bytes \<Rightarrow> skill_registry \<Rightarrow> bool" where
  "has_skill nm r = bt_contains (skills r) nm"

definition set_policy :: "bytes \<Rightarrow> tool_policy \<Rightarrow> skill_registry \<Rightarrow> skill_registry" where
  "set_policy nm p r = r\<lparr>policies := bt_insert nm p (policies r)\<rparr>"

definition get_policy :: "bytes \<Rightarrow> skill_registry \<Rightarrow> tool_policy option" where
  "get_policy nm r =
     (case bt_get (policies r) nm of Some p \<Rightarrow> Some p | None \<Rightarrow> bt_get (policies r) (bstr ''*''))"

definition is_enabled :: "bytes \<Rightarrow> skill_registry \<Rightarrow> bool" where
  "is_enabled nm r = (case get_policy nm r of None \<Rightarrow> False | Some p \<Rightarrow> enabled p)"

definition is_auto_approve :: "bytes \<Rightarrow> skill_registry \<Rightarrow> bool" where
  "is_auto_approve nm r = (case get_policy nm r of None \<Rightarrow> False | Some p \<Rightarrow> auto_approve p)"

definition validate_token :: "bytes \<Rightarrow> capability_token \<Rightarrow> skill_registry \<Rightarrow> bool" where
  "validate_token nm tok r =
     (case bt_get (skills r) nm of
        None \<Rightarrow> False
      | Some sk \<Rightarrow> if required_tokens (manifest sk) = [] then False
                 else as_legacy tok \<in> set (required_tokens (manifest sk)))"

definition is_idempotent :: "bytes \<Rightarrow> skill_registry \<Rightarrow> bool option" where
  "is_idempotent nm r = map_option (\<lambda>sk. idempotent (manifest sk)) (bt_get (skills r) nm)"

fun run_contracts :: "completion_contract list \<Rightarrow> bytes \<Rightarrow> unit res" where
  "run_contracts [] output = Inr ()"
| "run_contracts (c # cs) output =
     (case contract_verify c output of
        Inr u \<Rightarrow> run_contracts cs output
      | Inl reason \<Rightarrow>
          (case on_failure c of
             WarnOnly \<Rightarrow> run_contracts cs output
           | RejectOutput \<Rightarrow> Inl reason
           | RetrySkill \<Rightarrow> Inl ''contrato_falhou_retry_unavailable''))"

text \<open>The common tail of both execution paths, from \<^verbatim>\<open>skill.verify(payload)?\<close> on.\<close>

definition skill_body :: "skill \<Rightarrow> bytes \<Rightarrow> bytes res" where
  "skill_body sk pl =
     (case skill_verify sk pl of
        Inl e \<Rightarrow> Inl e
      | Inr u \<Rightarrow>
          (case skill_execute sk pl of
             Inl e \<Rightarrow> Inl e
           | Inr output \<Rightarrow>
               if \<not> schema_validate (output_schema (manifest sk)) output then Inl ''output_schema_mismatch''
               else (case run_contracts (contracts (manifest sk)) output of
                       Inl e \<Rightarrow> Inl e
                     | Inr u \<Rightarrow> Inr output)))"

definition execute_skill_unchecked :: "bytes \<Rightarrow> bytes \<Rightarrow> skill_registry \<Rightarrow> bytes res" where
  "execute_skill_unchecked nm pl r =
     (case bt_get (skills r) nm of
        None \<Rightarrow> Inl ''skill nao encontrada''
      | Some sk \<Rightarrow> if \<not> is_enabled nm r then Inl ''skill desabilitada por politica'' else skill_body sk pl)"

definition execute_skill :: "bytes \<Rightarrow> bytes \<Rightarrow> capability_token \<Rightarrow> skill_registry \<Rightarrow> bytes res" where
  "execute_skill nm pl tok r =
     (case bt_get (skills r) nm of
        None \<Rightarrow> Inl ''skill nao encontrada''
      | Some sk \<Rightarrow>
          if \<not> is_enabled nm r then Inl ''skill desabilitada por politica''
          else if \<not> is_auto_approve nm r \<and> required_tokens (manifest sk) = [] then Inl ''skill_sem_required_tokens''
          else if \<not> is_auto_approve nm r \<and> as_legacy tok \<notin> set (required_tokens (manifest sk))
               then Inl ''token de capacidade nao autorizado para esta skill''
          else skill_body sk pl)"

definition skill_count :: "skill_registry \<Rightarrow> nat" where
  "skill_count r = length (skills r)"

definition list_skills :: "skill_registry \<Rightarrow> (bytes \<times> bytes \<times> tool_policy) list" where
  "list_skills r =
     map (\<lambda>(nm, sk). (nm, sk_description (manifest sk),
            case get_policy nm r of None \<Rightarrow> policy_default | Some p \<Rightarrow> p)) (skills r)"

section \<open>Dynamic skills\<close>

definition DYNSKILL_TOKEN :: u64 where "DYNSKILL_TOKEN = 0xD1"

text \<open>The installed WASM executor is \<open>Some f\<close>; \<^verbatim>\<open>WASM_EXEC_BRIDGE == 0\<close> is \<open>None\<close>.\<close>

type_synonym wasm_bridge = "(bytes \<Rightarrow> bytes \<Rightarrow> bytes res) option"

definition install_wasm_exec_bridge :: "(bytes \<Rightarrow> bytes \<Rightarrow> bytes res) \<Rightarrow> wasm_bridge \<Rightarrow> wasm_bridge" where
  "install_wasm_exec_bridge f b = Some f"

record dynamic_skill =
  dyn_manifest :: mcp_manifest
  instructions :: bytes
  wasm :: "bytes option"

definition dynskill_new :: "bytes \<Rightarrow> bytes \<Rightarrow> bytes \<Rightarrow> dynamic_skill" where
  "dynskill_new nm desc ins =
     \<lparr>dyn_manifest = \<lparr>sk_name = nm, sk_description = desc, required_tokens = [DYNSKILL_TOKEN], preconditions = [],
        context_links = [], output_schema = StringOut, idempotent = False, contracts = []\<rparr>,
      instructions = ins, wasm = None\<rparr>"

definition dynskill_with_wasm :: "bytes \<Rightarrow> bytes \<Rightarrow> bytes \<Rightarrow> bytes \<Rightarrow> dynamic_skill" where
  "dynskill_with_wasm nm desc ins code =
     \<lparr>dyn_manifest = \<lparr>sk_name = nm, sk_description = desc, required_tokens = [DYNSKILL_TOKEN], preconditions = [],
        context_links = [], output_schema = AnyOut, idempotent = False, contracts = []\<rparr>,
      instructions = ins, wasm = Some code\<rparr>"

definition dynskill_execute :: "wasm_bridge \<Rightarrow> dynamic_skill \<Rightarrow> bytes \<Rightarrow> bytes res" where
  "dynskill_execute bridge d pl =
     (case wasm d of
        Some code \<Rightarrow> (case bridge of Some run \<Rightarrow> run code pl | None \<Rightarrow> Inl ''wasm_runtime_unwired'')
      | None \<Rightarrow>
          (let input = (if from_utf8 pl then pl else [])
           in Inr (bstr ''['' @ sk_name (dyn_manifest d) @ bstr ''] instrucao: '' @ instructions d @ [10] @
                   bstr ''  input: '' @ input)))"

definition dynskill_skill :: "wasm_bridge \<Rightarrow> dynamic_skill \<Rightarrow> skill" where
  "dynskill_skill bridge d =
     \<lparr>manifest = dyn_manifest d, skill_execute = dynskill_execute bridge d, skill_verify = (\<lambda>_. Inr ())\<rparr>"

section \<open>Output cache\<close>

definition MAX_ENTRIES :: nat where "MAX_ENTRIES = 64"

record cache_entry =
  entry_output :: bytes
  expires_at_tick :: u64

record output_cache =
  cache :: "(u64, cache_entry) btree"
  default_ttl :: u64
  hits :: u64
  misses :: u64

definition cache_new :: "u64 \<Rightarrow> output_cache" where
  "cache_new ttl = \<lparr>cache = [], default_ttl = ttl, hits = 0, misses = 0\<rparr>"

definition cache_hash :: "bytes \<Rightarrow> bytes \<Rightarrow> u64" where
  "cache_hash nm pl =
     foldl (\<lambda>h b. h * 33 + ucast b) (foldl (\<lambda>h b. h * 33 + ucast b) 5381 nm) pl"

definition cache_get :: "bytes \<Rightarrow> bytes \<Rightarrow> u64 \<Rightarrow> output_cache \<Rightarrow> bytes option \<times> output_cache" where
  "cache_get nm pl now c =
     (case bt_get (cache c) (cache_hash nm pl) of
        Some e \<Rightarrow>
          if now < expires_at_tick e then (Some (entry_output e), c\<lparr>hits := sat_add (hits c) 1\<rparr>)
          else (None, c\<lparr>misses := sat_add (misses c) 1\<rparr>)
      | None \<Rightarrow> (None, c\<lparr>misses := sat_add (misses c) 1\<rparr>))"

definition evict_expired :: "u64 \<Rightarrow> output_cache \<Rightarrow> output_cache" where
  "evict_expired now c = c\<lparr>cache := bt_retain (\<lambda>_ e. now < expires_at_tick e) (cache c)\<rparr>"

text \<open>The eviction loop removes the first key of the map while it is full.\<close>

fun evict_first :: "(u64, cache_entry) btree \<Rightarrow> (u64, cache_entry) btree" where
  "evict_first [] = []"
| "evict_first (e # m) = (if length (e # m) \<ge> MAX_ENTRIES then evict_first m else e # m)"

definition cache_set :: "bytes \<Rightarrow> bytes \<Rightarrow> bytes \<Rightarrow> u64 \<Rightarrow> u64 option \<Rightarrow> output_cache \<Rightarrow> output_cache" where
  "cache_set nm pl out now ttl c =
     (let c1 = (if length (cache c) \<ge> MAX_ENTRIES then evict_expired now c else c);
          m = evict_first (cache c1);
          t = (case ttl of None \<Rightarrow> default_ttl c1 | Some t \<Rightarrow> t)
      in c1\<lparr>cache := bt_insert (cache_hash nm pl) \<lparr>entry_output = out, expires_at_tick = sat_add now t\<rparr> m\<rparr>)"


definition cache_stats :: "output_cache \<Rightarrow> u64 \<times> u64" where
  "cache_stats c = (hits c, misses c)"

section \<open>Lemmas\<close>

lemma get_policy_register [simp]: "get_policy nm (skill_register sk r) = get_policy nm r"
proof -
  have "policies (skill_register sk r) = policies r" by (simp add: skill_register_def)
  then show ?thesis unfolding get_policy_def by (rule ssubst) (rule refl)
qed

lemma run_contracts_ok:
  "run_contracts cs out = Inr () \<longleftrightarrow>
     (\<forall>c \<in> set cs. on_failure c \<noteq> WarnOnly \<longrightarrow> contract_verify c out = Inr ())"
  by (induction cs) (auto split: sum.splits contract_action.splits)




lemma evict_first_noop: "length m < MAX_ENTRIES \<Longrightarrow> evict_first m = m"
  by (cases m) auto






text \<open>The hash runs over name and payload without a separator.\<close>

lemma cache_hash_concat: "cache_hash nm pl = foldl (\<lambda>h b. h * 33 + ucast b) 5381 (nm @ pl)"
  by (simp add: cache_hash_def)

lemma cache_get_set:
  "fst (cache_get nm' pl' now' (cache_set nm pl out now ttl c)) =
     (if cache_hash nm' pl' = cache_hash nm pl
      then (if now' < sat_add now (case ttl of None \<Rightarrow> default_ttl c | Some t \<Rightarrow> t) then Some out else None)
      else (let m = evict_first (cache (if length (cache c) \<ge> MAX_ENTRIES then evict_expired now c else c))
            in case bt_get m (cache_hash nm' pl') of
                 Some e \<Rightarrow> if now' < expires_at_tick e then Some (entry_output e) else None | None \<Rightarrow> None))"
  by (auto simp: cache_get_def cache_set_def Let_def evict_expired_def split: option.splits)

section \<open>Properties\<close>

text \<open>
  C24.  The execution gate is exactly this: a call returns an output if and only if the skill is registered, enabled by its
  own or the wildcard policy, approved (automatically, or by a token among the skill's required ones), its
  own pre-flight check passes, it produces that output, the output matches the declared schema, and every contract that is not
  advisory accepts it.
\<close>

theorem execute_skill_gate:
  "execute_skill nm pl tok r = Inr out \<longleftrightarrow>
     (\<exists>sk. bt_get (skills r) nm = Some sk \<and> is_enabled nm r \<and>
        (is_auto_approve nm r \<or> validate_token nm tok r) \<and>
        skill_verify sk pl = Inr () \<and> skill_execute sk pl = Inr out \<and>
        schema_validate (output_schema (manifest sk)) out \<and>
        (\<forall>c \<in> {c \<in> set (contracts (manifest sk)). on_failure c \<noteq> WarnOnly}. contract_verify c out = Inr ()))"
proof (cases "bt_get (skills r) nm")
  case None
  then show ?thesis by (simp add: execute_skill_def)
next
  case (Some sk)
  have body: "skill_body sk pl = Inr out \<longleftrightarrow> skill_verify sk pl = Inr () \<and> skill_execute sk pl = Inr out \<and>
      schema_validate (output_schema (manifest sk)) out \<and> run_contracts (contracts (manifest sk)) out = Inr ()"
    by (auto simp: skill_body_def split: sum.splits)
  show ?thesis
    using Some by (auto simp: execute_skill_def body run_contracts_ok validate_token_def split: if_splits)
qed

definition echo_skill :: skill where
  "echo_skill = \<lparr>manifest = \<lparr>sk_name = bstr ''echo'', sk_description = bstr ''e'', required_tokens = [1],
       preconditions = [], context_links = [], output_schema = StringOut, idempotent = True,
       contracts = [CONTRACT_NONEMPTY, CONTRACT_UTF8]\<rparr>,
     skill_execute = (\<lambda>pl. Inr pl), skill_verify = (\<lambda>_. Inr ())\<rparr>"

definition echo_registry :: skill_registry where
  "echo_registry = skill_register echo_skill
     (set_policy (bstr ''*'') \<lparr>enabled = True, auto_approve = False\<rparr> skills_new)"

theorem execute_skill_gate_witness:
  "execute_skill (bstr ''echo'') (bstr ''hi'') (Legacy 1) echo_registry = Inr (bstr ''hi'')"
  unfolding execute_skill_gate
  by (auto simp: echo_registry_def echo_skill_def skill_register_def set_policy_def skills_new_def bt_get_def
      is_enabled_def get_policy_def validate_token_def bstr_def CONTRACT_NONEMPTY_def CONTRACT_UTF8_def contract_verify_def)

text \<open>
  C26.  A generated text skill is never dead: registered under an enabling policy and called with its capability token it always
  succeeds, on any payload, valid UTF-8 or not, because its name and instructions are Rust strings; called with any other token
  and without automatic approval it is always refused.
\<close>

theorem dynskill_text_total:
  assumes "from_utf8 nm" "from_utf8 ins" "is_enabled nm r" "\<not> is_auto_approve nm r"
  shows "execute_skill nm pl tok (skill_register (dynskill_skill bridge (dynskill_new nm desc ins)) r) =
    (if as_legacy tok = DYNSKILL_TOKEN
     then Inr (bstr ''['' @ nm @ bstr ''] instrucao: '' @ ins @ [10] @ bstr ''  input: '' @ (if from_utf8 pl then pl else []))
     else Inl ''token de capacidade nao autorizado para esta skill'')"
proof -
  let ?sk = "dynskill_skill bridge (dynskill_new nm desc ins)"
  let ?out = "bstr ''['' @ nm @ bstr ''] instrucao: '' @ ins @ [10] @ bstr ''  input: '' @ (if from_utf8 pl then pl else [])"
  have lit: "from_utf8 (bstr ''['')" "from_utf8 (bstr ''] instrucao: '')" "from_utf8 (bstr ''  input: '')"
    by (simp_all add: bstr_def)
  have "from_utf8 ?out" using assms(1,2) by (simp add: lit from_utf8_append)
  then have body: "skill_body ?sk pl = Inr ?out"
    by (simp add: skill_body_def dynskill_skill_def dynskill_new_def dynskill_execute_def Let_def)
  have reg: "is_enabled nm (skill_register ?sk r)" "\<not> is_auto_approve nm (skill_register ?sk r)"
    "bt_get (skills (skill_register ?sk r)) nm = Some ?sk"
    using assms(3,4)
    by (simp_all add: is_enabled_def is_auto_approve_def) (simp add: skill_register_def dynskill_skill_def dynskill_new_def)
  have "required_tokens (manifest ?sk) = [DYNSKILL_TOKEN]" by (simp add: dynskill_skill_def dynskill_new_def)
  then show ?thesis using reg body by (simp add: execute_skill_def)
qed

theorem dynskill_text_total_witness:
  "execute_skill (bstr ''p'') [0xFF] (Legacy 0xD1)
     (skill_register (dynskill_skill None (dynskill_new (bstr ''p'') [] (bstr ''b'')))
        (set_policy (bstr ''*'') \<lparr>enabled = True, auto_approve = False\<rparr> skills_new)) =
   Inr (bstr ''[p] instrucao: b'' @ [10] @ bstr ''  input: '')"
proof -
  let ?r = "set_policy (bstr ''*'') \<lparr>enabled = True, auto_approve = False\<rparr> skills_new"
  have "is_enabled (bstr ''p'') ?r" "\<not> is_auto_approve (bstr ''p'') ?r"
    by (simp_all add: is_enabled_def is_auto_approve_def get_policy_def set_policy_def skills_new_def bt_get_def bstr_def)
  then show ?thesis
    using dynskill_text_total [of "bstr ''p''" "bstr ''b''" ?r "[0xFF]" "Legacy 0xD1" None "[]"]
    by (simp add: DYNSKILL_TOKEN_def) (simp add: bstr_def)
qed



text \<open>
  C28.  Defect: the cache key does not separate the skill's name from the payload.  Whenever two calls have the same concatenation of
  name and payload, the second call is answered with the cached output of the first, although it names another skill.
\<close>

theorem cache_confuses_skills:
  assumes "nm @ pl = nm' @ pl'" "now' < sat_add now (default_ttl c)"
  shows "fst (cache_get nm' pl' now' (cache_set nm pl out now None c)) = Some out"
  using assms by (simp add: cache_get_set cache_hash_concat)

theorem cache_confuses_skills_witness:
  "bstr ''read'' \<noteq> bstr ''readfile'' \<and>
   fst (cache_get (bstr ''read'') (bstr ''file/x'') 1 (cache_set (bstr ''readfile'') (bstr ''/x'') [42] 0 None (cache_new 100))) =
     Some [42]"
  using cache_confuses_skills [of "bstr ''readfile''" "bstr ''/x''" "bstr ''read''" "bstr ''file/x''" 1 0 "cache_new 100" "[42]"]
  by (simp add: bstr_def cache_new_def sat_add_def)

end
