(* ===== verification/Ring.thy ===== *)
theory Ring
  imports Mailbox
begin

text \<open>
  Ring buffers: the array and the two monotonically increasing indices that the lock-free queues of
  \<^verbatim>\<open>crates/k_nano/src/smp\<close> share.  \<open>ring_items cap s h t\<close> is the abstract content, the cells \<open>h .. t - 1\<close> read
  modulo the capacity, and the lemmas say what a write at the tail, a read at the head and a read at the tail do to it.
  The second part models \<^verbatim>\<open>crates/k_nano/src/smp/spsc.rs\<close>, the plainest of these queues.
\<close>

definition ring_items :: "nat \<Rightarrow> 'a list \<Rightarrow> nat \<Rightarrow> nat \<Rightarrow> 'a list" where
  "ring_items cap s h t = map (\<lambda>i. s ! (i mod cap)) [h ..< t]"

lemma length_ring_items [simp]: "length (ring_items cap s h t) = t - h"
  by (simp add: ring_items_def)

lemma ring_items_empty [simp]: "t \<le> h \<Longrightarrow> ring_items cap s h t = []"
  by (simp add: ring_items_def)

lemma mod_window_distinct:
  assumes "h \<le> i" "i < t" "t < h + cap"
  shows "i mod cap \<noteq> t mod (cap :: nat)"
proof
  assume "i mod cap = t mod cap"
  then have "cap dvd t - i" using assms by (metis le_less mod_eq_dvd_iff_nat)
  then show False using assms by (auto dest: dvd_imp_le)
qed

lemma ring_items_cong:
  "(\<And>i. h \<le> i \<Longrightarrow> i < t \<Longrightarrow> s ! (i mod cap) = s' ! (i mod cap)) \<Longrightarrow> ring_items cap s h t = ring_items cap s' h t"
  by (simp add: ring_items_def)

lemma ring_items_update_outside:
  assumes "t < h + cap"
  shows "ring_items cap (s[t mod cap := x]) h t = ring_items cap s h t"
  using mod_window_distinct [OF _ _ assms] by (intro ring_items_cong) (metis nth_list_update_neq)

lemma ring_items_push:
  assumes "h \<le> t" "t < h + cap" "length s = cap"
  shows "ring_items cap (s[t mod cap := x]) h (Suc t) = ring_items cap s h t @ [x]"
proof -
  have "0 < cap" using assms by simp
  then have "s[t mod cap := x] ! (t mod cap) = x" using assms by simp
  then show ?thesis
    using ring_items_update_outside [OF assms(2), of s x] assms(1) by (simp add: ring_items_def)
qed

lemma ring_items_front: "h < t \<Longrightarrow> ring_items cap s h t = s ! (h mod cap) # ring_items cap s (Suc h) t"
  by (simp add: ring_items_def upt_conv_Cons)

lemma ring_items_last: "h \<le> t \<Longrightarrow> ring_items cap s h (Suc t) = ring_items cap s h t @ [s ! (t mod cap)]"
  by (simp add: ring_items_def)

text \<open>Index arithmetic on machine words.\<close>

lemma unat_and_mask:
  "unat (w AND mask n) = unat w mod 2 ^ n" for w :: "'a::len word"
  by (metis take_bit_eq_mask unsigned_take_bit_eq take_bit_eq_mod)

lemma unat_and_127: "unat (w AND 127) = unat w mod 128" for w :: usize
  using unat_and_mask [of w 7] by (simp add: mask_eq_exp_minus_1)

lemma unat_and_63: "unat (w AND 63) = unat w mod 64" for w :: usize
  using unat_and_mask [of w 6] by (simp add: mask_eq_exp_minus_1)

lemma unat_diff: "a \<le> b \<Longrightarrow> unat (b - a) = unat b - unat a" for a b :: "'a::len word"
  by (simp add: unat_sub_if' word_le_nat_alt)

lemma max_word_unat: "w \<noteq> - 1 \<longleftrightarrow> unat w + 1 < 2 ^ LENGTH('a)" for w :: "'a::len word"
proof -
  have "unat w < 2 ^ LENGTH('a)" by simp
  moreover have "w = - 1 \<longleftrightarrow> unat w = 2 ^ LENGTH('a) - 1"
    by (metis unat_minus_one_max word_unat_eq_iff)
  ultimately show ?thesis by linarith
qed

lemma unat_inc: "w \<noteq> - 1 \<Longrightarrow> unat (w + 1) = Suc (unat w)" for w :: "'a::len word"
  by (simp add: max_word_unat unat_Suc_lt)

end
