(* ===== verification/RunQueue.thy ===== *)
theory RunQueue
  imports Agents Ring
begin

text \<open>
  \<^verbatim>\<open>crates/k_nano/src/smp/runqueue.rs\<close>: the per-core run queues through which the scheduler hands agents to other cores,
  with the core roles (\<^verbatim>\<open>smp/corepools.rs\<close>) and the per-core memory carve (\<^verbatim>\<open>allocator.rs\<close>) that \<^verbatim>\<open>init_roles_from_pools\<close>
  sets up.  The module's statics are the record \<open>smp\<close>; what it reads from elsewhere (the number of processors, the AP
  slots, the free heap, whether APs may be polled) are inputs in the same record, and the IPIs it sends and the log lines it writes
  are recorded in order.

  Here every operation is one transition (\<^verbatim>\<open>compare_exchange_weak\<close> on x86 fails only under contention); the interleavings of
  the atomic accesses of one queue are the subject of theory \<open>RunQueueRace\<close>.
\<close>

section \<open>Tasks and queues\<close>

record agent_task =
  at_agent :: u32
  at_tick :: u32
  at_priority :: u8
  at_ring :: u8
  at_urgency :: u8
  at_reserved :: u8

definition task_default :: agent_task where
  "task_default = \<lparr>at_agent = - 1, at_tick = 0, at_priority = 0, at_ring = 0, at_urgency = 0, at_reserved = 0\<rparr>"

definition task_new :: "u32 \<Rightarrow> u32 \<Rightarrow> u8 \<Rightarrow> u8 \<Rightarrow> u8 \<Rightarrow> agent_task" where
  "task_new idx tick prio ring urg =
     \<lparr>at_agent = idx, at_tick = tick, at_priority = prio, at_ring = ring, at_urgency = urg, at_reserved = 0\<rparr>"

definition task_score :: "agent_task \<Rightarrow> u16" where
  "task_score t = ucast (at_urgency t) * 4 + ucast (at_priority t) * 2"

definition task_is_valid :: "agent_task \<Rightarrow> bool" where
  "task_is_valid t \<longleftrightarrow> at_agent t \<noteq> - 1"

definition RQ_CAP :: nat where "RQ_CAP = 128"
definition MAX_CORES :: nat where "MAX_CORES = 256"

record run_queue =
  rq_slots :: "agent_task list"
  rq_head :: usize
  rq_tail :: usize

definition rq_new :: run_queue where
  "rq_new = \<lparr>rq_slots = replicate RQ_CAP task_default, rq_head = 0, rq_tail = 0\<rparr>"

definition rq_enqueue :: "agent_task \<Rightarrow> run_queue \<Rightarrow> bool \<times> run_queue" where
  "rq_enqueue task q =
     (let t = rq_tail q; h = rq_head q in
      if unat (t - h) \<ge> RQ_CAP then (False, q)
      else (True, q\<lparr>rq_slots := (rq_slots q)[unat (t AND 127) := task], rq_tail := t + 1\<rparr>))"

definition rq_dequeue :: "run_queue \<Rightarrow> agent_task option \<times> run_queue" where
  "rq_dequeue q =
     (let h = rq_head q; t = rq_tail q in
      if h \<ge> t then (None, q)
      else (Some (rq_slots q ! unat (h AND 127)), q\<lparr>rq_head := h + 1\<rparr>))"

definition rq_len :: "run_queue \<Rightarrow> nat" where
  "rq_len q = unat (sat_sub (rq_tail q) (rq_head q))"

definition rq_is_empty :: "run_queue \<Rightarrow> bool" where
  "rq_is_empty q \<longleftrightarrow> rq_len q = 0"

definition rq_clear :: "run_queue \<Rightarrow> run_queue" where
  "rq_clear q = q\<lparr>rq_head := 0, rq_tail := 0\<rparr>"

section \<open>The module's state\<close>

record cpu_stats =
  st_running :: u32
  st_blocked :: u32
  st_stolen :: u32
  st_enqueued :: u32

definition stats_new :: cpu_stats where
  "stats_new = \<lparr>st_running = 0, st_blocked = 0, st_stolen = 0, st_enqueued = 0\<rparr>"

record per_cpu =
  pc_self_ptr :: u64
  pc_cpu_id :: u64
  pc_cpu_type :: u8
  pc_lapic_id :: u32
  pc_is_bsp :: bool
  pc_online :: u8
  pc_ring :: u8
  pc_tss_ptr :: u64
  pc_ist_stacks :: "u64 list"

definition CPU_TYPE_P_CORE :: u8 where "CPU_TYPE_P_CORE = 0"
definition CPU_TYPE_E_CORE :: u8 where "CPU_TYPE_E_CORE = 1"

definition empty_pcpu :: per_cpu where
  "empty_pcpu = \<lparr>pc_self_ptr = 0, pc_cpu_id = 0, pc_cpu_type = CPU_TYPE_P_CORE, pc_lapic_id = 0, pc_is_bsp = False,
     pc_online = 0, pc_ring = 1, pc_tss_ptr = 0, pc_ist_stacks = [0, 0, 0]\<rparr>"

datatype core_type = Performance | Efficiency

record cpu_info =
  ci_cpu_id :: u16
  ci_lapic_id :: u32
  ci_core_type :: core_type
  ci_is_bsp :: bool

record core_pools =
  ring0 :: "u16 list"
  ring1 :: "u16 list"
  ring2 :: "u16 list"

datatype core_role_kind = SystemCore | ComputeCore | MemoryCore | WorkerCore | IdleCore

text \<open>The discriminants (\<^verbatim>\<open>role as u8\<close>).\<close>

fun role_code :: "core_role_kind \<Rightarrow> u8" where
  "role_code SystemCore = 0"
| "role_code ComputeCore = 1"
| "role_code MemoryCore = 2"
| "role_code WorkerCore = 3"
| "role_code IdleCore = 4"

fun role_name :: "core_role_kind \<Rightarrow> string" where
  "role_name SystemCore = ''SYS''"
| "role_name ComputeCore = ''COMP''"
| "role_name MemoryCore = ''MEM''"
| "role_name WorkerCore = ''WORK''"
| "role_name IdleCore = ''IDLE''"

datatype smp_log =
    LogStats u32 u32 u32 u32 u32 u32 nat
  | LogDistributed nat
  | LogTooManyCores nat
  | LogRoles nat nat nat nat nat
  | LogCarve nat nat

record smp =
  queues :: "run_queue list"
  stats :: "cpu_stats list"
  overflow_count :: u32
  inflight :: "u64 list"
  last_slog_tick :: u32
  last_dist_count :: nat
  core_roles :: "u8 list"
  cpu_count :: u16
  ap_pcpu :: "per_cpu list"
  ap_polling :: bool
  heap_headroom :: usize
  heap_budget_mb :: usize
  pools_ready :: "core_pools option"
  core_quota :: "usize list"
  carve_done :: bool
  ipis :: "u32 list"
  slogs :: "smp_log list"

definition smp_boot :: smp where
  "smp_boot = \<lparr>queues = replicate MAX_CORES rq_new, stats = replicate MAX_CORES stats_new, overflow_count = 0,
     inflight = replicate 4 0, last_slog_tick = - 1, last_dist_count = 0,
     core_roles = replicate MAX_CORES (role_code WorkerCore), cpu_count = 1, ap_pcpu = [], ap_polling = False,
     heap_headroom = 0, heap_budget_mb = 1536, pools_ready = None, core_quota = replicate 256 0, carve_done = False,
     ipis = [], slogs = []\<rparr>"

definition queue :: "smp \<Rightarrow> nat \<Rightarrow> run_queue" where
  "queue s i = queues s ! i"

definition set_queue :: "nat \<Rightarrow> run_queue \<Rightarrow> smp \<Rightarrow> smp" where
  "set_queue i q s = s\<lparr>queues := (queues s)[i := q]\<rparr>"

definition bump_stats :: "nat \<Rightarrow> (cpu_stats \<Rightarrow> cpu_stats) \<Rightarrow> smp \<Rightarrow> smp" where
  "bump_stats i f s = s\<lparr>stats := (stats s)[i := f (stats s ! i)]\<rparr>"

definition slog :: "smp_log \<Rightarrow> smp \<Rightarrow> smp" where
  "slog l s = s\<lparr>slogs := slogs s @ [l]\<rparr>"

definition bump_overflow :: "smp \<Rightarrow> smp" where
  "bump_overflow s = s\<lparr>overflow_count := overflow_count s + 1\<rparr>"

text \<open>
  The AP slots of \<^verbatim>\<open>percpu.rs\<close>, one per AP; their number is kept in 16 bits.  The slots of \<^verbatim>\<open>alloc_slots\<close> live until the
  next call, so the leaked boxed slice is the list itself.
\<close>

definition ap_slots :: "smp \<Rightarrow> nat" where
  "ap_slots s = length (ap_pcpu s)"

definition alloc_slots :: "nat \<Rightarrow> smp \<Rightarrow> smp" where
  "alloc_slots n s = s\<lparr>ap_pcpu := replicate (n mod 2 ^ 16) empty_pcpu\<rparr>"

definition ap_pcpu_at :: "nat \<Rightarrow> smp \<Rightarrow> per_cpu option" where
  "ap_pcpu_at i s = (if i \<ge> ap_slots s then None else Some (ap_pcpu s ! i))"

text \<open>\<^verbatim>\<open>CPU_COUNT as usize\<close>, clamped to the array.\<close>

definition n_cores :: "smp \<Rightarrow> nat" where
  "n_cores s = min (unat (cpu_count s)) MAX_CORES"

definition agent_tick_offload_safe :: bool where "agent_tick_offload_safe = False"

definition get_cpu_stats :: "nat \<Rightarrow> smp \<Rightarrow> cpu_stats" where
  "get_cpu_stats i s = stats s ! min i (MAX_CORES - 1)"

definition overflow_total :: "smp \<Rightarrow> u32" where
  "overflow_total s = overflow_count s"

section \<open>The inflight bitmap\<close>

definition inflight_test :: "u32 \<Rightarrow> smp \<Rightarrow> bool" where
  "inflight_test idx s =
     (if idx \<ge> 256 then False
      else (inflight s ! unat (idx div 64) AND push_bit (unat (idx mod 64)) 1) \<noteq> 0)"

definition inflight_set :: "u32 \<Rightarrow> smp \<Rightarrow> smp" where
  "inflight_set idx s =
     (if idx \<ge> 256 then s
      else let w = unat (idx div 64) in
        s\<lparr>inflight := (inflight s)[w := inflight s ! w OR push_bit (unat (idx mod 64)) 1]\<rparr>)"

definition inflight_clear :: "u32 \<Rightarrow> smp \<Rightarrow> smp" where
  "inflight_clear idx s =
     (if idx \<ge> 256 then s
      else let w = unat (idx div 64) in
        s\<lparr>inflight := (inflight s)[w := inflight s ! w AND NOT (push_bit (unat (idx mod 64)) 1)]\<rparr>)"

section \<open>Load and telemetry\<close>

definition total_pending :: "smp \<Rightarrow> nat" where
  "total_pending s = sum_list (map (\<lambda>i. rq_len (queue s i)) [0 ..< n_cores s])"

definition USIZE_MAX :: nat where "USIZE_MAX = 2 ^ 64 - 1"

definition ap_imbalance :: "smp \<Rightarrow> nat" where
  "ap_imbalance s =
     (let n = n_cores s in
      if n \<le> 2 then 0
      else let (min_l, max_l) = fold (\<lambda>i (mn, mx). let l = rq_len (queue s i) in (min mn l, max mx l)) [1 ..< n] (USIZE_MAX, 0)
        in max_l - min_l)"

definition should_redistribute :: "u32 \<Rightarrow> smp \<Rightarrow> bool" where
  "should_redistribute tick s =
     (if total_pending s = 0 then True else if tick mod 32 = 0 then True else ap_imbalance s > 2)"

definition slog_aggregate_stats :: "u32 \<Rightarrow> smp \<Rightarrow> smp" where
  "slog_aggregate_stats tick s =
     (let f = (\<lambda>g. sum_list (map (\<lambda>i. g (stats s ! i)) [0 ..< n_cores s])) in
      slog (LogStats tick (f st_enqueued) (f st_stolen) (f st_running) (f st_blocked) (overflow_count s) (total_pending s)) s)"

definition clear_all_queues :: "smp \<Rightarrow> smp" where
  "clear_all_queues s = s\<lparr>queues := map rq_clear (queues s), inflight := map (\<lambda>_. 0) (inflight s)\<rparr>"

section \<open>Memory quotas\<close>

definition AGENT_MEM_QUOTA :: "usize list" where
  "AGENT_MEM_QUOTA = [512 * 1024, 8 * 1024 * 1024, 2 * 1024 * 1024, 512 * 1024]"

definition AGENT_QUOTA_MIN_BYTES :: usize where "AGENT_QUOTA_MIN_BYTES = 512 * 1024"

fun agent_mem_quota_for :: "schedule_kind \<Rightarrow> usize" where
  "agent_mem_quota_for Oneshot = AGENT_MEM_QUOTA ! 0"
| "agent_mem_quota_for Continuous = AGENT_MEM_QUOTA ! 1"
| "agent_mem_quota_for (PollEvery n) = AGENT_MEM_QUOTA ! 2"
| "agent_mem_quota_for EventDriven = AGENT_MEM_QUOTA ! 3"

definition agent_bump_quota :: "agent_kind \<Rightarrow> schedule_kind \<Rightarrow> usize" where
  "agent_bump_quota kind sched = (if kind = Inference then 0 else agent_mem_quota_for sched)"

definition CORE_CARVE_MAX :: nat where "CORE_CARVE_MAX = 256"
definition HEAP_SIZE :: usize where "HEAP_SIZE = 512 * 1024 * 1024"

definition split_core_carve :: "usize \<Rightarrow> nat \<Rightarrow> nat \<Rightarrow> usize" where
  "split_core_carve budget n cpu =
     (if n = 0 \<or> cpu \<ge> n then 0
      else if n = 1 then (if cpu = 0 then budget else 0)
      else let bsp = budget * 2 div 5 in
        if cpu = 0 then bsp
        else let rem = sat_sub budget bsp; aps = n - 1; per = rem div of_nat aps in
          if cpu = n - 1 then sat_sub rem (sat_mul per (of_nat (aps - 1))) else per)"

definition carve_budget :: "smp \<Rightarrow> usize" where
  "carve_budget s = max (sat_mul (heap_budget_mb s) (1024 * 1024)) HEAP_SIZE"

definition carve_cores :: "smp \<Rightarrow> nat" where
  "carve_cores s = min (max (unat (cpu_count s)) 1) CORE_CARVE_MAX"

definition core_quota_for :: "nat \<Rightarrow> smp \<Rightarrow> usize" where
  "core_quota_for cpu s =
     (if carve_done s then core_quota s ! min cpu (CORE_CARVE_MAX - 1)
      else split_core_carve (carve_budget s) (carve_cores s) (min cpu (CORE_CARVE_MAX - 1)))"

definition core_carve_headroom_bytes :: "usize \<Rightarrow> nat \<Rightarrow> smp \<Rightarrow> usize" where
  "core_carve_headroom_bytes heap_used cpu s =
     sat_sub (core_quota_for cpu s) (heap_used div of_nat (max (unat (cpu_count s)) 1))"

definition init_core_carves :: "smp \<Rightarrow> smp" where
  "init_core_carves s =
     (if carve_done s then s
      else let b = carve_budget s; n = carve_cores s;
               quota = fold (\<lambda>i q. q[i := split_core_carve b n i]) [0 ..< n] (core_quota s);
               s' = s\<lparr>carve_done := True, core_quota := quota\<rparr>
        in fold (\<lambda>i. slog (LogCarve i (unat (quota ! i) div (1024 * 1024)))) [0 ..< n] s')"

section \<open>Enqueue and dequeue by core\<close>

definition enqueue_agent :: "nat \<Rightarrow> agent_task \<Rightarrow> smp \<Rightarrow> bool \<times> smp" where
  "enqueue_agent core task s =
     (if core \<ge> MAX_CORES then (False, s)
      else if heap_headroom s < AGENT_QUOTA_MIN_BYTES then (False, bump_overflow s)
      else case rq_enqueue task (queue s core) of
        (True, q) \<Rightarrow> (True, bump_stats core (\<lambda>c. c\<lparr>st_enqueued := st_enqueued c + 1\<rparr>) (set_queue core q s))
      | (False, q) \<Rightarrow> (False, s))"

definition enqueue_agent_with_schedule :: "nat \<Rightarrow> agent_task \<Rightarrow> schedule_kind \<Rightarrow> smp \<Rightarrow> bool \<times> smp" where
  "enqueue_agent_with_schedule core task sched s =
     (if heap_headroom s < agent_mem_quota_for sched then (False, bump_overflow s) else enqueue_agent core task s)"

definition dequeue_agent :: "nat \<Rightarrow> smp \<Rightarrow> agent_task option \<times> smp" where
  "dequeue_agent core s =
     (if core \<ge> MAX_CORES then (None, s)
      else case rq_dequeue (queue s core) of (r, q) \<Rightarrow> (r, set_queue core q s))"

section \<open>Core roles\<close>

definition role_of_code :: "u8 \<Rightarrow> core_role_kind" where
  "role_of_code raw =
     (if raw = 0 then SystemCore else if raw = 1 then ComputeCore else if raw = 2 then MemoryCore
      else if raw = 3 then WorkerCore else IdleCore)"

definition core_role :: "nat \<Rightarrow> smp \<Rightarrow> core_role_kind" where
  "core_role core s = role_of_code (core_roles s ! min core (MAX_CORES - 1))"

definition set_core_role :: "nat \<Rightarrow> core_role_kind \<Rightarrow> smp \<Rightarrow> smp" where
  "set_core_role core role s =
     (if core < MAX_CORES then s\<lparr>core_roles := (core_roles s)[core := role_code role]\<rparr> else s)"

text \<open>\<^verbatim>\<open>corepools.rs\<close>: which cores serve which ring.\<close>

fun move_back :: "nat \<Rightarrow> u16 list \<times> u16 list \<Rightarrow> u16 list \<times> u16 list" where
  "move_back 0 rs = rs"
| "move_back (Suc k) (r1, r2) = move_back k (if r1 = [] then (r1, r2) else (butlast r1, r2 @ [last r1]))"

definition assign_cores :: "cpu_info list \<Rightarrow> core_pools" where
  "assign_cores cpus =
     (case find ci_is_bsp cpus of
        None \<Rightarrow> \<lparr>ring0 = [], ring1 = [], ring2 = []\<rparr>
      | Some bsp \<Rightarrow>
          let aps = filter (\<lambda>c. \<not> ci_is_bsp c) cpus;
              r1 = map ci_cpu_id (filter (\<lambda>c. ci_core_type c = Performance) aps);
              r2 = map ci_cpu_id (filter (\<lambda>c. ci_core_type c = Efficiency) aps);
              (r1', r2') = (if r2 = [] \<and> length r1 > 1 then move_back (length r1 div 2) (r1, r2) else (r1, r2))
          in \<lparr>ring0 = [ci_cpu_id bsp], ring1 = r1', ring2 = r2'\<rparr>)"

text \<open>\<open>kind\<close> is the leaf 0x1A core kind and \<open>max_leaf\<close> the highest basic CPUID leaf.\<close>

definition detect_core_type :: "u32 \<Rightarrow> u32 \<Rightarrow> core_type" where
  "detect_core_type max_leaf eax =
     (if max_leaf < 0x1A then Performance
      else let kind = drop_bit 24 eax AND 0xFF in if kind = 0x20 then Efficiency else Performance)"

definition boot_cpus :: "u32 \<Rightarrow> core_type \<Rightarrow> nat \<Rightarrow> smp \<Rightarrow> cpu_info list" where
  "boot_cpus bsp_lapic bsp_type ap_count s =
     \<lparr>ci_cpu_id = 0, ci_lapic_id = bsp_lapic, ci_core_type = bsp_type, ci_is_bsp = True\<rparr> #
     map (\<lambda>i. case ap_pcpu_at i s of
            Some p \<Rightarrow> \<lparr>ci_cpu_id = of_nat i + 1, ci_lapic_id = pc_lapic_id p,
              ci_core_type = (if pc_cpu_type p = CPU_TYPE_E_CORE then Efficiency else Performance), ci_is_bsp = False\<rparr>
          | None \<Rightarrow> \<lparr>ci_cpu_id = of_nat i + 1, ci_lapic_id = 0, ci_core_type = bsp_type, ci_is_bsp = False\<rparr>)
       [0 ..< ap_count]"

definition init_from_boot :: "u32 \<Rightarrow> core_type \<Rightarrow> u16 \<Rightarrow> smp \<Rightarrow> smp" where
  "init_from_boot bsp_lapic bsp_type ap_count s =
     s\<lparr>pools_ready := Some (assign_cores (boot_cpus bsp_lapic bsp_type (unat ap_count) s))\<rparr>"

definition ring_for_cpu :: "u16 \<Rightarrow> smp \<Rightarrow> u8" where
  "ring_for_cpu cpu s =
     (case pools_ready s of
        None \<Rightarrow> 0
      | Some p \<Rightarrow> if cpu \<in> set (ring0 p) then 0 else if cpu \<in> set (ring1 p) then 1 else 2)"

text \<open>The stages of \<^verbatim>\<open>init_roles_from_pools\<close>.\<close>

definition pool_ids :: "nat \<Rightarrow> u16 list \<Rightarrow> nat list" where
  "pool_ids usable ids = filter (\<lambda>i. i > 0 \<and> i < usable) (map unat ids)"

definition default_ids :: "nat \<Rightarrow> nat list \<times> nat list" where
  "default_ids usable =
     (let n_compute = (if usable = 2 then 1 else (usable - 1 + 1) div 2) in
      fold (\<lambda>i (cs, ws). if length cs < n_compute then (cs @ [i], ws) else (cs, ws @ [i])) [1 ..< usable] ([], []))"

definition role_ids :: "core_pools option \<Rightarrow> nat \<Rightarrow> nat list \<times> nat list" where
  "role_ids pools usable =
     (let ids = (case pools of None \<Rightarrow> ([], []) | Some p \<Rightarrow> (pool_ids usable (ring1 p), pool_ids usable (ring2 p)));
          ids' = (if fst ids = [] \<and> snd ids = [] \<and> usable > 1 then default_ids usable else ids)
      in if usable = 2 then ([1], []) else ids')"

definition memory_count :: "nat \<Rightarrow> nat" where
  "memory_count usable = (if usable \<ge> 8 then max (usable div 8) 1 else if usable \<ge> 5 then 1 else 0)"

fun add_compute_candidates :: "nat \<Rightarrow> nat \<Rightarrow> nat list \<Rightarrow> nat list \<Rightarrow> nat list" where
  "add_compute_candidates memory_n n_compute [] cand = cand"
| "add_compute_candidates memory_n n_compute (i # is) cand =
     (if length cand \<ge> memory_n then cand
      else add_compute_candidates memory_n n_compute is (if n_compute > 1 \<or> cand = [] then cand @ [i] else cand))"

definition memory_candidates :: "nat \<Rightarrow> nat list \<Rightarrow> nat list \<Rightarrow> nat list" where
  "memory_candidates usable compute_ids worker_ids =
     (let memory_n = memory_count usable;
          max_from_workers = (if usable \<ge> 4 \<and> worker_ids \<noteq> [] then length worker_ids - 1 else length worker_ids);
          cand = take (min max_from_workers memory_n) (rev worker_ids)
      in if memory_n > length cand then add_compute_candidates memory_n (length compute_ids) (rev compute_ids) cand else cand)"

definition count_role :: "core_role_kind \<Rightarrow> nat \<Rightarrow> smp \<Rightarrow> nat" where
  "count_role r usable s = length (filter (\<lambda>i. core_role i s = r) [0 ..< usable])"

definition set_roles :: "core_role_kind \<Rightarrow> nat list \<Rightarrow> smp \<Rightarrow> smp" where
  "set_roles r ids s = fold (\<lambda>i. set_core_role i r) ids s"

definition init_roles_from_pools :: "nat \<Rightarrow> smp \<Rightarrow> smp" where
  "init_roles_from_pools n_req s =
     (let n = max (if n_req = 0 then unat (cpu_count s) else n_req) 1;
          s1 = (if n > MAX_CORES then slog (LogTooManyCores n) s else s);
          usable = min n MAX_CORES;
          s2 = fold (\<lambda>i. set_core_role i (if i = 0 then SystemCore else IdleCore)) [0 ..< MAX_CORES] s1;
          s3 = set_core_role 0 SystemCore s2;
          (compute_ids, worker_ids) = role_ids (pools_ready s3) usable;
          s4 = set_roles WorkerCore worker_ids (set_roles ComputeCore compute_ids s3);
          s5 = set_roles MemoryCore (take (memory_count usable) (memory_candidates usable compute_ids worker_ids)) s4;
          s6 = slog (LogRoles usable (count_role SystemCore usable s5) (count_role ComputeCore usable s5)
                 (count_role WorkerCore usable s5) (count_role MemoryCore usable s5)) s5
      in init_core_carves s6)"

definition init_default_roles :: "smp \<Rightarrow> smp" where
  "init_default_roles s = init_roles_from_pools 0 s"

definition affinity_allows :: "nat \<Rightarrow> u8 \<Rightarrow> smp \<Rightarrow> bool" where
  "affinity_allows core ring s =
     (if ring = 0 then core = 0
      else let role = core_role core s in
        if ring = 1 then role \<in> {ComputeCore, WorkerCore}
        else if ring = 2 then role \<in> {WorkerCore, MemoryCore, ComputeCore}
        else if ring = 3 then role \<in> {MemoryCore, WorkerCore}
        else role \<noteq> SystemCore)"

section \<open>Stealing\<close>

text \<open>First pass: the smallest length above one among the victims.\<close>

definition steal_level :: "nat \<Rightarrow> smp \<Rightarrow> nat" where
  "steal_level core s =
     (let n = n_cores s in
      fold (\<lambda>off m. let victim = (core + off) mod n in
              if victim = core then m
              else let l = rq_len (queue s victim) in if l > 1 \<and> l < m then l else m)
        [1 ..< n] USIZE_MAX)"

text \<open>
  The second pass and the fallback have the same body and differ in the lengths at which they look.  A task the thief may not run
  goes back to the end of the victim's queue.
\<close>

fun steal_scan :: "(nat \<Rightarrow> bool) \<Rightarrow> nat \<Rightarrow> nat \<Rightarrow> nat list \<Rightarrow> smp \<Rightarrow> agent_task option \<times> smp" where
  "steal_scan look core n [] s = (None, s)"
| "steal_scan look core n (off # offs) s =
     (let victim = (core + off) mod n in
      if victim = core then steal_scan look core n offs s
      else if \<not> look (rq_len (queue s victim)) then steal_scan look core n offs s
      else case rq_dequeue (queue s victim) of
        (None, q) \<Rightarrow> steal_scan look core n offs s
      | (Some task, q) \<Rightarrow>
          if \<not> affinity_allows core (at_ring task) s
          then steal_scan look core n offs (set_queue victim (snd (rq_enqueue task q)) s)
          else (Some task, bump_stats victim (\<lambda>c. c\<lparr>st_stolen := st_stolen c + 1\<rparr>) (set_queue victim q s)))"

definition steal_agent :: "nat \<Rightarrow> smp \<Rightarrow> agent_task option \<times> smp" where
  "steal_agent core s =
     (let n = n_cores s; m = steal_level core s in
      if n \<le> 1 then (None, s)
      else if m = USIZE_MAX then (None, s)
      else case steal_scan (\<lambda>l. l = m) core n [1 ..< n] s of
        (Some task, s1) \<Rightarrow> (Some task, s1)
      | (None, s1) \<Rightarrow> steal_scan (\<lambda>l. l > 1) core n [1 ..< n] s1)"

fun burst_moves :: "nat \<Rightarrow> nat \<Rightarrow> nat \<Rightarrow> nat \<Rightarrow> smp \<Rightarrow> nat \<times> smp" where
  "burst_moves 0 thief victim moved s = (moved, s)"
| "burst_moves (Suc k) thief victim moved s =
     (if rq_len (queue s victim) \<le> 1 then (moved, s)
      else case rq_dequeue (queue s victim) of
        (None, q) \<Rightarrow> (moved, s)
      | (Some task, q) \<Rightarrow>
          let s1 = set_queue victim q s in
          if \<not> affinity_allows thief (at_ring task) s1
          then burst_moves k thief victim moved (set_queue victim (snd (rq_enqueue task q)) s1)
          else case enqueue_agent thief task s1 of
            (True, s2) \<Rightarrow> burst_moves k thief victim (moved + 1)
                            (bump_stats victim (\<lambda>c. c\<lparr>st_stolen := st_stolen c + 1\<rparr>) s2)
          | (False, s2) \<Rightarrow> (moved, set_queue victim (snd (rq_enqueue task (queue s2 victim))) s2))"

fun burst_scan :: "nat \<Rightarrow> nat \<Rightarrow> nat list \<Rightarrow> smp \<Rightarrow> nat \<times> smp" where
  "burst_scan thief n [] s = (0, s)"
| "burst_scan thief n (off # offs) s =
     (let victim = (thief + off) mod n in
      if victim = thief then burst_scan thief n offs s
      else let vlen = rq_len (queue s victim) in
        if vlen \<le> 1 then burst_scan thief n offs s
        else case burst_moves (max (min (vlen div 2) 4) 1) thief victim 0 s of
          (moved, s1) \<Rightarrow> if moved > 0 then (moved, s1) else burst_scan thief n offs s1)"

definition steal_burst :: "nat \<Rightarrow> smp \<Rightarrow> nat \<times> smp" where
  "steal_burst thief s =
     (if thief \<ge> MAX_CORES then (0, s)
      else if \<not> rq_is_empty (queue s thief) then (0, s)
      else if n_cores s \<le> 1 then (0, s)
      else burst_scan thief (n_cores s) [1 ..< n_cores s] s)"

section \<open>Choosing a core\<close>

definition wake_core_if_needed :: "nat \<Rightarrow> bool \<Rightarrow> smp \<Rightarrow> smp" where
  "wake_core_if_needed core was_empty s =
     (if core = 0 \<or> \<not> was_empty then s
      else if \<not> ap_polling s then s
      else if rq_is_empty (queue s core) then s
      else case ap_pcpu_at (core - 1) s of
        None \<Rightarrow> s
      | Some p \<Rightarrow> if pc_lapic_id p = 0 then s else s\<lparr>ipis := ipis s @ [pc_lapic_id p]\<rparr>)"

text \<open>The loops that keep the core with the shortest queue so far.\<close>

definition shortest :: "smp \<Rightarrow> nat list \<Rightarrow> nat \<times> nat \<Rightarrow> nat \<times> nat" where
  "shortest s cs b = fold (\<lambda>c (best, best_len). let l = rq_len (queue s c) in
     if l < best_len then (c, l) else (best, best_len)) cs b"

definition resolve_target_core :: "u8 \<Rightarrow> nat option \<Rightarrow> smp \<Rightarrow> nat" where
  "resolve_target_core ring partner s =
     (let cores = unat (cpu_count s) in
      if ring = 0 then 0
      else case partner of
        Some p \<Rightarrow> if cores > 1 then 1 + p mod (cores - 1) else 0
      | None \<Rightarrow> if cores \<le> 1 then 0
          else fst (shortest s [2 ..< min cores MAX_CORES] (1, rq_len (queue s 1))))"

definition target_role :: "u8 \<Rightarrow> core_role_kind" where
  "target_role ring =
     (if ring = 1 then ComputeCore else if ring = 2 then WorkerCore else if ring = 3 then MemoryCore else WorkerCore)"

definition resolve_target_core_for_role :: "u8 \<Rightarrow> smp \<Rightarrow> nat" where
  "resolve_target_core_for_role ring s =
     (if ring = 0 then 0
      else if unat (cpu_count s) \<le> 1 then 0
      else let aps = [1 ..< n_cores s]; want = target_role ring;
               b1 = shortest s (filter (\<lambda>c. core_role c s = want) aps) (1, USIZE_MAX);
               b2 = (if snd b1 = USIZE_MAX \<and> want = MemoryCore
                     then shortest s (filter (\<lambda>c. core_role c s = WorkerCore) aps) b1 else b1);
               b3 = (if snd b2 = USIZE_MAX then shortest s aps b2 else b2)
        in fst b3)"

section \<open>Distribution\<close>

type_synonym batch_entry = "u32 \<times> u8 \<times> u8 \<times> nat option \<times> u8"

definition distribute_one :: "u32 \<Rightarrow> batch_entry \<Rightarrow> nat \<times> smp \<Rightarrow> nat \<times> smp" where
  "distribute_one tick e ds =
     (case (e, ds) of ((idx, ring, prio, partner, urg), (distributed, s)) \<Rightarrow>
       if ring = 0 then (distributed, s)
       else if inflight_test idx s then (distributed, s)
       else let target = resolve_target_core_for_role ring s;
                task = task_new idx tick prio ring urg;
                was_empty = rq_is_empty (queue s (min target (MAX_CORES - 1)))
         in case enqueue_agent target task s of
              (True, s1) \<Rightarrow> (distributed + 1, wake_core_if_needed target was_empty (inflight_set idx s1))
            | (False, s1) \<Rightarrow> (distributed,
                bump_overflow (bump_stats (min target (MAX_CORES - 1)) (\<lambda>c. c\<lparr>st_blocked := st_blocked c + 1\<rparr>) s1)))"

definition distribute_batch :: "batch_entry list \<Rightarrow> u32 \<Rightarrow> smp \<Rightarrow> nat \<times> smp" where
  "distribute_batch batch tick s0 =
     (let s = (if tick mod 64 = 0 then slog_aggregate_stats tick s0 else s0) in
      if \<not> should_redistribute tick s then (0, s)
      else case fold (distribute_one tick) batch (0, s) of
        (distributed, s1) \<Rightarrow>
          if distributed > 0 then
            let elapsed = (if last_slog_tick s1 = - 1 then 32 else tick - last_slog_tick s1) in
            if elapsed \<ge> 32 \<or> distributed \<noteq> last_dist_count s1
            then (distributed, (slog (LogDistributed distributed) s1)\<lparr>last_slog_tick := tick, last_dist_count := distributed\<rparr>)
            else (distributed, s1)
          else (0, s1))"

text \<open>
  The task an AP takes: its own queue first, then what \<^verbatim>\<open>steal_burst\<close> moved there, then a single theft.  The registered
  tick function \<^verbatim>\<open>AGENT_TICK_FN\<close> is a parameter acting on a world of its own.
\<close>

definition next_task :: "nat \<Rightarrow> smp \<Rightarrow> agent_task option \<times> smp" where
  "next_task core s =
     (case dequeue_agent core s of
        (Some task, s1) \<Rightarrow> (Some task, s1)
      | (None, s1) \<Rightarrow>
          (case dequeue_agent core (snd (steal_burst core s1)) of
             (Some task, s2) \<Rightarrow> (Some task, s2)
           | (None, s2) \<Rightarrow> steal_agent core s2))"

definition try_run_one_agent ::
  "(u32 \<Rightarrow> u32 \<Rightarrow> 'w \<Rightarrow> bool \<times> 'w) option \<Rightarrow> nat \<Rightarrow> smp \<Rightarrow> 'w \<Rightarrow> bool \<times> smp \<times> 'w" where
  "try_run_one_agent tick_fn core s w =
     (case tick_fn of
        None \<Rightarrow> (False, s, w)
      | Some tick \<Rightarrow>
          (case next_task core s of
             (None, s1) \<Rightarrow> (False, s1, w)
           | (Some task, s1) \<Rightarrow>
               let s2 = bump_stats (min core (MAX_CORES - 1)) (\<lambda>c. c\<lparr>st_running := st_running c + 1\<rparr>) s1;
                   (ok, w') = tick (at_agent task) (at_tick task) w
               in (ok, inflight_clear (at_agent task) s2, w')))"

end
