(* ===== verification/RunQueueProofs.thy ===== *)
theory RunQueueProofs
  imports RunQueue
begin

text \<open>
  Proofs about the run queues as atomic operations: one queue is a bounded FIFO, stealing and running conserve the pending tasks,
  the inflight bitmap is exact, a stolen task may run on its thief, and the boot-time roles and memory carves are what the
  comments of the code promise.
\<close>

section \<open>One queue\<close>

definition rq_items :: "run_queue \<Rightarrow> agent_task list" where
  "rq_items q = ring_items RQ_CAP (rq_slots q) (unat (rq_head q)) (unat (rq_tail q))"

definition rq_wf :: "run_queue \<Rightarrow> bool" where
  "rq_wf q \<longleftrightarrow> length (rq_slots q) = RQ_CAP \<and> rq_head q \<le> rq_tail q \<and> unat (rq_tail q) \<le> unat (rq_head q) + RQ_CAP"

lemma rq_len_items: "rq_len q = length (rq_items q)"
  by (simp add: rq_len_def rq_items_def wordarith)

lemma rq_wf_new [simp]: "rq_wf rq_new"
  by (simp add: rq_wf_def rq_new_def)

lemma rq_items_new [simp]: "rq_items rq_new = []"
  by (simp add: rq_items_def rq_new_def)

lemma rq_enqueue_ok:
  assumes "rq_wf q" "rq_tail q \<noteq> - 1" "length (rq_items q) < RQ_CAP"
  obtains q' where "rq_enqueue x q = (True, q')" "rq_items q' = rq_items q @ [x]" "rq_wf q'" "rq_tail q' = rq_tail q + 1"
proof -
  let ?h = "unat (rq_head q)" and ?t = "unat (rq_tail q)"
  have ht: "?h \<le> ?t" "unat (rq_tail q - rq_head q) = ?t - ?h" "unat (rq_tail q + 1) = Suc ?t"
    using assms by (auto simp: rq_wf_def word_le_nat_alt unat_sub_if' unat_inc)
  have lt: "?t < ?h + RQ_CAP" using assms(3) ht(1) by (simp add: rq_items_def)
  define q' where "q' = q\<lparr>rq_slots := (rq_slots q)[?t mod RQ_CAP := x], rq_tail := rq_tail q + 1\<rparr>"
  show thesis
  proof
    show "rq_enqueue x q = (True, q')"
      using lt ht by (simp add: rq_enqueue_def Let_def q'_def unat_and_127 RQ_CAP_def)
    show "rq_items q' = rq_items q @ [x]"
      using ring_items_push [OF ht(1) lt, of "rq_slots q" x] assms(1) ht(3)
      by (simp add: rq_items_def q'_def rq_wf_def)
    show "rq_wf q'" using assms(1) ht lt by (simp add: rq_wf_def q'_def word_le_nat_alt)
  qed (simp add: q'_def)
qed

lemma rq_enqueue_full:
  "rq_wf q \<Longrightarrow> RQ_CAP \<le> length (rq_items q) \<Longrightarrow> rq_enqueue x q = (False, q)"
  by (auto simp: rq_enqueue_def rq_items_def rq_wf_def Let_def unat_sub_if' word_le_nat_alt)

lemma rq_dequeue_none: "rq_wf q \<Longrightarrow> rq_items q = [] \<Longrightarrow> rq_dequeue q = (None, q)"
  by (auto simp: rq_dequeue_def rq_items_def ring_items_def Let_def word_le_nat_alt)

lemma rq_dequeue_some:
  assumes "rq_wf q" "rq_items q = x # xs"
  obtains q' where "rq_dequeue q = (Some x, q')" "rq_items q' = xs" "rq_wf q'" "rq_tail q' = rq_tail q"
proof -
  let ?h = "unat (rq_head q)" and ?t = "unat (rq_tail q)"
  have "length (rq_items q) > 0" using assms(2) by simp
  then have lt: "?h < ?t" by (simp add: rq_items_def)
  moreover have "?t < 2 ^ 64" using unsigned_less [of "rq_tail q"] by simp
  ultimately have h: "unat (rq_head q + 1) = Suc ?h" by (intro unat_Suc_lt) simp
  have it: "rq_slots q ! (?h mod RQ_CAP) # ring_items RQ_CAP (rq_slots q) (Suc ?h) ?t = x # xs"
    using ring_items_front [OF lt, of RQ_CAP "rq_slots q"] assms(2) by (simp add: rq_items_def)
  show thesis
  proof
    show "rq_dequeue q = (Some x, q\<lparr>rq_head := rq_head q + 1\<rparr>)"
      using lt it by (simp add: rq_dequeue_def Let_def unat_and_127 RQ_CAP_def word_le_nat_alt)
    show "rq_items (q\<lparr>rq_head := rq_head q + 1\<rparr>) = xs" using it h by (simp add: rq_items_def)
    show "rq_wf (q\<lparr>rq_head := rq_head q + 1\<rparr>)"
      using assms(1) lt h by (simp add: rq_wf_def word_le_nat_alt)
  qed simp
qed

definition rq_send :: "agent_task \<Rightarrow> run_queue \<Rightarrow> run_queue res" where
  "rq_send x q = (case rq_enqueue x q of (True, q') \<Rightarrow> Inr q' | (False, q') \<Rightarrow> Inl ''full'')"

lemma rq_len_bound: "rq_wf q \<Longrightarrow> length (rq_items q) \<le> RQ_CAP"
  by (auto simp: rq_wf_def rq_items_def)

interpretation runq: bounded_fifo rq_send rq_dequeue rq_items "\<lambda>_. RQ_CAP" rq_wf "\<lambda>_ q. rq_tail q \<noteq> - 1"
proof (unfold_locales, goal_cases)
  case (1 q x)
  from rq_enqueue_ok [OF 1(1,2), of x] 1(3) obtain q' where
    "rq_enqueue x q = (True, q')" "rq_items q' = rq_items q @ [x]" "rq_wf q'" by blast
  then show ?case by (auto simp: rq_send_def)
next
  case (4 q x xs)
  from rq_dequeue_some [OF 4(1,2)] show ?case by metis
qed (simp_all add: rq_send_def rq_enqueue_full rq_dequeue_none rq_len_bound)

section \<open>All queues\<close>

definition tasks_of :: "smp \<Rightarrow> agent_task multiset" where
  "tasks_of s = sum_list (map (\<lambda>q. mset (rq_items q)) (queues s))"

definition smp_wf :: "smp \<Rightarrow> bool" where
  "smp_wf s \<longleftrightarrow> length (queues s) = MAX_CORES \<and> (\<forall>q \<in> set (queues s). rq_wf q) \<and> length (inflight s) = 4"

text \<open>No tail index wraps within the next \<open>k\<close> insertions.\<close>

definition smp_room :: "nat \<Rightarrow> smp \<Rightarrow> bool" where
  "smp_room k s \<longleftrightarrow> (\<forall>q \<in> set (queues s). unat (rq_tail q) + k < 2 ^ 64)"

definition same_env :: "smp \<Rightarrow> smp \<Rightarrow> bool" where
  "same_env s s' \<longleftrightarrow> inflight s' = inflight s \<and> core_roles s' = core_roles s \<and> cpu_count s' = cpu_count s \<and>
     heap_headroom s' = heap_headroom s"

lemma same_env_refl [simp]: "same_env s s"
  by (simp add: same_env_def)

lemma same_env_trans: "same_env a b \<Longrightarrow> same_env b c \<Longrightarrow> same_env a c"
  by (simp add: same_env_def)

lemma same_env_affinity: "same_env s s' \<Longrightarrow> affinity_allows c r s' = affinity_allows c r s"
  by (simp add: same_env_def affinity_allows_def core_role_def)

lemma same_env_n_cores: "same_env s s' \<Longrightarrow> n_cores s' = n_cores s"
  by (simp add: same_env_def n_cores_def)

lemma same_env_simps [simp]:
  "same_env s (set_queue i q s') \<longleftrightarrow> same_env s s'" "same_env s (bump_stats i f s') \<longleftrightarrow> same_env s s'"
  "same_env s (bump_overflow s') \<longleftrightarrow> same_env s s'"
  by (simp_all add: same_env_def set_queue_def bump_stats_def bump_overflow_def)

lemma queues_simps [simp]:
  "queues (bump_stats i f s) = queues s" "queues (bump_overflow s) = queues s" "queues (slog l s) = queues s"
  "queues (set_queue i q s) = (queues s)[i := q]"
  "inflight (bump_stats i f s) = inflight s" "inflight (bump_overflow s) = inflight s" "inflight (slog l s) = inflight s"
  "inflight (set_queue i q s) = inflight s"
  by (simp_all add: bump_stats_def bump_overflow_def slog_def set_queue_def)

lemma tasks_cong [simp]:
  "tasks_of (bump_stats i f s) = tasks_of s" "tasks_of (bump_overflow s) = tasks_of s" "tasks_of (slog l s) = tasks_of s"
  by (simp_all add: tasks_of_def)

lemma smp_wf_cong [simp]:
  "smp_wf (bump_stats i f s) = smp_wf s" "smp_wf (bump_overflow s) = smp_wf s" "smp_wf (slog l s) = smp_wf s"
  by (simp_all add: smp_wf_def)

lemma smp_room_cong [simp]:
  "smp_room k (bump_stats i f s) = smp_room k s" "smp_room k (bump_overflow s) = smp_room k s"
  "smp_room k (slog l s) = smp_room k s"
  by (simp_all add: smp_room_def)

lemma queue_cong [simp]:
  "queue (bump_stats i f s) j = queue s j" "queue (bump_overflow s) j = queue s j" "queue (slog l s) j = queue s j"
  by (simp_all add: queue_def)

lemma queue_set_queue: "smp_wf s \<Longrightarrow> i < MAX_CORES \<Longrightarrow> queue (set_queue i q s) j = (if i = j then q else queue s j)"
  by (simp add: queue_def smp_wf_def)

lemma queue_wf: "smp_wf s \<Longrightarrow> i < MAX_CORES \<Longrightarrow> rq_wf (queue s i)"
  by (simp add: smp_wf_def queue_def)

lemma queue_room: "smp_wf s \<Longrightarrow> smp_room k s \<Longrightarrow> i < MAX_CORES \<Longrightarrow> unat (rq_tail (queue s i)) + k < 2 ^ 64"
  by (simp add: smp_wf_def smp_room_def queue_def)

lemma queue_not_wrapping:
  assumes "smp_wf s" "smp_room (Suc k) s" "i < MAX_CORES"
  shows "rq_tail (queue s i) \<noteq> - 1"
  using queue_room [OF assms] by (simp add: max_word_unat)

lemma smp_room_mono: "smp_room k s \<Longrightarrow> m \<le> k \<Longrightarrow> smp_room m s"
  by (auto simp: smp_room_def)

lemma set_queue_wf: "smp_wf s \<Longrightarrow> rq_wf q \<Longrightarrow> smp_wf (set_queue i q s)"
  by (auto simp: smp_wf_def dest: set_update_subset_insert [THEN subsetD])

lemma set_queue_room: "smp_room k s \<Longrightarrow> unat (rq_tail q) + k < 2 ^ 64 \<Longrightarrow> smp_room k (set_queue i q s)"
  by (auto simp: smp_room_def dest: set_update_subset_insert [THEN subsetD])

lemma sum_list_update:
  "i < length xs \<Longrightarrow> sum_list (map f (xs[i := y])) + f (xs ! i) = sum_list (map f xs) + f y"
  for f :: "'a \<Rightarrow> 'b::comm_monoid_add"
proof (induction xs arbitrary: i)
  case (Cons x xs)
  then show ?case by (cases i) (auto simp: ac_simps)
qed simp

lemma tasks_set_queue:
  "smp_wf s \<Longrightarrow> i < MAX_CORES \<Longrightarrow>
   tasks_of (set_queue i q s) + mset (rq_items (queue s i)) = tasks_of s + mset (rq_items q)"
  using sum_list_update [of i "queues s" "\<lambda>q. mset (rq_items q)" q]
  by (simp add: tasks_of_def smp_wf_def queue_def)

lemma tasks_queue: "smp_wf s \<Longrightarrow> i < MAX_CORES \<Longrightarrow> mset (rq_items (queue s i)) \<subseteq># tasks_of s"
  using tasks_set_queue [of s i rq_new] by (metis empty_neutral(2) mset.simps(1) mset_subset_eq_add_right rq_items_new)

section \<open>Effects of the operations on the queues\<close>

lemma queue_dequeue:
  assumes "smp_wf s" "i < MAX_CORES" "rq_dequeue (queue s i) = (Some x, q)"
  shows "rq_items (queue s i) = x # rq_items q" "rq_wf q" "rq_tail q = rq_tail (queue s i)"
    "smp_wf (set_queue i q s)" "tasks_of s = tasks_of (set_queue i q s) + {#x#}"
    "smp_room k s \<Longrightarrow> smp_room k (set_queue i q s)"
proof -
  have wf: "rq_wf (queue s i)" using assms queue_wf by blast
  then obtain y ys where it: "rq_items (queue s i) = y # ys"
    using rq_dequeue_none assms(3) by (cases "rq_items (queue s i)") auto
  from rq_dequeue_some [OF wf it] assms(3)
  show *: "rq_items (queue s i) = x # rq_items q" "rq_wf q" "rq_tail q = rq_tail (queue s i)" using it by auto
  show "smp_wf (set_queue i q s)" using set_queue_wf assms(1) *(2) by blast
  show "tasks_of s = tasks_of (set_queue i q s) + {#x#}"
    using tasks_set_queue [OF assms(1,2), of q] by (simp add: *(1))
  show "smp_room k s \<Longrightarrow> smp_room k (set_queue i q s)"
    using set_queue_room queue_room [OF assms(1) _ assms(2)] *(3) by metis
qed

lemma queue_dequeue_none:
  assumes "smp_wf s" "i < MAX_CORES" "rq_dequeue (queue s i) = (None, q)"
  shows "rq_items (queue s i) = []" "q = queue s i"
proof -
  have wf: "rq_wf (queue s i)" using assms queue_wf by blast
  show "rq_items (queue s i) = []"
  proof (cases "rq_items (queue s i)")
    case (Cons x xs)
    from rq_dequeue_some [OF wf Cons] assms(3) show ?thesis by auto
  qed simp
  then show "q = queue s i" using rq_dequeue_none [OF wf] assms(3) by simp
qed

text \<open>Taking a task and putting it back at the end rotates the queue.\<close>

lemma queue_put_back:
  assumes "smp_wf s" "i < MAX_CORES" "rq_dequeue (queue s i) = (Some x, q)" "smp_room (Suc k) s"
  shows "rq_items (snd (rq_enqueue x q)) = rq_items q @ [x]" "rq_wf (snd (rq_enqueue x q))"
    "smp_wf (set_queue i (snd (rq_enqueue x q)) s)" "tasks_of (set_queue i (snd (rq_enqueue x q)) s) = tasks_of s"
    "smp_room k (set_queue i (snd (rq_enqueue x q)) s)"
proof -
  note d = queue_dequeue [OF assms(1-3)]
  have "length (rq_items q) < RQ_CAP" using rq_len_bound [OF queue_wf [OF assms(1,2)]] d(1) by simp
  moreover have "rq_tail q \<noteq> - 1" using queue_not_wrapping [OF assms(1,4,2)] d(3) by simp
  ultimately obtain q' where q': "rq_enqueue x q = (True, q')" "rq_items q' = rq_items q @ [x]" "rq_wf q'"
    "rq_tail q' = rq_tail q + 1" using rq_enqueue_ok [OF d(2)] by blast
  then show "rq_items (snd (rq_enqueue x q)) = rq_items q @ [x]" "rq_wf (snd (rq_enqueue x q))" by simp_all
  show "smp_wf (set_queue i (snd (rq_enqueue x q)) s)" using set_queue_wf assms(1) q' by simp
  show "tasks_of (set_queue i (snd (rq_enqueue x q)) s) = tasks_of s"
    using tasks_set_queue [OF assms(1,2), of q'] q' by (simp add: d(1))
  have "unat (rq_tail q') + k < 2 ^ 64"
    using queue_room [OF assms(1,4,2)] q'(4) d(3) unat_inc [OF \<open>rq_tail q \<noteq> - 1\<close>] by simp
  then show "smp_room k (set_queue i (snd (rq_enqueue x q)) s)"
    using set_queue_room [of k s q' i] smp_room_mono [OF assms(4), of k] q'(1) by simp
qed

lemma enqueue_agent_effect:
  assumes "smp_wf s" "smp_room (Suc k) s" "enqueue_agent c x s = (ok, s')"
  shows "smp_wf s'" "tasks_of s' = (if ok then add_mset x (tasks_of s) else tasks_of s)" "smp_room k s'" "same_env s s'"
    "i < MAX_CORES \<Longrightarrow> rq_items (queue s' i) = (if ok \<and> i = c then rq_items (queue s i) @ [x] else rq_items (queue s i))"
    "\<not> ok \<Longrightarrow> queues s' = queues s" "ok \<Longrightarrow> c < MAX_CORES"
proof -
  have room: "smp_room k s" using smp_room_mono [OF assms(2)] by simp
  consider (no) "\<not> ok" "s' = s \<or> s' = bump_overflow s"
    | (yes) q where "c < MAX_CORES" "ok" "rq_enqueue x (queue s c) = (True, q)"
        "s' = bump_stats c (\<lambda>c. c\<lparr>st_enqueued := st_enqueued c + 1\<rparr>) (set_queue c q s)"
    using assms(3) by (auto simp: enqueue_agent_def split: if_splits prod.splits bool.splits)
  then have "smp_wf s' \<and> tasks_of s' = (if ok then add_mset x (tasks_of s) else tasks_of s) \<and> smp_room k s' \<and> same_env s s' \<and>
    (i < MAX_CORES \<longrightarrow> rq_items (queue s' i) = (if ok \<and> i = c then rq_items (queue s i) @ [x] else rq_items (queue s i))) \<and>
    (\<not> ok \<longrightarrow> queues s' = queues s) \<and> (ok \<longrightarrow> c < MAX_CORES)" for i
  proof cases
    case no
    then show ?thesis using assms(1) room by (auto simp: queue_def)
  next
    case yes
    have nw: "rq_tail (queue s c) \<noteq> - 1" and wf: "rq_wf (queue s c)"
      using queue_not_wrapping [OF assms(1,2) yes(1)] queue_wf [OF assms(1) yes(1)] .
    have "length (rq_items (queue s c)) < RQ_CAP"
      using rq_enqueue_full [OF wf, of x] yes(3) by fastforce
    with rq_enqueue_ok [OF wf nw, of x] yes(3)
    have q: "rq_items q = rq_items (queue s c) @ [x]" "rq_wf q" "rq_tail q = rq_tail (queue s c) + 1" by auto
    have "unat (rq_tail q) + k < 2 ^ 64"
      using queue_room [OF assms(1,2) yes(1)] q(3) unat_inc [OF nw] by simp
    then have "smp_room k (set_queue c q s)" using set_queue_room room by blast
    moreover have "tasks_of (set_queue c q s) = add_mset x (tasks_of s)"
      using tasks_set_queue [OF assms(1) yes(1), of q] q(1) by simp
    ultimately show ?thesis
      using yes(1,2,4) set_queue_wf [OF assms(1) q(2)] q(1) by (simp add: queue_set_queue [OF assms(1)])
  qed
  then show "smp_wf s'" "tasks_of s' = (if ok then add_mset x (tasks_of s) else tasks_of s)" "smp_room k s'" "same_env s s'"
    "i < MAX_CORES \<Longrightarrow> rq_items (queue s' i) = (if ok \<and> i = c then rq_items (queue s i) @ [x] else rq_items (queue s i))"
    "\<not> ok \<Longrightarrow> queues s' = queues s" "ok \<Longrightarrow> c < MAX_CORES" by blast+
qed

section \<open>Stealing\<close>

text \<open>Nothing left its queue, though a queue may have been rotated.\<close>

definition rotated :: "smp \<Rightarrow> smp \<Rightarrow> bool" where
  "rotated s s' \<longleftrightarrow> same_env s s' \<and> smp_wf s' \<and> tasks_of s' = tasks_of s \<and>
     (\<forall>i < MAX_CORES. mset (rq_items (queue s' i)) = mset (rq_items (queue s i)))"

lemma rotated_refl [simp]: "smp_wf s \<Longrightarrow> rotated s s"
  by (simp add: rotated_def)

lemma rotated_trans: "rotated a b \<Longrightarrow> rotated b c \<Longrightarrow> rotated a c"
  unfolding rotated_def by (metis same_env_trans)

lemma rotated_length: "rotated s s' \<Longrightarrow> i < MAX_CORES \<Longrightarrow> length (rq_items (queue s' i)) = length (rq_items (queue s i))"
  unfolding rotated_def by (metis size_mset)

lemma rotated_set: "rotated s s' \<Longrightarrow> i < MAX_CORES \<Longrightarrow> set (rq_items (queue s' i)) = set (rq_items (queue s i))"
  unfolding rotated_def by (metis set_mset_mset)

lemma put_back_rotated:
  assumes "smp_wf s" "i < MAX_CORES" "rq_dequeue (queue s i) = (Some x, q)" "smp_room (Suc k) s"
  shows "rotated s (set_queue i (snd (rq_enqueue x q)) s)"
  using queue_put_back [OF assms] queue_dequeue(1) [OF assms(1-3)]
  by (simp add: rotated_def queue_set_queue [OF assms(1,2)])

text \<open>Victim \<open>v\<close> has nothing for the thief: it is not looked at, or its queue holds a task the thief may not run.\<close>

definition no_loot :: "(nat \<Rightarrow> bool) \<Rightarrow> nat \<Rightarrow> nat \<Rightarrow> smp \<Rightarrow> bool" where
  "no_loot look core v s \<longleftrightarrow> v = core \<or> \<not> look (length (rq_items (queue s v))) \<or>
     (\<exists>t \<in> set (rq_items (queue s v)). \<not> affinity_allows core (at_ring t) s) \<or> rq_items (queue s v) = []"

lemma rotated_no_loot:
  assumes "rotated s s'" "v < MAX_CORES"
  shows "no_loot look core v s' = no_loot look core v s"
proof -
  have "same_env s s'" using assms(1) by (simp add: rotated_def)
  moreover have "rq_items (queue s' v) = [] \<longleftrightarrow> rq_items (queue s v) = []" using rotated_length [OF assms] by auto
  ultimately show ?thesis
    by (simp add: no_loot_def rotated_length [OF assms] rotated_set [OF assms] same_env_affinity)
qed

text \<open>What a scan returns.\<close>

definition scan_spec :: "nat \<Rightarrow> nat \<Rightarrow> agent_task option \<Rightarrow> smp \<Rightarrow> smp \<Rightarrow> bool" where
  "scan_spec k core r s s' \<longleftrightarrow> smp_room k s' \<and> (case r of
      None \<Rightarrow> rotated s s'
    | Some t \<Rightarrow> smp_wf s' \<and> same_env s s' \<and> tasks_of s = add_mset t (tasks_of s') \<and> affinity_allows core (at_ring t) s)"

lemma scan_spec_after:
  assumes "rotated s s1" "scan_spec k core r s1 s2"
  shows "scan_spec k core r s s2"
proof -
  have "same_env s s1" "tasks_of s1 = tasks_of s" using assms(1) by (auto simp: rotated_def)
  then show ?thesis using assms rotated_trans same_env_trans same_env_affinity
    by (auto simp: scan_spec_def split: option.splits)
qed

lemma steal_scan_spec:
  assumes "smp_wf s" "smp_room (length offs + k) s" "0 < n" "n \<le> MAX_CORES"
  shows "scan_spec k core (fst (steal_scan look core n offs s)) s (snd (steal_scan look core n offs s)) \<and>
    (fst (steal_scan look core n offs s) = None \<longrightarrow> (\<forall>off \<in> set offs. no_loot look core ((core + off) mod n) s))"
  using assms(1,2)
proof (induction offs arbitrary: s)
  case Nil
  then show ?case by (simp add: scan_spec_def)
next
  case (Cons off offs)
  let ?v = "(core + off) mod n"
  have v: "?v < MAX_CORES" using assms(3,4) mod_less_divisor [of n "core + off"] by linarith
  have room: "smp_room (Suc (length offs + k)) s" "smp_room (length offs + k) s"
    using Cons.prems(2) smp_room_mono by simp_all
  obtain r q where dq: "rq_dequeue (queue s ?v) = (r, q)" by (cases "rq_dequeue (queue s ?v)") auto
  consider (skip) "?v = core \<or> \<not> look (rq_len (queue s ?v)) \<or> r = None"
    | (ret) t where "\<not> (?v = core \<or> \<not> look (rq_len (queue s ?v)))" "r = Some t" "\<not> affinity_allows core (at_ring t) s"
    | (take) t where "\<not> (?v = core \<or> \<not> look (rq_len (queue s ?v)))" "r = Some t" "affinity_allows core (at_ring t) s"
    by (cases r) auto
  then show ?case
  proof cases
    case skip
    then have eq: "steal_scan look core n (off # offs) s = steal_scan look core n offs s" using dq by (auto simp: Let_def)
    have "no_loot look core ?v s"
      using skip queue_dequeue_none [OF Cons.prems(1) v] dq by (auto simp: no_loot_def rq_len_items)
    then show ?thesis unfolding eq using Cons.IH [OF Cons.prems(1) room(2)] by simp
  next
    case ret
    note dq' = dq [unfolded ret(2)]
    let ?s1 = "set_queue ?v (snd (rq_enqueue t q)) s"
    have eq: "steal_scan look core n (off # offs) s = steal_scan look core n offs ?s1" using ret dq' by (auto simp: Let_def)
    have rot: "rotated s ?s1" using put_back_rotated [OF Cons.prems(1) v dq' room(1)] .
    have "no_loot look core ?v s"
      using queue_dequeue(1) [OF Cons.prems(1) v dq'] ret(3) by (simp add: no_loot_def)
    moreover have "no_loot look core ((core + o') mod n) ?s1 = no_loot look core ((core + o') mod n) s" for o'
      by (rule rotated_no_loot [OF rot]) (use assms(3,4) mod_less_divisor [of n "core + o'"] in linarith)
    moreover have "smp_wf ?s1" "smp_room (length offs + k) ?s1"
      using queue_put_back [OF Cons.prems(1) v dq' room(1)] by blast+
    ultimately show ?thesis
      unfolding eq using Cons.IH [of ?s1] scan_spec_after [OF rot] by simp
  next
    case take
    note dq' = dq [unfolded take(2)]
    have "smp_room k s" using smp_room_mono [OF room(1)] by simp
    then show ?thesis
      using take dq' queue_dequeue [OF Cons.prems(1) v dq'] by (auto simp: Let_def scan_spec_def)
  qed
qed

lemma steal_level_max:
  assumes "steal_level core s = USIZE_MAX" "off \<in> {1 ..< n_cores s}" "smp_wf s"
  shows "no_loot (\<lambda>l. l > 1) core ((core + off) mod n_cores s) s"
proof -
  let ?f = "\<lambda>off m. let victim = (core + off) mod n_cores s in
              if victim = core then m
              else let l = rq_len (queue s victim) in if l > 1 \<and> l < m then l else m"
  have fold_le: "fold ?f os m \<le> m" for os m
  proof (induction os arbitrary: m)
    case (Cons a os)
    have "?f a m \<le> m" by (simp add: Let_def)
    with Cons [of "?f a m"] show ?case by (simp only: fold.simps o_apply)
  qed simp
  have all: "fold ?f os m = USIZE_MAX \<Longrightarrow> off \<in> set os \<Longrightarrow> ?f off USIZE_MAX = USIZE_MAX" if "m \<le> USIZE_MAX" for os m
    using that
  proof (induction os arbitrary: m)
    case (Cons a os)
    have le: "?f a m \<le> m" by (simp add: Let_def)
    have "USIZE_MAX \<le> ?f a m" using fold_le [of os "?f a m"] Cons.prems(1) by (simp only: fold.simps o_apply)
    then have "m = USIZE_MAX" "?f a m = USIZE_MAX" using le Cons.prems(3) by linarith+
    with Cons show ?case by (cases "a = off") (simp_all only: fold.simps o_apply set_simps insert_iff order_refl, blast)
  qed simp
  have "fold ?f [1 ..< n_cores s] USIZE_MAX = USIZE_MAX"
    using assms(1) unfolding steal_level_def by (simp only: Let_def)
  from all [OF _ this] have "?f off USIZE_MAX = USIZE_MAX" using assms(2) by simp
  moreover have "(core + off) mod n_cores s < MAX_CORES"
    using assms(2) mod_less_divisor [of "n_cores s" "core + off"] by (auto simp: n_cores_def)
  then have "rq_len (queue s ((core + off) mod n_cores s)) < USIZE_MAX"
    using rq_len_bound [OF queue_wf [OF assms(3)]] by (fastforce simp: rq_len_items RQ_CAP_def USIZE_MAX_def)
  ultimately show ?thesis by (auto simp: no_loot_def rq_len_items Let_def split: if_splits)
qed

lemma steal_agent_spec:
  assumes "smp_wf s" "smp_room (2 * MAX_CORES + k) s"
  shows "scan_spec k core (fst (steal_agent core s)) s (snd (steal_agent core s)) \<and>
    (fst (steal_agent core s) = None \<longrightarrow>
      (\<forall>off \<in> {1 ..< n_cores s}. no_loot (\<lambda>l. l > 1) core ((core + off) mod n_cores s) s))"
proof -
  let ?n = "n_cores s" and ?m = "steal_level core s"
  have n: "?n \<le> MAX_CORES" by (simp add: n_cores_def)
  have roomk: "smp_room k s" using smp_room_mono [OF assms(2)] by simp
  consider "?n \<le> 1" | "1 < ?n" "?m = USIZE_MAX" | (scan) "1 < ?n" "?m \<noteq> USIZE_MAX" by linarith
  then show ?thesis
  proof cases
    case scan
    obtain r1 s1 where one: "steal_scan (\<lambda>l. l = ?m) core ?n [1 ..< ?n] s = (r1, s1)" by fastforce
    have "smp_room (length [1 ..< ?n] + (MAX_CORES + k)) s" using smp_room_mono [OF assms(2)] n by simp
    from steal_scan_spec [OF assms(1) this _ n, of core "\<lambda>l. l = ?m"] scan(1) one
    have spec1: "scan_spec (MAX_CORES + k) core r1 s s1" by simp
    show ?thesis
    proof (cases r1)
      case None
      then have rot: "rotated s s1" and room: "smp_room (MAX_CORES + k) s1" using spec1 by (simp_all add: scan_spec_def)
      then have wf: "smp_wf s1" "n_cores s1 = ?n" by (auto simp: rotated_def same_env_n_cores)
      have "smp_room (length [1 ..< ?n] + k) s1" using smp_room_mono [OF room] n by simp
      note two = steal_scan_spec [OF wf(1) this _ n, of core "\<lambda>l. l > 1"]
      have eq: "steal_agent core s = steal_scan (\<lambda>l. l > 1) core ?n [1 ..< ?n] s1"
        using scan one None by (simp add: steal_agent_def Let_def)
      have "no_loot (\<lambda>l. l > 1) core ((core + off) mod ?n) s1 = no_loot (\<lambda>l. l > 1) core ((core + off) mod ?n) s" for off
        by (rule rotated_no_loot [OF rot]) (use scan n mod_less_divisor [of ?n "core + off"] in linarith)
      then show ?thesis unfolding eq using two scan(1) scan_spec_after [OF rot] by simp
    next
      case (Some t)
      then show ?thesis
        using spec1 scan one smp_room_mono [of "MAX_CORES + k" s1 k] by (auto simp: steal_agent_def Let_def scan_spec_def)
    qed
  qed (use assms roomk steal_level_max [of core s] in \<open>auto simp: steal_agent_def Let_def scan_spec_def\<close>)
qed

text \<open>What a burst does: it moves allowed tasks to the thief, or nothing but rotate.\<close>

definition burst_spec :: "nat \<Rightarrow> nat \<Rightarrow> nat \<Rightarrow> smp \<Rightarrow> smp \<Rightarrow> bool" where
  "burst_spec k thief m s s' \<longleftrightarrow> smp_room k s' \<and> smp_wf s' \<and> same_env s s' \<and> tasks_of s' = tasks_of s \<and>
     length (rq_items (queue s' thief)) = length (rq_items (queue s thief)) + m \<and>
     (\<forall>t \<in> set (rq_items (queue s' thief)). t \<in> set (rq_items (queue s thief)) \<or> affinity_allows thief (at_ring t) s) \<and>
     (m = 0 \<longrightarrow> rotated s s')"

lemma burst_spec_refl: "smp_wf s \<Longrightarrow> smp_room k s \<Longrightarrow> burst_spec k thief 0 s s"
  by (simp add: burst_spec_def)

lemma burst_spec_trans:
  assumes "burst_spec j thief m1 s s1" "burst_spec k thief m2 s1 s2"
  shows "burst_spec k thief (m1 + m2) s s2"
proof -
  have env: "same_env s s1" "same_env s1 s2" using assms by (auto simp: burst_spec_def)
  have "t \<in> set (rq_items (queue s thief)) \<or> affinity_allows thief (at_ring t) s"
    if t: "t \<in> set (rq_items (queue s2 thief))" for t
    using assms t same_env_affinity [OF env(1)] unfolding burst_spec_def by blast
  moreover have "m1 + m2 = 0 \<longrightarrow> rotated s s2"
    using assms rotated_trans unfolding burst_spec_def by blast
  ultimately show ?thesis using assms same_env_trans [OF env] by (simp add: burst_spec_def)
qed

lemma burst_spec_rotated:
  "rotated s s1 \<Longrightarrow> smp_room k s1 \<Longrightarrow> thief < MAX_CORES \<Longrightarrow> burst_spec k thief 0 s s1"
  using rotated_length [of s s1 thief] rotated_set [of s s1 thief] by (simp add: burst_spec_def) (simp add: rotated_def)

lemma set_queue_twice: "set_queue i a (set_queue i b s) = set_queue i a s"
  by (simp add: set_queue_def)

lemma queues_cong_effect:
  assumes "queues a = queues b" "same_env b a"
  shows "rotated s b \<Longrightarrow> same_env s a \<Longrightarrow> rotated s a" "smp_room k b \<Longrightarrow> smp_room k a"
  using assms by (auto simp: rotated_def smp_wf_def tasks_of_def queue_def same_env_def smp_room_def)

lemma burst_step_moved:
  assumes "smp_wf s" "smp_room (Suc k) s" "thief < MAX_CORES" "victim < MAX_CORES" "thief \<noteq> victim"
    and dq: "rq_dequeue (queue s victim) = (Some t, q)" and "affinity_allows thief (at_ring t) s"
    and eq: "enqueue_agent thief t (set_queue victim q s) = (True, s2)"
  shows "burst_spec k thief 1 s s2"
proof -
  note d = queue_dequeue [OF assms(1,4) dq]
  note e = enqueue_agent_effect [OF d(4) d(6) [OF assms(2)] eq]
  have "rq_items (queue s2 thief) = rq_items (queue s thief) @ [t]"
    using e(5) [OF assms(3)] assms(5) by (simp add: queue_set_queue [OF assms(1,4)])
  moreover have "same_env s s2" using e(4) same_env_trans [of s "set_queue victim q s" s2] by simp
  ultimately show ?thesis using e(1-3) d(5) assms(7) by (simp add: burst_spec_def)
qed

lemma burst_step_refused:
  assumes "smp_wf s" "smp_room (Suc k) s" "thief < MAX_CORES" "victim < MAX_CORES"
    and dq: "rq_dequeue (queue s victim) = (Some t, q)"
    and eq: "enqueue_agent thief t (set_queue victim q s) = (False, s2)"
  shows "burst_spec k thief 0 s (set_queue victim (snd (rq_enqueue t (queue s2 victim))) s2)"
proof -
  let ?p = "set_queue victim (snd (rq_enqueue t q)) s"
  note d = queue_dequeue [OF assms(1,4) dq]
  note e = enqueue_agent_effect [OF d(4) d(6) [OF assms(2)] eq]
  have "queue s2 victim = q"
    using e(6) queue_set_queue [OF assms(1,4), of q victim] by (simp add: queue_def)
  then have qs: "queues (set_queue victim (snd (rq_enqueue t (queue s2 victim))) s2) = queues ?p"
    using e(6) by simp
  have env: "same_env s s2" using e(4) same_env_trans [of s "set_queue victim q s" s2] by simp
  then have "same_env ?p (set_queue victim (snd (rq_enqueue t (queue s2 victim))) s2)"
    by (simp add: same_env_def set_queue_def)
  note cong = queues_cong_effect(1) [OF qs this, of s] queues_cong_effect(2) [OF qs this]
  show ?thesis
    using cong burst_spec_rotated put_back_rotated [OF assms(1,4) dq assms(2)]
      queue_put_back(5) [OF assms(1,4) dq assms(2)] env assms(3) by simp
qed

lemma burst_moves_spec:
  assumes "thief < MAX_CORES" "victim < MAX_CORES" "thief \<noteq> victim"
    and "smp_wf s" "smp_room (j + k) s" "burst_moves j thief victim moved s = (m', s')"
  shows "\<exists>d. m' = moved + d \<and> burst_spec k thief d s s'"
  using assms(4-)
proof (induction j arbitrary: s moved)
  case 0
  then show ?case using burst_spec_refl by simp
next
  case (Suc j)
  have room: "smp_room (Suc (j + k)) s" "smp_room k s" using Suc.prems(2) smp_room_mono by auto
  obtain r q where dq: "rq_dequeue (queue s victim) = (r, q)" by (cases "rq_dequeue (queue s victim)") auto
  consider (stop) "rq_len (queue s victim) \<le> 1 \<or> r = None"
    | (go) t where "\<not> rq_len (queue s victim) \<le> 1" "r = Some t"
    by (cases r) auto
  then show ?case
  proof cases
    case stop
    then have "m' = moved" "s' = s" using Suc.prems(3) dq by (auto split: if_splits)
    then show ?thesis using burst_spec_refl Suc.prems(1) room(2) by simp
  next
    case go
    note dq' = dq [unfolded go(2)]
    let ?s1 = "set_queue victim q s"
    have aff: "affinity_allows thief (at_ring t) ?s1 = affinity_allows thief (at_ring t) s"
      by (simp add: same_env_affinity)
    obtain ok s2 where eq: "enqueue_agent thief t ?s1 = (ok, s2)" by fastforce
    have step: "\<exists>d. m' = mv + d \<and> burst_spec k thief d sx s'"
      if spec: "burst_spec (j + k) thief e sx sy" and run: "burst_moves j thief victim (mv + e) sy = (m', s')" for mv e sx sy
    proof -
      have "smp_wf sy" "smp_room (j + k) sy" using spec by (auto simp: burst_spec_def)
      from Suc.IH [OF this run] obtain d where "m' = mv + e + d" "burst_spec k thief d sy s'" by blast
      with burst_spec_trans [OF spec] show ?thesis by (intro exI [of _ "e + d"]) simp
    qed
    consider "\<not> affinity_allows thief (at_ring t) s" | "affinity_allows thief (at_ring t) s" "ok"
      | "affinity_allows thief (at_ring t) s" "\<not> ok" by blast
    then show ?thesis
    proof cases
      case 1
      have "burst_spec (j + k) thief 0 s (set_queue victim (snd (rq_enqueue t q)) s)"
        using burst_spec_rotated [OF put_back_rotated [OF Suc.prems(1) assms(2) dq' room(1)]]
          queue_put_back(5) [OF Suc.prems(1) assms(2) dq' room(1)] assms(1) by blast
      from step [OF this] 1 show ?thesis using Suc.prems(3) go(1) dq' by (simp add: Let_def aff set_queue_twice)
    next
      case 2
      from burst_step_moved [OF Suc.prems(1) room(1) assms(1-3) dq' 2(1)] eq 2(2)
      have "burst_spec (j + k) thief 1 s (bump_stats victim (\<lambda>c. c\<lparr>st_stolen := st_stolen c + 1\<rparr>) s2)"
        by (simp add: burst_spec_def rotated_def)
      from step [OF this] 2 show ?thesis using Suc.prems(3) go(1) dq' eq by (simp add: Let_def aff)
    next
      case 3
      have "smp_room (Suc k) s" using smp_room_mono [OF room(1)] by simp
      from burst_step_refused [OF Suc.prems(1) this assms(1,2) dq'] eq 3
      show ?thesis using Suc.prems(3) go(1) dq' by (auto simp: Let_def aff)
    qed
  qed
qed

lemma burst_scan_spec:
  assumes "thief < MAX_CORES" "0 < n" "n \<le> MAX_CORES"
    and "smp_wf s" "smp_room (4 * length offs + k) s" "burst_scan thief n offs s = (m, s')"
  shows "burst_spec k thief m s s'"
  using assms(4-)
proof (induction offs arbitrary: s)
  case Nil
  then show ?case using burst_spec_refl by simp
next
  case (Cons off offs)
  let ?v = "(thief + off) mod n" and ?w = "max (min (rq_len (queue s ((thief + off) mod n)) div 2) 4) 1"
  have v: "?v < MAX_CORES" using assms(2,3) mod_less_divisor [of n "thief + off"] by linarith
  have room: "smp_room (?w + (4 * length offs + k)) s" "smp_room (4 * length offs + k) s"
    using smp_room_mono [OF Cons.prems(2)] by auto
  show ?case
  proof (cases "?v = thief \<or> rq_len (queue s ?v) \<le> 1")
    case True
    then have "burst_scan thief n (off # offs) s = burst_scan thief n offs s" by (auto simp: Let_def)
    then show ?thesis using Cons.IH [OF Cons.prems(1) room(2)] Cons.prems(3) by simp
  next
    case False
    obtain mv s1 where mv: "burst_moves ?w thief ?v 0 s = (mv, s1)" by fastforce
    from burst_moves_spec [OF assms(1) v _ Cons.prems(1) room(1) mv] False
    have spec: "burst_spec (4 * length offs + k) thief mv s s1" by auto
    show ?thesis
    proof (cases "mv > 0")
      case True
      then have "m = mv" "s' = s1" using Cons.prems(3) False mv by (auto simp: Let_def)
      then show ?thesis using spec smp_room_mono [of "4 * length offs + k" s1 k] by (simp add: burst_spec_def)
    next
      case nomove: False
      then have "burst_scan thief n offs s1 = (m, s')" using Cons.prems(3) False mv by (auto simp: Let_def)
      moreover have "smp_wf s1" "smp_room (4 * length offs + k) s1" using spec by (auto simp: burst_spec_def)
      ultimately have "burst_spec k thief m s1 s'" using Cons.IH by blast
      with burst_spec_trans [OF spec] nomove show ?thesis by simp
    qed
  qed
qed

lemma steal_burst_spec:
  assumes "smp_wf s" "smp_room (4 * MAX_CORES + k) s" "thief < MAX_CORES"
  shows "burst_spec k thief (fst (steal_burst thief s)) s (snd (steal_burst thief s))"
proof -
  let ?n = "n_cores s"
  have n: "?n \<le> MAX_CORES" by (simp add: n_cores_def)
  have k: "smp_room k s" "smp_room (4 * length [1 ..< ?n] + k) s" using smp_room_mono [OF assms(2)] n by auto
  obtain m s' where run: "burst_scan thief ?n [1 ..< ?n] s = (m, s')" by fastforce
  show ?thesis
  proof (cases "rq_is_empty (queue s thief) \<and> 1 < ?n")
    case True
    then have "steal_burst thief s = (m, s')" using run assms(3) by (simp add: steal_burst_def)
    then show ?thesis using burst_scan_spec [OF assms(3) _ n assms(1) k(2) run] True by simp
  next
    case False
    then have "steal_burst thief s = (0, s)" by (auto simp: steal_burst_def)
    then show ?thesis using burst_spec_refl assms(1) k(1) by simp
  qed
qed

lemma dequeue_agent_cases:
  assumes "smp_wf s" "c < MAX_CORES"
  obtains (none) "dequeue_agent c s = (None, s)" "rq_items (queue s c) = []"
    | (some) t q where "dequeue_agent c s = (Some t, set_queue c q s)" "rq_dequeue (queue s c) = (Some t, q)"
        "rq_items (queue s c) = t # rq_items q"
proof -
  obtain r q where dq: "rq_dequeue (queue s c) = (r, q)" by fastforce
  show thesis
  proof (cases r)
    case None
    from queue_dequeue_none [OF assms dq [unfolded None]] have "rq_items (queue s c) = []" "q = queue s c" .
    moreover have "set_queue c (queue s c) s = s" by (simp add: set_queue_def queue_def)
    ultimately show thesis using none dq None assms(2) by (simp add: dequeue_agent_def)
  next
    case (Some t)
    then show thesis using some dq queue_dequeue(1) [OF assms dq [unfolded Some]] assms(2) by (simp add: dequeue_agent_def)
  qed
qed

text \<open>The whole search for work of an AP.\<close>

definition next_spec :: "nat \<Rightarrow> nat \<Rightarrow> agent_task option \<Rightarrow> smp \<Rightarrow> smp \<Rightarrow> bool" where
  "next_spec k core r s s' \<longleftrightarrow> smp_room k s' \<and> smp_wf s' \<and> same_env s s' \<and> (case r of
      None \<Rightarrow> tasks_of s' = tasks_of s \<and> rq_items (queue s core) = [] \<and>
        (\<forall>off \<in> {1 ..< n_cores s}. no_loot (\<lambda>l. l > 1) core ((core + off) mod n_cores s) s)
    | Some t \<Rightarrow> tasks_of s = add_mset t (tasks_of s') \<and>
        (case rq_items (queue s core) of [] \<Rightarrow> affinity_allows core (at_ring t) s | x # xs \<Rightarrow> t = x))"

lemma next_task_spec:
  assumes "smp_wf s" "smp_room (6 * MAX_CORES + k) s" "core < MAX_CORES"
  shows "next_spec k core (fst (next_task core s)) s (snd (next_task core s))"
proof (rule dequeue_agent_cases [OF assms(1,3)])
  fix t q
  assume d: "dequeue_agent core s = (Some t, set_queue core q s)" "rq_dequeue (queue s core) = (Some t, q)"
    "rq_items (queue s core) = t # rq_items q"
  have "smp_room k s" using smp_room_mono [OF assms(2)] by simp
  then show ?thesis using d queue_dequeue [OF assms(1,3) d(2)] by (simp add: next_task_def next_spec_def)
next
  assume d0: "dequeue_agent core s = (None, s)" "rq_items (queue s core) = []"
  have r: "smp_room (4 * MAX_CORES + (2 * MAX_CORES + k)) s" using smp_room_mono [OF assms(2)] by simp
  obtain m s1 where b: "steal_burst core s = (m, s1)" by fastforce
  from steal_burst_spec [OF assms(1) r assms(3)] b
  have bs: "burst_spec (2 * MAX_CORES + k) core m s s1" by simp
  then have wf1: "smp_wf s1" and room1: "smp_room (2 * MAX_CORES + k) s1" and env: "same_env s s1" "tasks_of s1 = tasks_of s"
    by (auto simp: burst_spec_def)
  show ?thesis
  proof (rule dequeue_agent_cases [OF wf1 assms(3)])
    fix t q
    assume d: "dequeue_agent core s1 = (Some t, set_queue core q s1)" "rq_dequeue (queue s1 core) = (Some t, q)"
      "rq_items (queue s1 core) = t # rq_items q"
    have "affinity_allows core (at_ring t) s" using bs d(3) d0(2) by (auto simp: burst_spec_def)
    moreover have "smp_room k s1" using smp_room_mono [OF room1] by simp
    ultimately show ?thesis
      using d0 b d(1) queue_dequeue [OF wf1 assms(3) d(2)] env by (simp add: next_task_def next_spec_def)
  next
    assume d: "dequeue_agent core s1 = (None, s1)" "rq_items (queue s1 core) = []"
    then have "m = 0" using bs d0(2) by (simp add: burst_spec_def)
    then have rot: "rotated s s1" using bs by (simp add: burst_spec_def)
    have n: "n_cores s1 = n_cores s" using same_env_n_cores [OF env(1)] .
    have loot: "no_loot (\<lambda>l. l > 1) core ((core + off) mod n_cores s) s1 = no_loot (\<lambda>l. l > 1) core ((core + off) mod n_cores s) s"
      if "off \<in> {1 ..< n_cores s}" for off
      by (rule rotated_no_loot [OF rot])
        (use that mod_less_divisor [of "n_cores s" "core + off"] in \<open>auto simp: n_cores_def\<close>)
    obtain r s2 where sa: "steal_agent core s1 = (r, s2)" by fastforce
    then have eq: "next_task core s = (r, s2)" using d0 b d(1) by (simp add: next_task_def)
    note st = steal_agent_spec [OF wf1 room1, of core, unfolded sa n fst_conv snd_conv]
    have "scan_spec k core r s s2" using st scan_spec_after [OF rot] by blast
    moreover have "r = None \<longrightarrow> (\<forall>off \<in> {1 ..< n_cores s}. no_loot (\<lambda>l. l > 1) core ((core + off) mod n_cores s) s)"
      using st loot by blast
    ultimately show ?thesis
      unfolding eq fst_conv snd_conv using d0(2) by (cases r) (auto simp: next_spec_def scan_spec_def rotated_def)
  qed
qed

end
