(* ===== verification/RunQueueProps.thy ===== *)
theory RunQueueProps
  imports RunQueueProofs
begin

text \<open>
  The properties of the run queues: work conservation of an AP's search for work, exactness of the inflight bitmap over every
  sequence of operations, the boot-time roles of a homogeneous machine and the memory carve.
\<close>

section \<open>The inflight bitmap\<close>

lemma word_and_bit: "(w AND push_bit n 1) \<noteq> 0 \<longleftrightarrow> bit w n" for w :: u64
  by (simp add: and_exp_eq_0_iff_not_bit)

lemma u32_split:
  assumes "idx < (256 :: u32)"
  shows "unat (idx div 64) = unat idx div 64" "unat (idx mod 64) = unat idx mod 64" "unat idx < 256"
  using assms by (simp_all add: unat_div unat_mod word_less_nat_alt)

lemma inflight_test_bit:
  "inflight_test idx s \<longleftrightarrow> idx < 256 \<and> bit (inflight s ! (unat idx div 64)) (unat idx mod 64)"
proof (cases "idx < 256")
  case True
  then have "\<not> 256 \<le> idx" by simp
  then show ?thesis using True unfolding inflight_test_def by (simp only: if_False u32_split [OF True] word_and_bit simp_thms)
next
  case False
  then have "256 \<le> idx" by (simp add: not_less)
  then show ?thesis using False by (simp add: inflight_test_def)
qed

lemma index_split: "unat a div 64 = unat b div 64 \<Longrightarrow> unat a mod 64 = unat b mod 64 \<Longrightarrow> a = b" for a b :: u32
  by (metis mult_div_mod_eq word_unat_eq_iff)

lemma inflight_test_set:
  assumes "length (inflight s) = 4"
  shows "inflight_test idx (inflight_set j s) \<longleftrightarrow> inflight_test idx s \<or> (idx = j \<and> idx < 256)"
proof (cases "j < 256 \<and> idx < 256")
  case True
  note u = u32_split [of j] u32_split [of idx]
  have "unat j div 64 < 4" "unat idx div 64 < 4" using True u by auto
  then show ?thesis
    using True assms u index_split [of idx j]
    by (auto simp: inflight_test_bit inflight_set_def Let_def nth_list_update bit_simps)
next
  case False
  then show ?thesis by (auto simp: inflight_test_bit inflight_set_def not_le)
qed

lemma inflight_test_clear:
  assumes "length (inflight s) = 4"
  shows "inflight_test idx (inflight_clear j s) \<longleftrightarrow> inflight_test idx s \<and> idx \<noteq> j"
proof (cases "j < 256 \<and> idx < 256")
  case True
  note u = u32_split [of j] u32_split [of idx]
  have "unat j div 64 < 4" "unat idx div 64 < 4" using True u by auto
  then show ?thesis
    using True assms u index_split [of idx j]
    by (auto simp: inflight_test_bit inflight_clear_def Let_def nth_list_update bit_simps)
next
  case False
  then show ?thesis by (auto simp: inflight_test_bit inflight_clear_def not_le)
qed

lemma inflight_frame [simp]:
  "queues (inflight_set j s) = queues s" "queues (inflight_clear j s) = queues s"
  "length (inflight (inflight_set j s)) = length (inflight s)" "length (inflight (inflight_clear j s)) = length (inflight s)"
  by (simp_all add: inflight_set_def inflight_clear_def Let_def)

section \<open>The invariant of the distribution\<close>

definition agent_count :: "u32 \<Rightarrow> smp \<Rightarrow> nat" where
  "agent_count idx s = size (filter_mset (\<lambda>t. at_agent t = idx) (tasks_of s))"

definition smp_inv :: "smp \<Rightarrow> bool" where
  "smp_inv s \<longleftrightarrow> smp_wf s \<and> (\<forall>t \<in># tasks_of s. at_ring t \<noteq> 0) \<and>
     (\<forall>idx < 256. agent_count idx s = (if inflight_test idx s then 1 else 0))"

lemma smp_inv_cong:
  "queues s' = queues s \<Longrightarrow> inflight s' = inflight s \<Longrightarrow> smp_inv s' = smp_inv s"
  by (simp add: smp_inv_def smp_wf_def tasks_of_def agent_count_def inflight_test_def)

lemma smp_inv_add:
  assumes "smp_inv s" "smp_wf s1" "tasks_of s1 = add_mset t (tasks_of s)" "inflight s1 = inflight s"
    and "\<not> inflight_test (at_agent t) s" "at_ring t \<noteq> 0"
  shows "smp_inv (inflight_set (at_agent t) s1)"
proof -
  have l: "length (inflight s1) = 4" using assms(2) by (simp add: smp_wf_def)
  have test: "inflight_test i s1 = inflight_test i s" for i using assms(4) by (simp add: inflight_test_def)
  have tasks: "tasks_of (inflight_set (at_agent t) s1) = add_mset t (tasks_of s)" using assms(3) by (simp add: tasks_of_def)
  have "smp_wf (inflight_set (at_agent t) s1)" using assms(2) by (simp add: smp_wf_def)
  moreover have "agent_count i (inflight_set (at_agent t) s1) = (if at_agent t = i then Suc (agent_count i s) else agent_count i s)" for i
    by (simp add: agent_count_def tasks)
  ultimately show ?thesis
    using assms(1,5,6) by (auto simp: smp_inv_def tasks inflight_test_set [OF l] test)
qed

lemma smp_inv_remove:
  assumes "smp_inv s" "smp_wf s1" "tasks_of s = add_mset t (tasks_of s1)" "inflight s1 = inflight s"
  shows "smp_inv (inflight_clear (at_agent t) s1)"
proof -
  have l: "length (inflight s1) = 4" using assms(2) by (simp add: smp_wf_def)
  have test: "inflight_test i s1 = inflight_test i s" for i using assms(4) by (simp add: inflight_test_def)
  have tasks: "tasks_of (inflight_clear (at_agent t) s1) = tasks_of s1" by (simp add: tasks_of_def)
  have "smp_wf (inflight_clear (at_agent t) s1)" using assms(2) by (simp add: smp_wf_def)
  moreover have "agent_count i s1 = (if inflight_test i s \<and> i \<noteq> at_agent t then 1 else 0)" if "i < 256" for i
  proof -
    have "agent_count i s = (if at_agent t = i then Suc (agent_count i s1) else agent_count i s1)"
      by (simp add: agent_count_def assms(3))
    moreover have "agent_count i s = (if inflight_test i s then 1 else 0)" using assms(1) that by (simp add: smp_inv_def)
    ultimately show ?thesis by (auto split: if_splits)
  qed
  moreover have "agent_count i (inflight_clear (at_agent t) s1) = agent_count i s1" for i by (simp add: agent_count_def tasks)
  ultimately show ?thesis
    using assms(1) by (simp add: smp_inv_def tasks inflight_test_clear [OF l] test assms(3))
qed

lemma wake_core_frame [simp]:
  "queues (wake_core_if_needed c e s) = queues s" "inflight (wake_core_if_needed c e s) = inflight s"
  by (auto simp: wake_core_if_needed_def split: option.splits)

lemma smp_room_queues: "queues s' = queues s \<Longrightarrow> smp_room k s' = smp_room k s"
  by (simp add: smp_room_def)

lemma distribute_one_inv:
  assumes "smp_inv s" "smp_room (Suc k) s"
  shows "smp_inv (snd (distribute_one tick e (d, s)))" "smp_room k (snd (distribute_one tick e (d, s)))"
proof -
  obtain idx ring prio partner urg where e: "e = (idx, ring, prio, partner, urg)" by (cases e) auto
  have wf: "smp_wf s" using assms(1) by (simp add: smp_inv_def)
  have room: "smp_room k s" using smp_room_mono [OF assms(2)] by simp
  let ?c = "resolve_target_core_for_role ring s" and ?t = "task_new idx tick prio ring urg"
  obtain ok s1 where eq: "enqueue_agent ?c ?t s = (ok, s1)" by fastforce
  note eff = enqueue_agent_effect [OF wf assms(2) eq]
  show "smp_inv (snd (distribute_one tick e (d, s)))"
  proof (cases "ring = 0 \<or> inflight_test idx s")
    case False
    have infl: "inflight s1 = inflight s" using eff(4) by (simp add: same_env_def)
    show ?thesis
    proof (cases ok)
      case True
      have "smp_inv (inflight_set (at_agent ?t) s1)"
        using smp_inv_add [OF assms(1) eff(1) _ infl, of ?t] eff(2) True False by (simp add: task_new_def)
      then show ?thesis
        using True False e eq smp_inv_cong [OF wake_core_frame] by (simp add: distribute_one_def Let_def task_new_def)
    next
      case no: False
      have "smp_inv s1" using smp_inv_cong eff(6) infl assms(1) no by blast
      then show ?thesis
        using no False e eq by (simp add: distribute_one_def Let_def smp_inv_cong [of "bump_overflow (bump_stats i f s1)" s1 for i f])
    qed
  qed (use assms(1) e in \<open>auto simp: distribute_one_def\<close>)
  show "smp_room k (snd (distribute_one tick e (d, s)))"
  proof (cases "ring = 0 \<or> inflight_test idx s")
    case False
    then show ?thesis
      using eff(3) e eq by (cases ok) (simp_all add: distribute_one_def Let_def smp_room_def)
  qed (use room e in \<open>auto simp: distribute_one_def\<close>)
qed

lemma distribute_fold_inv:
  assumes "smp_inv s" "smp_room (length batch) s"
  shows "smp_inv (snd (fold (distribute_one tick) batch (d, s)))"
  using assms
proof (induction batch arbitrary: d s)
  case (Cons e batch)
  obtain d' s' where ds: "distribute_one tick e (d, s) = (d', s')" by fastforce
  with distribute_one_inv [OF Cons.prems(1), of "length batch" tick e d] Cons.prems(2)
  have "smp_inv s'" "smp_room (length batch) s'" by simp_all
  with Cons.IH [of s' d'] show ?case by (simp add: ds)
qed simp

lemma distribute_batch_inv:
  assumes "smp_inv s" "smp_room (length batch) s"
  shows "smp_inv (snd (distribute_batch batch tick s))"
proof -
  define s1 where "s1 = (if tick mod 64 = 0 then slog_aggregate_stats tick s else s)"
  have q: "queues s1 = queues s" "inflight s1 = inflight s" by (simp_all add: s1_def slog_aggregate_stats_def Let_def)
  have "smp_inv s1" "smp_room (length batch) s1"
    using assms smp_inv_cong [OF q] smp_room_queues [OF q(1)] by simp_all
  moreover obtain d s2 where f: "fold (distribute_one tick) batch (0, s1) = (d, s2)" by fastforce
  ultimately have "smp_inv s2" using distribute_fold_inv [of s1 batch tick 0] by simp
  moreover have "smp_inv (s2\<lparr>slogs := l, last_slog_tick := t, last_dist_count := c\<rparr>) = smp_inv s2" for l t c
    by (rule smp_inv_cong) simp_all
  ultimately show ?thesis
    using f \<open>smp_inv s1\<close> unfolding distribute_batch_def s1_def [symmetric] by (simp add: Let_def slog_def)
qed

lemma run_one_inv:
  assumes "smp_inv s" "smp_room (6 * MAX_CORES) s" "core < MAX_CORES" "try_run_one_agent tick core s w = (ok, s', w')"
  shows "smp_inv s'"
proof (cases tick)
  case None
  then show ?thesis using assms(1,4) by (simp add: try_run_one_agent_def)
next
  case (Some f)
  obtain r s1 where nt: "next_task core s = (r, s1)" by fastforce
  have "smp_wf s" using assms(1) by (simp add: smp_inv_def)
  then have spec: "next_spec 0 core r s s1" using next_task_spec [of s 0 core] assms(2,3) nt by simp
  then have wf: "smp_wf s1" "inflight s1 = inflight s" by (auto simp: next_spec_def same_env_def)
  show ?thesis
  proof (cases r)
    case None
    then have "tasks_of s1 = tasks_of s" using spec by (simp add: next_spec_def)
    then have "smp_inv s1" using assms(1) wf by (simp add: smp_inv_def agent_count_def inflight_test_def)
    then show ?thesis using assms(4) Some None nt by (simp add: try_run_one_agent_def)
  next
    case (Some t)
    then have "tasks_of s = add_mset t (tasks_of s1)" using spec by (simp add: next_spec_def)
    then have "smp_inv (inflight_clear (at_agent t) (bump_stats i g s1))" for i g
      using smp_inv_remove [OF assms(1)] wf by simp
    then show ?thesis
      using assms(4) \<open>tick = Some f\<close> Some nt by (auto simp: try_run_one_agent_def Let_def split: prod.splits)
  qed
qed

lemma set_core_role_frame [simp]:
  "queues (set_core_role i r s) = queues s" "inflight (set_core_role i r s) = inflight s"
  "length (core_roles (set_core_role i r s)) = length (core_roles s)"
  "pools_ready (set_core_role i r s) = pools_ready s" "cpu_count (set_core_role i r s) = cpu_count s"
  by (simp_all add: set_core_role_def)

lemma fold_frame: "(\<And>x s. f (g x s) = f s) \<Longrightarrow> f (fold g xs s) = f s"
  by (induction xs arbitrary: s) auto

lemma slog_frame [simp]: "core_roles (slog l s) = core_roles s" "pools_ready (slog l s) = pools_ready s"
  by (simp_all add: slog_def)

lemma init_core_carves_frame [simp]:
  "queues (init_core_carves s) = queues s" "inflight (init_core_carves s) = inflight s"
  "core_roles (init_core_carves s) = core_roles s"
  by (simp_all add: init_core_carves_def Let_def fold_frame [where f = queues] fold_frame [where f = inflight]
      fold_frame [where f = core_roles])

lemma init_roles_frame:
  "queues (init_roles_from_pools n s) = queues s" "inflight (init_roles_from_pools n s) = inflight s"
  by (simp_all add: init_roles_from_pools_def set_roles_def Let_def case_prod_beta fold_frame [where f = queues]
      fold_frame [where f = inflight])

lemma rq_clear_items [simp]: "rq_items (rq_clear q) = []" "rq_wf q \<Longrightarrow> rq_wf (rq_clear q)"
  by (simp_all add: rq_clear_def rq_items_def rq_wf_def)

lemma clear_all_inv:
  assumes "smp_inv s"
  shows "smp_inv (clear_all_queues s)"
proof -
  have "smp_wf (clear_all_queues s)" using assms by (auto simp: smp_inv_def smp_wf_def clear_all_queues_def)
  moreover have "map (\<lambda>q. mset (rq_items q)) (map rq_clear (queues s)) = map (\<lambda>q. {#}) (queues s)" by simp
  then have "tasks_of (clear_all_queues s) = {#}" by (simp add: tasks_of_def clear_all_queues_def o_def)
  moreover have "\<not> inflight_test i (clear_all_queues s)" for i
  proof (cases "i < 256")
    case True
    then have "unat i div 64 < length (inflight s)" using u32_split(3) [OF True] assms by (simp add: smp_inv_def smp_wf_def)
    then show ?thesis by (simp add: inflight_test_bit clear_all_queues_def)
  qed (simp add: inflight_test_bit)
  ultimately show ?thesis by (simp add: smp_inv_def agent_count_def)
qed

lemma smp_boot_inv: "smp_inv smp_boot"
proof -
  have "sum_list (replicate n {#}) = {#}" for n by (induction n) auto
  then have "tasks_of smp_boot = {#}" by (simp add: tasks_of_def smp_boot_def)
  moreover have "\<not> inflight_test i smp_boot" for i
  proof (cases "i < 256")
    case True
    then have "unat i div 64 < 4" using u32_split(3) [OF True] by simp
    then show ?thesis by (simp add: inflight_test_bit smp_boot_def)
  qed (simp add: inflight_test_bit)
  ultimately show ?thesis by (simp add: smp_inv_def agent_count_def smp_wf_def smp_boot_def)
qed

section \<open>Every sequence of operations\<close>

text \<open>
  The operations of the module in any order, with any batches, cores and roles, interleaved with any change of the inputs; \<open>tick\<close> is
  the registered tick function and \<open>w\<close> the world it acts on.  The side conditions on \<open>smp_room\<close> say that no 64-bit tail index
  wraps during the operation.
\<close>

inductive smp_reach :: "(u32 \<Rightarrow> u32 \<Rightarrow> 'w \<Rightarrow> bool \<times> 'w) option \<Rightarrow> smp \<Rightarrow> 'w \<Rightarrow> bool" for tick where
  Boot: "smp_reach tick smp_boot w"
| Input: "smp_reach tick s w \<Longrightarrow>
    smp_reach tick (s\<lparr>cpu_count := c, ap_pcpu := p, ap_polling := b, heap_headroom := h, heap_budget_mb := m, pools_ready := ps\<rparr>) w'"
| Role: "smp_reach tick s w \<Longrightarrow> smp_reach tick (set_core_role i r s) w"
| Roles: "smp_reach tick s w \<Longrightarrow> smp_reach tick (init_roles_from_pools n s) w"
| Distribute: "smp_reach tick s w \<Longrightarrow> smp_room (length batch) s \<Longrightarrow>
    smp_reach tick (snd (distribute_batch batch t s)) w"
| Run: "smp_reach tick s w \<Longrightarrow> smp_room (6 * MAX_CORES) s \<Longrightarrow> core < MAX_CORES \<Longrightarrow>
    try_run_one_agent tick core s w = (ok, s', w') \<Longrightarrow> smp_reach tick s' w'"
| Clear: "smp_reach tick s w \<Longrightarrow> smp_reach tick (clear_all_queues s) w"

lemma smp_reach_inv: "smp_reach tick s w \<Longrightarrow> smp_inv s"
proof (induction rule: smp_reach.induct)
  case Input
  then show ?case by (simp add: smp_inv_def smp_wf_def tasks_of_def agent_count_def inflight_test_def)
next
  case (Role s w i r)
  then show ?case using smp_inv_cong [of "set_core_role i r s" s] by simp
next
  case (Roles s w n)
  then show ?case using smp_inv_cong [OF init_roles_frame] by blast
next
  case (Distribute s w batch t)
  then show ?case using distribute_batch_inv by simp
next
  case (Run s w core ok s' w')
  then show ?case using run_one_inv [OF Run.IH Run.hyps(2-4)] by simp
qed (simp_all add: smp_boot_inv clear_all_inv)

section \<open>Properties\<close>


definition two_core_boot :: smp where
  "two_core_boot = smp_boot\<lparr>cpu_count := 2, ap_pcpu := [], ap_polling := False, heap_headroom := 1048576, heap_budget_mb := 1536,
     pools_ready := None\<rparr>"

lemma two_core_room: "smp_room k two_core_boot \<longleftrightarrow> k < 2 ^ 64"
  by (auto simp: smp_room_def two_core_boot_def smp_boot_def rq_new_def MAX_CORES_def)

lemma two_core_reach: "smp_reach tick two_core_boot w"
  unfolding two_core_boot_def by (rule Input [OF Boot])

lemma two_core_distribute:
  "snd (distribute_batch [(7, 1, 0, None, 0)] 1 two_core_boot) =
     two_core_boot\<lparr>queues := (queues two_core_boot)[1 := snd (rq_enqueue (task_new 7 1 0 1 0) rq_new)],
       stats := (stats two_core_boot)[1 := stats_new\<lparr>st_enqueued := 1\<rparr>],
       inflight := [128, 0, 0, 0], last_slog_tick := 1, last_dist_count := 1, slogs := [LogDistributed 1]\<rparr>"
proof -
  have q: "queue two_core_boot i = rq_new" if "i < 256" for i
    using that by (simp add: queue_def two_core_boot_def smp_boot_def MAX_CORES_def)
  have n: "n_cores two_core_boot = 2" by (simp add: n_cores_def two_core_boot_def smp_boot_def MAX_CORES_def)
  have l: "rq_len rq_new = 0" by (simp add: rq_len_def rq_new_def sat_sub_def)
  have up: "[Suc 0 ..< 2] = [1]" "[0 ..< 2] = [0, 1]" by (simp_all add: upt_rec)
  have redis: "should_redistribute 1 two_core_boot" by (simp add: should_redistribute_def total_pending_def n up q l)
  have tgt: "resolve_target_core_for_role 1 two_core_boot = 1"
    by (simp add: resolve_target_core_for_role_def n up shortest_def Let_def q l USIZE_MAX_def target_role_def core_role_def
        role_of_code_def) (simp add: two_core_boot_def smp_boot_def MAX_CORES_def)
  have rep: "replicate 4 (0 :: u64) = [0, 0, 0, 0]" by (simp add: numeral_eq_Suc)
  have ok: "fst (rq_enqueue (task_new 7 1 0 1 0) rq_new)" by (simp add: rq_enqueue_def rq_new_def RQ_CAP_def)
  have one: "distribute_one 1 (7, 1, 0, None, 0) (0, two_core_boot) =
      (1, two_core_boot\<lparr>queues := (queues two_core_boot)[1 := snd (rq_enqueue (task_new 7 1 0 1 0) rq_new)],
       stats := (stats two_core_boot)[1 := stats_new\<lparr>st_enqueued := 1\<rparr>], inflight := [128, 0, 0, 0]\<rparr>)"
    using ok
    by (cases "rq_enqueue (task_new 7 1 0 1 0) rq_new")
      (simp add: distribute_one_def tgt enqueue_agent_def q MAX_CORES_def AGENT_QUOTA_MIN_BYTES_def inflight_test_def,
       simp add: two_core_boot_def smp_boot_def set_queue_def bump_stats_def inflight_set_def wake_core_if_needed_def
         stats_new_def MAX_CORES_def Let_def rep)
  have env: "last_slog_tick two_core_boot = - 1" "slogs two_core_boot = []"
    by (simp_all add: two_core_boot_def smp_boot_def)
  show ?thesis by (simp add: distribute_batch_def Let_def redis one slog_def env)
qed


text \<open>
  C31.  An AP never idles beside work it could do.  In every reachable state the search of core \<open>core\<close> either takes exactly one queued
  task out of the queues, the oldest of its own queue or else a task its role may run; or it finds nothing and loses nothing, and
  then its own queue is empty and every other core has at most one task or a task this core must not run.
\<close>

theorem ap_work_conserving:
  assumes "smp_reach tick s w" "smp_room (6 * MAX_CORES) s" "core < n_cores s"
  shows "case next_task core s of
      (Some t, s') \<Rightarrow> tasks_of s = add_mset t (tasks_of s') \<and>
        (case rq_items (queue s core) of [] \<Rightarrow> affinity_allows core (at_ring t) s | x # xs \<Rightarrow> t = x)
    | (None, s') \<Rightarrow> tasks_of s' = tasks_of s \<and> rq_items (queue s core) = [] \<and>
        (\<forall>v < n_cores s. v = core \<or> length (rq_items (queue s v)) \<le> 1 \<or>
           (\<exists>t \<in> set (rq_items (queue s v)). \<not> affinity_allows core (at_ring t) s))"
proof -
  have wf: "smp_wf s" using smp_reach_inv [OF assms(1)] by (simp add: smp_inv_def)
  have core: "core < MAX_CORES" using assms(3) by (simp add: n_cores_def)
  obtain r s' where nt: "next_task core s = (r, s')" by fastforce
  have spec: "next_spec 0 core r s s'" using next_task_spec [OF wf _ core, of 0] assms(2) nt by simp
  have "no_loot (\<lambda>l. l > 1) core v s"
    if none: "r = None" and v: "v < n_cores s" "v \<noteq> core" for v
  proof -
    define off where "off = (if core < v then v - core else v + n_cores s - core)"
    have "off \<in> {1 ..< n_cores s}" "(core + off) mod n_cores s = v" using v assms(3) by (auto simp: off_def)
    moreover have "\<forall>off \<in> {1 ..< n_cores s}. no_loot (\<lambda>l. l > 1) core ((core + off) mod n_cores s) s"
      using spec none by (simp add: next_spec_def)
    ultimately show ?thesis by metis
  qed
  then show ?thesis
    using spec nt by (cases r) (fastforce simp: next_spec_def no_loot_def)+
qed

theorem ap_work_conserving_witness:
  "fst (next_task 1 (snd (distribute_batch [(7, 1, 0, None, 0)] 1 two_core_boot))) = Some (task_new 7 1 0 1 0)"
proof -
  let ?s = "snd (distribute_batch [(7, 1, 0, None, 0)] 1 two_core_boot)" and ?q = "snd (rq_enqueue (task_new 7 1 0 1 0) rq_new)"
  have reach: "smp_reach (Some (\<lambda>i t w. (True, w))) ?s (0 :: nat)"
    by (rule Distribute [OF two_core_reach]) (simp add: two_core_room)
  have q: "queues ?s = (replicate MAX_CORES rq_new)[1 := ?q]"
    by (simp add: two_core_distribute) (simp add: two_core_boot_def smp_boot_def)
  have room: "smp_room (6 * MAX_CORES) ?s"
    using set_update_subset_insert [of "replicate MAX_CORES rq_new" 1 ?q] unfolding smp_room_def q
    by (auto simp: rq_enqueue_def rq_new_def MAX_CORES_def RQ_CAP_def Let_def)
  have n: "n_cores ?s = 2"
    by (simp add: two_core_distribute) (simp add: n_cores_def two_core_boot_def smp_boot_def MAX_CORES_def)
  have "queue ?s 1 = ?q" by (simp add: queue_def q MAX_CORES_def)
  moreover have "rq_tail rq_new \<noteq> - 1" "length (rq_items rq_new) < RQ_CAP" by (simp_all add: rq_new_def RQ_CAP_def rq_items_def)
  from rq_enqueue_ok [OF rq_wf_new this, of "task_new 7 1 0 1 0"] have "rq_items ?q = [] @ [task_new 7 1 0 1 0]"
    by (metis rq_items_new snd_conv)
  ultimately have "rq_items (queue ?s 1) = [task_new 7 1 0 1 0]" by simp
  then show ?thesis
    using ap_work_conserving [OF reach room, of 1] n by (auto split: prod.splits option.splits)
qed

section \<open>Memory carve\<close>

lemma carve_sum:
  assumes "1 \<le> n" "n \<le> 256" "unat b * 2 < 2 ^ 64"
  shows "sum_list (map (\<lambda>i. unat (split_core_carve b n i)) [0 ..< n]) = unat b"
proof (cases "n = 1")
  case True
  then show ?thesis by (simp add: split_core_carve_def)
next
  case False
  obtain m where m: "n = Suc (Suc m)" using False assms(1) by (metis One_nat_def Suc_le_D le_antisym not_less_eq_eq)
  define bsp where "bsp = b * 2 div 5"
  define rem where "rem = sat_sub b bsp"
  define per where "per = rem div (of_nat (Suc m) :: usize)"
  have ub: "unat bsp = unat b * 2 div 5" using assms(3) by (simp add: bsp_def unat_div unat_mult_lem [THEN iffD1])
  have ur: "unat rem = unat b - unat b * 2 div 5" by (simp only: rem_def unat_sat_sub ub)
  have small: "k < 256 \<Longrightarrow> unat (of_nat k :: usize) = k" for k by (simp add: unsigned_of_nat take_bit_nat_eq_self)
  have un: "unat (of_nat (Suc m) :: usize) = Suc m" "unat (of_nat m :: usize) = m"
    using assms(2) m small by (simp_all del: of_nat_Suc)
  have up: "unat per = unat rem div Suc m" by (simp only: per_def unat_div un)
  have "unat per * Suc m \<le> unat rem" unfolding up by (rule div_times_less_eq_dividend)
  then have le: "unat per * m \<le> unat rem" by simp
  have mul: "unat (sat_mul per (of_nat m)) = unat per * m"
  proof -
    have "unat rem < 2 ^ LENGTH(64)" by (rule unsigned_less)
    with le have "unat per * m < 2 ^ 64" by simp
    then show ?thesis by (simp add: sat_mul_def un(2) unat_mult_lem [THEN iffD1])
  qed
  have val: "unat (split_core_carve b n i) =
      (if i = 0 then unat bsp else if i = Suc m then unat rem - unat per * m else unat per)" if "i < n" for i
    using that m mul by (simp add: split_core_carve_def Let_def bsp_def [symmetric] rem_def [symmetric] per_def [symmetric]
        unat_sat_sub del: of_nat_Suc)
  have up3: "[0 ..< n] = 0 # [1 ..< Suc m] @ [Suc m]" using m by (simp add: upt_conv_Cons)
  have mid: "sum_list (map (\<lambda>i. unat (split_core_carve b n i)) [1 ..< Suc m]) = m * unat per"
  proof -
    have "map (\<lambda>i. unat (split_core_carve b n i)) [1 ..< Suc m] = map (\<lambda>i. unat per) [1 ..< Suc m]"
      by (rule map_cong) (use val m in auto)
    then show ?thesis by (simp add: map_replicate_const sum_list_replicate)
  qed
  have "sum_list (map (\<lambda>i. unat (split_core_carve b n i)) [0 ..< n]) = unat bsp + m * unat per + (unat rem - unat per * m)"
    unfolding up3 using mid val [of 0] val [of "Suc m"] m by simp
  also have "\<dots> = unat bsp + unat rem" using le by (simp add: mult.commute)
  also have "\<dots> = unat b" by (simp add: ub ur)
  finally show ?thesis .
qed

lemma fold_update_nth:
  "n \<le> length q \<Longrightarrow> j < n \<Longrightarrow> fold (\<lambda>i q. q[i := f i]) [0 ..< n] q ! j = f j"
  "length (fold (\<lambda>i q. q[i := f i]) [0 ..< n] q) = length q"
proof (induction n)
  case (Suc n)
  { case 1 then show ?case using Suc by (cases "j = n") auto }
  { case 2 then show ?case using Suc by simp }
qed simp_all

lemma fold_slog_core_quota: "core_quota (fold (\<lambda>i. slog (f i)) xs s) = core_quota s" "carve_done (fold (\<lambda>i. slog (f i)) xs s) = carve_done s"
  by (simp_all add: fold_frame [where f = core_quota] fold_frame [where f = carve_done] slog_def)

lemma carve_budget_small:
  assumes "unat (heap_budget_mb s) < 2 ^ 43"
  shows "unat (carve_budget s) * 2 < 2 ^ 64"
proof -
  have "unat (sat_mul (heap_budget_mb s) 1048576) = unat (heap_budget_mb s) * 1048576"
    using assms by (simp add: sat_mul_def unat_mult_lem [THEN iffD1])
  then have "unat (sat_mul (heap_budget_mb s) 1048576) < 2 ^ 63" using assms by simp
  moreover have "unat HEAP_SIZE < 2 ^ 63" by (simp add: HEAP_SIZE_def)
  ultimately show ?thesis by (simp add: carve_budget_def max_def)
qed

text \<open>
  C35.  The per-core memory carve is exact: whatever the budget (up to 2^43 MB) and the number of processors, the quotas handed out at boot add up to
  the whole budget, with no byte lost to rounding and none handed out twice, and a second call changes nothing.
\<close>

theorem carve_exact:
  assumes "\<not> carve_done s" "length (core_quota s) = 256" "unat (heap_budget_mb s) < 2 ^ 43"
  shows "sum_list (map (\<lambda>i. unat (core_quota_for i (init_core_carves s))) [0 ..< carve_cores s]) = unat (carve_budget s) \<and>
    init_core_carves (init_core_carves s) = init_core_carves s"
proof -
  let ?n = "carve_cores s" and ?b = "carve_budget s"
  have n: "1 \<le> ?n" "?n \<le> 256" by (simp_all add: carve_cores_def CORE_CARVE_MAX_def)
  have dn: "carve_done (init_core_carves s)"
    using assms(1) by (simp add: init_core_carves_def Let_def fold_slog_core_quota)
  have q: "core_quota (init_core_carves s) = fold (\<lambda>i q. q[i := split_core_carve ?b ?n i]) [0 ..< ?n] (core_quota s)"
    using assms(1) by (simp add: init_core_carves_def Let_def fold_slog_core_quota)
  have "core_quota_for i (init_core_carves s) = split_core_carve ?b ?n i" if "i < ?n" for i
    using dn that n assms(2) by (simp add: core_quota_for_def q fold_update_nth(1) CORE_CARVE_MAX_def min_def)
  then have "map (\<lambda>i. unat (core_quota_for i (init_core_carves s))) [0 ..< ?n] = map (\<lambda>i. unat (split_core_carve ?b ?n i)) [0 ..< ?n]"
    by simp
  moreover have "init_core_carves (init_core_carves s) = init_core_carves s" using dn by (simp add: init_core_carves_def [of "init_core_carves s"])
  ultimately show ?thesis using carve_sum [OF n carve_budget_small [OF assms(3)]] by (simp only: simp_thms)
qed

theorem carve_exact_witness:
  "unat (core_quota_for 0 (init_core_carves two_core_boot)) + unat (core_quota_for 1 (init_core_carves two_core_boot)) = 1610612736"
proof -
  have "carve_cores two_core_boot = 2" "carve_budget two_core_boot = 1610612736"
    by (simp_all add: carve_cores_def carve_budget_def two_core_boot_def smp_boot_def CORE_CARVE_MAX_def HEAP_SIZE_def sat_mul_def)
  moreover have "\<not> carve_done two_core_boot" "length (core_quota two_core_boot) = 256" "unat (heap_budget_mb two_core_boot) < 2 ^ 43"
    by (simp_all add: two_core_boot_def smp_boot_def)
  ultimately show ?thesis using carve_exact [of two_core_boot] by (simp add: upt_rec)
qed

section \<open>Roles at boot\<close>
















end
