(* ===== verification/RunQueueRace.thy ===== *)
theory RunQueueRace
  imports RunQueueProofs
begin

text \<open>
  One run queue of \<^verbatim>\<open>crates/k_nano/src/smp/runqueue.rs\<close> under concurrency.  Every shared access of \<^verbatim>\<open>enqueue\<close> and
  \<^verbatim>\<open>dequeue\<close> (the loads of \<^verbatim>\<open>head\<close> and \<^verbatim>\<open>tail\<close>, the slot write, the store of \<^verbatim>\<open>tail\<close>, the slot read, the compare-exchange of
  \<^verbatim>\<open>head\<close>) is one step, and any number of cores interleave arbitrarily.  The configuration carries two histories:
  the tasks whose \<^verbatim>\<open>enqueue\<close> returned true and those a \<^verbatim>\<open>dequeue\<close> returned, in order.

  With one producer and any number of consumers the queue is a FIFO at every moment; with two producers it loses tasks.
\<close>

datatype rq_pc =
    Idle
  | EnqTail agent_task usize
  | EnqFits agent_task usize
  | EnqWritten agent_task usize
  | DeqHead usize
  | DeqFull usize
  | DeqRead usize agent_task

record rq_conf =
  shared :: run_queue
  pcs :: "nat \<Rightarrow> rq_pc"
  pushed :: "agent_task list"
  popped :: "agent_task list"

definition rq_conf_init :: rq_conf where
  "rq_conf_init = \<lparr>shared = rq_new, pcs = (\<lambda>_. Idle), pushed = [], popped = []\<rparr>"

definition goto :: "nat \<Rightarrow> rq_pc \<Rightarrow> rq_conf \<Rightarrow> rq_conf" where
  "goto c pc s = s\<lparr>pcs := (pcs s)(c := pc)\<rparr>"

text \<open>The steps of \<^verbatim>\<open>enqueue\<close>.\<close>

definition enq_load_tail :: "nat \<Rightarrow> agent_task \<Rightarrow> rq_conf \<Rightarrow> rq_conf" where
  "enq_load_tail c x s = goto c (EnqTail x (rq_tail (shared s))) s"

definition enq_load_head :: "nat \<Rightarrow> agent_task \<Rightarrow> usize \<Rightarrow> rq_conf \<Rightarrow> rq_conf" where
  "enq_load_head c x t s = (if unat (t - rq_head (shared s)) \<ge> RQ_CAP then goto c Idle s else goto c (EnqFits x t) s)"

definition enq_write :: "nat \<Rightarrow> agent_task \<Rightarrow> usize \<Rightarrow> rq_conf \<Rightarrow> rq_conf" where
  "enq_write c x t s = goto c (EnqWritten x t)
     (s\<lparr>shared := (shared s)\<lparr>rq_slots := (rq_slots (shared s))[unat (t AND 127) := x]\<rparr>\<rparr>)"

definition enq_publish :: "nat \<Rightarrow> agent_task \<Rightarrow> usize \<Rightarrow> rq_conf \<Rightarrow> rq_conf" where
  "enq_publish c x t s = goto c Idle (s\<lparr>shared := (shared s)\<lparr>rq_tail := t + 1\<rparr>, pushed := pushed s @ [x]\<rparr>)"

text \<open>The steps of \<^verbatim>\<open>dequeue\<close>; a weak compare-exchange may also fail for no reason.\<close>

definition deq_load_head :: "nat \<Rightarrow> rq_conf \<Rightarrow> rq_conf" where
  "deq_load_head c s = goto c (DeqHead (rq_head (shared s))) s"

definition deq_load_tail :: "nat \<Rightarrow> usize \<Rightarrow> rq_conf \<Rightarrow> rq_conf" where
  "deq_load_tail c h s = (if h \<ge> rq_tail (shared s) then goto c Idle s else goto c (DeqFull h) s)"

definition deq_read :: "nat \<Rightarrow> usize \<Rightarrow> rq_conf \<Rightarrow> rq_conf" where
  "deq_read c h s = goto c (DeqRead h (rq_slots (shared s) ! unat (h AND 127))) s"

definition deq_cas :: "nat \<Rightarrow> usize \<Rightarrow> agent_task \<Rightarrow> rq_conf \<Rightarrow> rq_conf" where
  "deq_cas c h x s =
     (if rq_head (shared s) = h
      then goto c Idle (s\<lparr>shared := (shared s)\<lparr>rq_head := h + 1\<rparr>, popped := popped s @ [x]\<rparr>)
      else goto c Idle s)"

text \<open>Interleavings in which only the cores of \<open>P\<close> enqueue; every core may dequeue.\<close>

inductive rq_reach :: "nat set \<Rightarrow> rq_conf \<Rightarrow> bool" for P where
  Start: "rq_reach P rq_conf_init"
| EnqLoadTail: "rq_reach P s \<Longrightarrow> pcs s c = Idle \<Longrightarrow> c \<in> P \<Longrightarrow> rq_reach P (enq_load_tail c x s)"
| EnqLoadHead: "rq_reach P s \<Longrightarrow> pcs s c = EnqTail x t \<Longrightarrow> rq_reach P (enq_load_head c x t s)"
| EnqWrite: "rq_reach P s \<Longrightarrow> pcs s c = EnqFits x t \<Longrightarrow> rq_reach P (enq_write c x t s)"
| EnqPublish: "rq_reach P s \<Longrightarrow> pcs s c = EnqWritten x t \<Longrightarrow> rq_reach P (enq_publish c x t s)"
| DeqLoadHead: "rq_reach P s \<Longrightarrow> pcs s c = Idle \<Longrightarrow> rq_reach P (deq_load_head c s)"
| DeqLoadTail: "rq_reach P s \<Longrightarrow> pcs s c = DeqHead h \<Longrightarrow> rq_reach P (deq_load_tail c h s)"
| DeqReadSlot: "rq_reach P s \<Longrightarrow> pcs s c = DeqFull h \<Longrightarrow> rq_reach P (deq_read c h s)"
| DeqCas: "rq_reach P s \<Longrightarrow> pcs s c = DeqRead h x \<Longrightarrow> rq_reach P (deq_cas c h x s)"
| DeqSpurious: "rq_reach P s \<Longrightarrow> pcs s c = DeqRead h x \<Longrightarrow> rq_reach P (goto c Idle s)"

lemmas rq_step_defs = enq_load_tail_def enq_load_head_def enq_write_def enq_publish_def deq_load_head_def deq_load_tail_def
  deq_read_def deq_cas_def goto_def

section \<open>One producer\<close>

text \<open>The shared state against the histories, and what each core's program counter still guarantees.\<close>

definition rq_shared_ok :: "rq_conf \<Rightarrow> bool" where
  "rq_shared_ok s \<longleftrightarrow> (let q = shared s; h = unat (rq_head q); t = unat (rq_tail q) in
     length (rq_slots q) = RQ_CAP \<and> h \<le> t \<and> t \<le> h + RQ_CAP \<and> length (pushed s) = t \<and> popped s = take h (pushed s) \<and>
     (\<forall>i. h \<le> i \<longrightarrow> i < t \<longrightarrow> rq_slots q ! (i mod RQ_CAP) = pushed s ! i))"

fun rq_pc_ok :: "bool \<Rightarrow> run_queue \<Rightarrow> agent_task list \<Rightarrow> rq_pc \<Rightarrow> bool" where
  "rq_pc_ok pr q log Idle = True"
| "rq_pc_ok pr q log (EnqTail x t) = (pr \<and> t = rq_tail q)"
| "rq_pc_ok pr q log (EnqFits x t) = (pr \<and> t = rq_tail q \<and> unat t < unat (rq_head q) + RQ_CAP)"
| "rq_pc_ok pr q log (EnqWritten x t) = (pr \<and> t = rq_tail q \<and> unat t < unat (rq_head q) + RQ_CAP \<and>
     rq_slots q ! (unat t mod RQ_CAP) = x)"
| "rq_pc_ok pr q log (DeqHead h) = (h \<le> rq_head q)"
| "rq_pc_ok pr q log (DeqFull h) = (h \<le> rq_head q \<and> h < rq_tail q)"
| "rq_pc_ok pr q log (DeqRead h x) = (h \<le> rq_head q \<and> h < rq_tail q \<and> (h = rq_head q \<longrightarrow> x = log ! unat h))"

definition rq_inv :: "nat \<Rightarrow> rq_conf \<Rightarrow> bool" where
  "rq_inv p s \<longleftrightarrow> rq_shared_ok s \<and> (\<forall>c. rq_pc_ok (c = p) (shared s) (pushed s) (pcs s c))"

lemma rq_inv_goto:
  "rq_inv p s \<Longrightarrow> rq_pc_ok (c = p) (shared s) (pushed s) pc \<Longrightarrow> rq_inv p (goto c pc s)"
  by (auto simp: rq_inv_def rq_shared_ok_def goto_def)

text \<open>Steps that change the shared queue; a program counter other than the producer's survives them.\<close>

lemma rq_inv_write:
  assumes "rq_inv p s" "pcs s c = EnqFits x t"
  shows "rq_inv p (enq_write c x t s)"
proof -
  let ?q = "shared s" and ?s = "enq_write c x t s"
  let ?h = "unat (rq_head ?q)" and ?t = "unat (rq_tail ?q)"
  have pc: "c = p" "t = rq_tail ?q" "?t < ?h + RQ_CAP" and ok: "rq_shared_ok s"
    using assms by (auto simp: rq_inv_def dest: spec [of _ c])
  have len: "length (rq_slots ?q) = RQ_CAP" using ok by (simp add: rq_shared_ok_def Let_def)
  have idx: "unat (t AND 127) = ?t mod RQ_CAP" "?t mod RQ_CAP < RQ_CAP" by (simp_all add: pc unat_and_127 RQ_CAP_def)
  have "rq_slots ?q ! (i mod RQ_CAP) = rq_slots (shared ?s) ! (i mod RQ_CAP)" if "?h \<le> i" "i < ?t" for i
    using mod_window_distinct [OF that pc(3)] by (simp add: enq_write_def goto_def idx)
  then have "rq_shared_ok ?s" using ok by (simp add: rq_shared_ok_def Let_def enq_write_def goto_def)
  moreover have "rq_pc_ok (d = p) (shared ?s) (pushed ?s) (pcs ?s d)" for d
  proof (cases "d = c")
    case True
    then show ?thesis using pc idx len by (simp add: enq_write_def goto_def)
  next
    case False
    then have "rq_pc_ok False ?q (pushed s) (pcs s d)" using assms(1) pc(1) by (auto simp: rq_inv_def dest: spec [of _ d])
    then show ?thesis using False pc(1) by (cases "pcs s d") (simp_all add: enq_write_def goto_def)
  qed
  ultimately show ?thesis by (simp add: rq_inv_def)
qed

lemma rq_inv_publish:
  assumes "rq_inv p s" "pcs s c = EnqWritten x t" "length (pushed s) + 1 < 2 ^ 64"
  shows "rq_inv p (enq_publish c x t s)"
proof -
  let ?q = "shared s" and ?s = "enq_publish c x t s"
  let ?h = "unat (rq_head ?q)" and ?t = "unat (rq_tail ?q)"
  have pc: "c = p" "t = rq_tail ?q" "?t < ?h + RQ_CAP" "rq_slots ?q ! (?t mod RQ_CAP) = x" and ok: "rq_shared_ok s"
    using assms by (auto simp: rq_inv_def dest: spec [of _ c])
  have len: "length (pushed s) = ?t" "?h \<le> ?t" using ok by (auto simp: rq_shared_ok_def Let_def)
  have suc: "unat (rq_tail ?q + 1) = Suc ?t" using assms(3) len by (intro unat_Suc_lt) simp
  have tail: "rq_tail ?q < rq_tail ?q + 1" by (simp add: word_less_nat_alt suc)
  have "rq_shared_ok ?s"
    using ok pc len suc by (auto simp: rq_shared_ok_def Let_def enq_publish_def goto_def nth_append less_Suc_eq)
  moreover have "rq_pc_ok (d = p) (shared ?s) (pushed ?s) (pcs ?s d)" for d
  proof (cases "d = c")
    case False
    then have "rq_pc_ok False ?q (pushed s) (pcs s d)" using assms(1) pc(1) by (auto simp: rq_inv_def dest: spec [of _ d])
    then show ?thesis
      using False pc(1,2) len order.strict_trans [OF _ tail]
      by (cases "pcs s d") (auto simp: enq_publish_def goto_def nth_append word_less_nat_alt)
  qed (simp add: enq_publish_def goto_def)
  ultimately show ?thesis by (simp add: rq_inv_def)
qed

lemma rq_inv_cas:
  assumes "rq_inv p s" "pcs s c = DeqRead h x"
  shows "rq_inv p (deq_cas c h x s)"
proof (cases "rq_head (shared s) = h")
  case True
  let ?q = "shared s" and ?s = "deq_cas c h x s"
  have pc: "h < rq_tail ?q" "x = pushed s ! unat h" and ok: "rq_shared_ok s"
    using assms True by (auto simp: rq_inv_def dest: spec [of _ c])
  have "unat h < unat (rq_tail ?q)" using pc(1) by (simp add: word_less_nat_alt)
  moreover have "unat (rq_tail ?q) < 2 ^ 64" using unsigned_less [of "rq_tail ?q"] by simp
  ultimately have suc: "unat (h + 1) = Suc (unat h)" by (intro unat_Suc_lt) simp
  have len: "length (pushed s) = unat (rq_tail ?q)" using ok by (simp add: rq_shared_ok_def Let_def)
  have "rq_shared_ok ?s"
    using ok pc \<open>unat h < unat (rq_tail ?q)\<close> suc True len
    by (auto simp: rq_shared_ok_def Let_def deq_cas_def goto_def take_Suc_conv_app_nth)
  moreover have "rq_pc_ok (d = p) (shared ?s) (pushed ?s) (pcs ?s d)" for d
  proof (cases "d = c")
    case False
    have "rq_pc_ok (d = p) ?q (pushed s) (pcs s d)" using assms(1) by (simp add: rq_inv_def)
    then show ?thesis
      using False True suc by (cases "pcs s d") (auto simp: deq_cas_def goto_def word_le_nat_alt)
  qed (simp add: deq_cas_def goto_def True)
  ultimately show ?thesis by (simp add: rq_inv_def)
next
  case False
  then show ?thesis using rq_inv_goto [OF assms(1)] by (simp add: deq_cas_def)
qed

lemma rq_reach_inv: "rq_reach {p} s \<Longrightarrow> length (pushed s) < 2 ^ 64 \<Longrightarrow> rq_inv p s"
proof (induction rule: rq_reach.induct)
  case Start
  then show ?case by (simp add: rq_inv_def rq_shared_ok_def rq_conf_init_def rq_new_def)
next
  case (EnqLoadHead s c x t)
  then have inv: "rq_inv p s" by (simp add: rq_step_defs split: if_splits)
  then have pc: "c = p" "t = rq_tail (shared s)" and ok: "rq_shared_ok s"
    using EnqLoadHead.hyps(2) by (auto simp: rq_inv_def dest: spec [of _ c])
  then have "unat (t - rq_head (shared s)) = unat t - unat (rq_head (shared s))"
    by (intro unat_diff) (simp add: rq_shared_ok_def Let_def word_le_nat_alt)
  then show ?case using pc by (auto simp: enq_load_head_def intro!: rq_inv_goto [OF inv])
next
  case (DeqReadSlot s c h)
  then have inv: "rq_inv p s" by (simp add: rq_step_defs)
  then have pc: "h \<le> rq_head (shared s)" "h < rq_tail (shared s)" and ok: "rq_shared_ok s"
    using DeqReadSlot.hyps(2) by (auto simp: rq_inv_def dest: spec [of _ c])
  then have "h = rq_head (shared s) \<longrightarrow> rq_slots (shared s) ! unat (h AND 127) = pushed s ! unat h"
    by (auto simp: rq_shared_ok_def Let_def unat_and_127 word_less_nat_alt RQ_CAP_def)
  then show ?case using pc by (auto simp: deq_read_def intro!: rq_inv_goto [OF inv])
next
  case (EnqWrite s c x t)
  then show ?case using rq_inv_write by (simp add: rq_step_defs)
next
  case (EnqPublish s c x t)
  then show ?case using rq_inv_publish [of p s c x t] by (simp add: rq_step_defs)
next
  case (DeqCas s c h x)
  then show ?case using rq_inv_cas [of p s c h x] by (simp add: rq_step_defs split: if_splits)
next
  case (EnqLoadTail s c x)
  then have "rq_inv p s" "c = p" by (simp_all add: rq_step_defs)
  then show ?case using rq_inv_goto by (simp add: enq_load_tail_def)
next
  case (DeqLoadHead s c)
  then have "rq_inv p s" by (simp add: rq_step_defs)
  then show ?case using rq_inv_goto by (simp add: deq_load_head_def)
next
  case (DeqLoadTail s c h)
  then have inv: "rq_inv p s" by (simp add: rq_step_defs split: if_splits)
  then have "h \<le> rq_head (shared s)" using DeqLoadTail.hyps(2) by (auto simp: rq_inv_def dest: spec [of _ c])
  then show ?case using rq_inv_goto [OF inv] by (simp add: deq_load_tail_def)
next
  case (DeqSpurious s c h x)
  then have "rq_inv p s" by (simp add: rq_step_defs)
  then show ?case using rq_inv_goto by simp
qed

text \<open>
  C30.  With a single producer and any number of consumers a run queue is linearizable to a FIFO: in every interleaving of the atomic accesses,
  at every moment, the tasks handed out so far followed by the tasks in the queue are exactly the tasks enqueued so far, in
  order, and the queue never holds more than 128 tasks; nothing is lost, duplicated, reordered or overwritten.
\<close>

theorem run_queue_linearizable:
  assumes "rq_reach {p} s" "length (pushed s) < 2 ^ 64"
  shows "popped s @ rq_items (shared s) = pushed s \<and> rq_len (shared s) \<le> RQ_CAP"
proof -
  let ?q = "shared s"
  let ?h = "unat (rq_head ?q)" and ?t = "unat (rq_tail ?q)"
  have ok: "rq_shared_ok s" using rq_reach_inv [OF assms] by (simp add: rq_inv_def)
  then have "rq_items ?q = map (\<lambda>i. pushed s ! i) [?h ..< ?t]"
    by (auto simp: rq_items_def ring_items_def rq_shared_ok_def Let_def)
  also have "\<dots> = drop ?h (pushed s)"
    using ok by (intro nth_equalityI) (auto simp: rq_shared_ok_def Let_def)
  finally show ?thesis using ok by (auto simp: rq_shared_ok_def Let_def rq_len_items rq_items_def)
qed

text \<open>One core enqueues, another dequeues meanwhile.\<close>

definition handover :: rq_conf where
  "handover = deq_cas 1 0 task_default (deq_read 1 0 (deq_load_tail 1 0 (deq_load_head 1
     (enq_publish 0 task_default 0 (enq_write 0 task_default 0 (enq_load_head 0 task_default 0 (enq_load_tail 0 task_default rq_conf_init)))))))"

theorem run_queue_linearizable_witness: "popped handover @ rq_items (shared handover) = [task_default]"
proof -
  note d = rq_step_defs rq_conf_init_def rq_new_def RQ_CAP_def
  have "rq_reach {0} (enq_load_head 0 task_default 0 (enq_load_tail 0 task_default rq_conf_init))"
    by (rule EnqLoadHead [OF EnqLoadTail [OF Start]]) (simp_all add: d)
  then have "rq_reach {0} (enq_publish 0 task_default 0 (enq_write 0 task_default 0
      (enq_load_head 0 task_default 0 (enq_load_tail 0 task_default rq_conf_init))))"
    by (rule EnqPublish [OF EnqWrite]) (simp_all add: d)
  from DeqLoadTail [OF DeqLoadHead [OF this, of 1], of 1 0]
  have "rq_reach {0} (deq_load_tail 1 0 (deq_load_head 1 (enq_publish 0 task_default 0 (enq_write 0 task_default 0
      (enq_load_head 0 task_default 0 (enq_load_tail 0 task_default rq_conf_init))))))"
    by (simp add: d)
  then have "rq_reach {0} handover"
    unfolding handover_def by (rule DeqCas [OF DeqReadSlot]) (simp_all add: d)
  moreover have "pushed handover = [task_default]" by (simp add: handover_def d)
  ultimately show ?thesis using run_queue_linearizable [of 0 handover] by simp
qed

section \<open>Two producers\<close>

text \<open>Both load the same tail before either stores it.\<close>

definition both_enqueue :: "agent_task \<Rightarrow> agent_task \<Rightarrow> rq_conf" where
  "both_enqueue a b =
     enq_publish 1 b 0 (enq_publish 0 a 0 (enq_write 1 b 0 (enq_write 0 a 0
       (enq_load_head 1 b 0 (enq_load_head 0 a 0 (enq_load_tail 1 b (enq_load_tail 0 a rq_conf_init)))))))"

text \<open>
  C33.  Defect: the queue is not safe for several producers, although it is documented as MPMC and a thief puts a task it may not run
  back into its victim's queue while the distributor enqueues there.  Two overlapping calls can both return true and leave one
  task in the queue: the other is lost, and its agent's inflight bit stays set for ever.
\<close>

theorem enqueue_race_loses_task:
  "rq_reach {0, 1} (both_enqueue a b) \<and> pushed (both_enqueue a b) = [a, b] \<and> popped (both_enqueue a b) = [] \<and>
   rq_items (shared (both_enqueue a b)) = [b] \<and> (\<forall>c. pcs (both_enqueue a b) c = Idle)"
proof -
  note d = rq_step_defs rq_conf_init_def rq_new_def RQ_CAP_def
  have "rq_reach {0, 1} (enq_load_tail 1 b (enq_load_tail 0 a rq_conf_init))"
    by (rule EnqLoadTail [OF EnqLoadTail [OF Start]]) (simp_all add: d)
  then have "rq_reach {0, 1} (enq_load_head 1 b 0 (enq_load_head 0 a 0 (enq_load_tail 1 b (enq_load_tail 0 a rq_conf_init))))"
    by (rule EnqLoadHead [OF EnqLoadHead]) (simp_all add: d)
  then have "rq_reach {0, 1} (enq_write 1 b 0 (enq_write 0 a 0
      (enq_load_head 1 b 0 (enq_load_head 0 a 0 (enq_load_tail 1 b (enq_load_tail 0 a rq_conf_init))))))"
    by (rule EnqWrite [OF EnqWrite]) (simp_all add: d)
  then have "rq_reach {0, 1} (both_enqueue a b)"
    unfolding both_enqueue_def by (rule EnqPublish [OF EnqPublish]) (simp_all add: d)
  then show ?thesis by (simp add: both_enqueue_def d rq_items_def ring_items_def)
qed

end
