(* ===== verification/TickvCodec.thy ===== *)
theory TickvCodec
  imports BTreeMap
begin

text \<open>
  The record format of \<^verbatim>\<open>crates/k_nano/src/storage/tickv.rs\<close>: CRC-32, the header tests, record sizes, \<^verbatim>\<open>encode_record\<close> and the
  in-memory scan \<^verbatim>\<open>scan_volume\<close>.

  A record is a 16-byte header (magic \<^verbatim>\<open>TKLV\<close>, key length, value length, CRC of key and value), the key, the value and zeros up to a multiple of
  512 bytes.  A cleared fourth magic byte marks an invalidated record.
\<close>

unbundle bit_operations_syntax

section \<open>Constants and header tests\<close>

definition MAGIC :: bytes where "MAGIC = bstr ''TKLV''"
definition HEADER :: nat where "HEADER = 16"
definition MAGIC_PREFIX :: bytes where "MAGIC_PREFIX = bstr ''TKL''"
definition CKPT_KEY :: bytes where "CKPT_KEY = bstr ''sys/tickv_ckpt''"
definition MAX_KLEN :: nat where "MAX_KLEN = 4096"
definition MAX_VLEN :: nat where "MAX_VLEN = 2 * 1024 * 1024"

definition hdr_valid :: "bytes \<Rightarrow> bool" where
  "hdr_valid hdr \<longleftrightarrow> 4 \<le> length hdr \<and> slice 0 3 hdr = MAGIC_PREFIX \<and> (hdr ! 3 = of_char CHR ''V'' \<or> hdr ! 3 = 1)"

definition hdr_invalidated :: "bytes \<Rightarrow> bool" where
  "hdr_invalidated hdr \<longleftrightarrow> 4 \<le> length hdr \<and> slice 0 3 hdr = MAGIC_PREFIX \<and> hdr ! 3 = 0"

definition hdr_tickv_shaped :: "bytes \<Rightarrow> bool" where
  "hdr_tickv_shaped hdr \<longleftrightarrow> hdr_valid hdr \<or> hdr_invalidated hdr"

text \<open>\<^verbatim>\<open>hdr.iter().all(|&b| b == 0 || b == 0xFF)\<close>, the end of the log.\<close>

definition hdr_blank :: "bytes \<Rightarrow> bool" where
  "hdr_blank hdr \<longleftrightarrow> (\<forall>b \<in> set hdr. b = 0 \<or> b = 0xFF)"

text \<open>The three little-endian words of a header.\<close>

definition hdr_klen :: "bytes \<Rightarrow> nat" where "hdr_klen hdr = le_nat (slice 4 4 hdr)"
definition hdr_vlen :: "bytes \<Rightarrow> nat" where "hdr_vlen hdr = le_nat (slice 8 4 hdr)"
definition hdr_crc :: "bytes \<Rightarrow> nat" where "hdr_crc hdr = le_nat (slice 12 4 hdr)"

section \<open>CRC-32\<close>

definition crc_bit :: "u32 \<Rightarrow> u32" where
  "crc_bit crc = drop_bit 1 crc XOR (if crc AND 1 \<noteq> 0 then 0xEDB88320 else 0)"

definition crc_byte :: "u32 \<Rightarrow> u8 \<Rightarrow> u32" where
  "crc_byte crc b = (crc_bit ^^ 8) (crc XOR ucast b)"

definition crc32 :: "bytes \<Rightarrow> u32" where
  "crc32 bs = NOT (foldl crc_byte 0xFFFFFFFF bs)"

section \<open>Records\<close>

definition record_size :: "nat \<Rightarrow> nat \<Rightarrow> nat" where
  "record_size klen vlen =
     (let body_len = klen + vlen; padded = (body_len + 15) div 16 * 16; rec_body = HEADER + padded
      in (rec_body + 511) div 512 * 512)"

text \<open>\<^verbatim>\<open>(off + 512) & !511\<close>: the next sector.\<close>

definition next_sector :: "nat \<Rightarrow> nat" where
  "next_sector off = (off + 512) div 512 * 512"

definition advance_oversized :: "nat \<Rightarrow> nat \<Rightarrow> nat \<Rightarrow> nat \<Rightarrow> nat" where
  "advance_oversized off klen vlen sz =
     (let big = record_size klen vlen in
      if 512 \<le> big \<and> min (off + big) (2 ^ 64 - 1) \<le> sz then off + big else next_sector off)"

definition encode_record :: "bytes \<Rightarrow> bytes \<Rightarrow> bytes" where
  "encode_record key val =
     (let body_len = length key + length val; padded = (body_len + 15) div 16 * 16;
          body = splice (length key) val (splice 0 key (replicate padded 0));
          crc = crc32 (take body_len body);
          rec0 = replicate (record_size (length key) (length val)) 0;
          rec1 = splice 0 MAGIC rec0;
          rec2 = splice 4 (le_bytes 4 (length key)) rec1;
          rec3 = splice 8 (le_bytes 4 (length val)) rec2;
          rec4 = splice 12 (le_bytes 4 (unat crc)) rec3
      in splice HEADER body rec4)"

section \<open>Scanning a volume in memory\<close>

record scan_result =
  sr_map :: "(bytes, bytes) btree"
  sr_offsets :: "(bytes, nat) btree"
  sr_append_off :: nat
  sr_corrupt :: nat
  sr_truncated :: bool

definition scan_default :: scan_result where
  "scan_default = \<lparr>sr_map = [], sr_offsets = [], sr_append_off = 0, sr_corrupt = 0, sr_truncated = False\<rparr>"

lemma record_size_pos: "512 \<le> record_size k v"
  by (simp add: record_size_def HEADER_def Let_def)

lemma record_size_gt0 [simp]: "0 < record_size k v"
  using record_size_pos [of k v] by simp

lemma next_sector_gt: "off < next_sector off"
proof -
  have "off mod 512 < 512" "512 * (off div 512) + off mod 512 = off" by simp_all
  then show ?thesis by (simp add: next_sector_def)
qed

lemma advance_oversized_gt: "off < advance_oversized off k v sz"
  by (simp add: advance_oversized_def Let_def next_sector_gt)

text \<open>
  \<^verbatim>\<open>scan_index\<close> is what a record with a good checksum does to the result, \<^verbatim>\<open>scan_loop\<close> the loop: it returns the result, the final offset and
  whether it stopped at a blank header.
\<close>

definition scan_index :: "bytes \<Rightarrow> bytes \<Rightarrow> nat \<Rightarrow> scan_result \<Rightarrow> scan_result" where
  "scan_index key val off out =
     (if \<not> from_utf8 key then out\<lparr>sr_corrupt := sr_corrupt out + 1\<rparr>
      else if key = CKPT_KEY then out
      else if val = [] then out\<lparr>sr_map := bt_remove key (sr_map out), sr_offsets := bt_remove key (sr_offsets out)\<rparr>
      else out\<lparr>sr_map := bt_insert key val (sr_map out), sr_offsets := bt_insert key off (sr_offsets out)\<rparr>)"

function scan_loop :: "bytes \<Rightarrow> nat \<Rightarrow> scan_result \<Rightarrow> scan_result \<times> nat \<times> bool" where
  "scan_loop data off out =
     (if off + HEADER \<le> length data then
        let hdr = slice off HEADER data; klen = hdr_klen hdr; vlen = hdr_vlen hdr; total = record_size klen vlen in
        if \<not> hdr_tickv_shaped hdr then
          if hdr_blank hdr then (out, off, True)
          else scan_loop data (next_sector off) (out\<lparr>sr_corrupt := sr_corrupt out + 1\<rparr>)
        else if klen > MAX_KLEN \<or> vlen > MAX_VLEN then
          scan_loop data (next_sector off) (out\<lparr>sr_corrupt := sr_corrupt out + 1\<rparr>)
        else if off + total > length data then (out\<lparr>sr_truncated := True\<rparr>, off, False)
        else if hdr ! 3 = 0 then scan_loop data (off + total) (out\<lparr>sr_append_off := max (sr_append_off out) (off + total)\<rparr>)
        else let body = slice (off + HEADER) (klen + vlen) data in
          if unat (crc32 body) \<noteq> hdr_crc hdr then
            scan_loop data (next_sector off) (out\<lparr>sr_corrupt := sr_corrupt out + 1\<rparr>)
          else scan_loop data (off + total)
            (scan_index (take klen body) (drop klen body) off (out\<lparr>sr_append_off := max (sr_append_off out) (off + total)\<rparr>))
      else (out, off, False))"
  by pat_completeness auto
termination
  by (relation "measure (\<lambda>(data, off, out). length data - off)")
    (auto simp: HEADER_def next_sector_gt diff_less_mono2)

declare scan_loop.simps [simp del]

definition scan_volume :: "bytes \<Rightarrow> scan_result" where
  "scan_volume data =
     (case scan_loop data 0 scan_default of (out, off, eof) \<Rightarrow>
        if \<not> eof \<and> off < length data then out\<lparr>sr_truncated := True\<rparr> else out)"

section \<open>The encoding\<close>

lemma length_MAGIC [simp]: "length MAGIC = 4" and length_MAGIC_PREFIX [simp]: "length MAGIC_PREFIX = 3"
  by (simp_all add: MAGIC_def MAGIC_PREFIX_def)

lemma record_size_ge: "16 + k + v \<le> record_size k v"
proof -
  have r: "n \<le> (n + 15) div 16 * 16" "m \<le> (m + 511) div 512 * 512" for n m :: nat by simp_all
  have "16 + (k + v) \<le> HEADER + (k + v + 15) div 16 * 16" using r(1) [of "k + v"] by (simp add: HEADER_def)
  also have "\<dots> \<le> record_size k v" unfolding record_size_def Let_def by (rule r(2))
  finally show ?thesis by simp
qed

lemma record_size_aligned: "record_size k v mod 512 = 0"
  by (simp add: record_size_def Let_def)

lemma record_size_padded: "16 + (k + v + 15) div 16 * 16 \<le> record_size k v"
proof -
  have "m \<le> (m + 511) div 512 * 512" for m :: nat by simp
  then show ?thesis unfolding record_size_def Let_def HEADER_def by simp
qed

text \<open>The record as one concatenation.\<close>

lemma encode_record_eq:
  "encode_record key val =
     MAGIC @ le_bytes 4 (length key) @ le_bytes 4 (length val) @ le_bytes 4 (unat (crc32 (key @ val))) @ key @ val @
     replicate (record_size (length key) (length val) - 16 - length key - length val) 0"
proof -
  define n where "n = length key + length val"
  define p where "p = (n + 15) div 16 * 16"
  define t where "t = record_size (length key) (length val)"
  have np: "n \<le> p" by (simp add: p_def)
  have pt: "16 + p \<le> t" using record_size_padded [of "length key" "length val"] by (simp add: p_def n_def t_def)
  have body: "splice (length key) val (splice 0 key (replicate p 0)) = key @ val @ replicate (p - n) 0"
    using np by (simp add: splice_def n_def)
  have crc: "take n (key @ val @ replicate (p - n) 0) = key @ val" by (simp add: n_def)
  have hdr: "splice 12 d (splice 8 c (splice 4 b (splice 0 MAGIC (replicate t 0)))) = MAGIC @ b @ c @ d @ replicate (t - 16) 0"
    if "length b = 4" "length c = 4" "length d = 4" for b c d :: bytes
    using that pt by (simp add: splice_def take_Cons')
  have "splice 16 (key @ val @ replicate (p - n) 0) (MAGIC @ b @ c @ d @ replicate (t - 16) 0) =
      MAGIC @ b @ c @ d @ key @ val @ replicate (t - 16 - length key - length val) 0"
    if "length b = 4" "length c = 4" "length d = 4" for b c d :: bytes
    using that np pt by (simp add: splice_def n_def replicate_add [symmetric])
  then show ?thesis
    unfolding encode_record_def Let_def n_def [symmetric] p_def [symmetric] t_def [symmetric] body crc HEADER_def
    by (simp add: hdr)
qed

lemma length_encode_record [simp]: "length (encode_record key val) = record_size (length key) (length val)"
  using record_size_ge [of "length key" "length val"] by (simp add: encode_record_eq)

section \<open>What the checksum detects\<close>

lemma crc_bit_alt: "crc_bit c = drop_bit 1 c XOR (if bit c 0 then 0xEDB88320 else 0)"
proof -
  have "c AND 1 = 0 \<longleftrightarrow> \<not> bit c 0" using and_exp_eq_0_iff_not_bit [of c 0] by simp
  then show ?thesis by (simp only: crc_bit_def if_not_P split: if_split) simp
qed

lemma xor_cancel: "a XOR c = b XOR c \<longleftrightarrow> a = b" for a b c :: "'a::len word"
  by (metis xor.assoc xor.right_neutral xor_self_eq)

lemma xor_xor_same: "a XOR (b XOR b) = a" "b XOR (b XOR a) = a" for a b :: "'a::len word"
  by (simp_all add: xor.assoc [symmetric])

lemma crc_bit_linear: "crc_bit (a XOR b) = crc_bit a XOR crc_bit b"
proof -
  have four: "(x XOR p) XOR (y XOR q) = (x XOR y) XOR (p XOR q)" for x y p q :: u32
    by (simp only: xor.assoc xor.left_commute)
  show ?thesis by (simp add: crc_bit_alt bit_xor_iff drop_bit_xor four)
qed

lemma crc_bit_inj: "crc_bit a = crc_bit b \<Longrightarrow> a = b"
proof -
  assume eq: "crc_bit a = crc_bit b"
  have top: "bit (crc_bit c) 31 \<longleftrightarrow> bit c 0" for c
  proof -
    have "\<not> bit (drop_bit 1 c) 31" using bit_imp_le_length [of c 32] by (auto simp: bit_drop_bit_eq)
    moreover have "bit (0xEDB88320 :: u32) 31" by simp
    ultimately show ?thesis by (simp add: crc_bit_alt bit_xor_iff)
  qed
  from eq top have b0: "bit a 0 \<longleftrightarrow> bit b 0" by metis
  with eq have "drop_bit 1 a = drop_bit 1 b" by (simp only: crc_bit_alt xor_cancel)
  then have "bit a (Suc n) \<longleftrightarrow> bit b (Suc n)" for n by (metis bit_drop_bit_eq plus_1_eq_Suc comp_apply)
  with b0 show "a = b" by (metis bit_eqI not0_implies_Suc)
qed

lemma crc_steps_linear: "(crc_bit ^^ n) (a XOR b) = (crc_bit ^^ n) a XOR (crc_bit ^^ n) b"
  by (induction n) (simp_all add: crc_bit_linear)

lemma crc_steps_inj: "(crc_bit ^^ n) a = (crc_bit ^^ n) b \<Longrightarrow> a = b"
  by (induction n) (auto dest: crc_bit_inj)

lemma crc_byte_inj: "crc_byte c b = crc_byte c' b \<Longrightarrow> c = c'"
  unfolding crc_byte_def by (drule crc_steps_inj) (simp only: xor_cancel)

lemma crc_bytes_inj: "foldl crc_byte c bs = foldl crc_byte c' bs \<Longrightarrow> c = c'"
  by (induction bs arbitrary: c c') (auto dest: crc_byte_inj)

text \<open>Bits that are still to be shifted out take no part in the feedback.\<close>

lemma bit_push1: "bit (push_bit 1 w) i \<longleftrightarrow> 1 \<le> i \<and> i < 32 \<and> bit w (i - 1)" for w :: u32
  unfolding bit_push_bit_iff by auto

lemma crc_bit_push:
  assumes "\<not> bit w 31"
  shows "crc_bit (push_bit 1 w) = (w :: u32)"
proof -
  have "drop_bit 1 (push_bit 1 w) = w"
  proof (rule bit_word_eqI)
    fix n assume "n < LENGTH(32)"
    then have n: "n < 32" by simp
    have "bit (drop_bit 1 (push_bit 1 w)) n \<longleftrightarrow> 1 + n < 32 \<and> bit w n"
      unfolding bit_drop_bit_eq comp_apply bit_push1 by simp
    then show "bit (drop_bit 1 (push_bit 1 w)) n = bit w n" using n assms by (cases "n = 31") auto
  qed
  moreover have "\<not> bit (push_bit 1 w) 0" unfolding bit_push1 by simp
  ultimately show ?thesis unfolding crc_bit_alt by (simp only: if_False xor.right_neutral)
qed

lemma crc_steps_push:
  assumes "n \<le> 32" "\<And>i. 32 - n \<le> i \<Longrightarrow> \<not> bit w i"
  shows "(crc_bit ^^ n) (push_bit n w) = (w :: u32)"
  using assms
proof (induction n arbitrary: w)
  case (Suc n)
  have up: "\<not> bit (push_bit 1 w) i" if "32 - n \<le> i" for i
    using Suc.prems(2) [of "i - 1"] that Suc.prems(1) unfolding bit_push1 by auto
  have "(crc_bit ^^ Suc n) (push_bit (Suc n) w) = crc_bit ((crc_bit ^^ n) (push_bit n (push_bit 1 w)))" by simp
  also have "\<dots> = crc_bit (push_bit 1 w)" using Suc.IH [of "push_bit 1 w"] up Suc.prems(1) by simp
  also have "\<dots> = w" using Suc.prems by (intro crc_bit_push) simp
  finally show ?case .
qed simp

text \<open>Up to four bytes enter the register as one word.\<close>

primrec burst_word :: "bytes \<Rightarrow> u32" where
  "burst_word [] = 0"
| "burst_word (b # bs) = ucast b XOR push_bit 8 (burst_word bs)"

lemma burst_word_high: "8 * length bs \<le> i \<Longrightarrow> \<not> bit (burst_word bs) i"
proof (induction bs arbitrary: i)
  case (Cons b bs)
  have "\<not> bit b i" using Cons.prems bit_imp_le_length [of b i] by auto
  with Cons show ?case by (auto simp: bit_xor_iff bit_push_bit_iff bit_ucast_iff)
qed simp

lemma burst_push: "length bs \<le> 3 \<Longrightarrow> (crc_bit ^^ 8) (push_bit 8 (burst_word bs)) = burst_word bs"
  by (intro crc_steps_push burst_word_high) simp_all

lemma crc_burst: "length bs \<le> 4 \<Longrightarrow> foldl crc_byte c bs = (crc_bit ^^ (length bs * 8)) (c XOR burst_word bs)"
proof (induction bs arbitrary: c)
  case (Cons b bs)
  have "length bs \<le> 3" using Cons.prems by simp
  from burst_push [OF this] have p: "(crc_bit ^^ 8) (push_bit 8 (burst_word bs)) = burst_word bs" .
  have "length bs \<le> 4" using Cons.prems by simp
  then have "foldl crc_byte c (b # bs) = (crc_bit ^^ (length bs * 8)) (crc_byte c b XOR burst_word bs)"
    unfolding foldl.simps by (rule Cons.IH)
  also have "crc_byte c b XOR burst_word bs = (crc_bit ^^ 8) (c XOR burst_word (b # bs))"
    unfolding crc_byte_def burst_word.simps xor.assoc [symmetric] by (simp only: crc_steps_linear p)
  finally have e: "foldl crc_byte c (b # bs) = (crc_bit ^^ (length bs * 8)) ((crc_bit ^^ 8) (c XOR burst_word (b # bs)))" .
  have n: "length (b # bs) * 8 = length bs * 8 + 8" by simp
  show ?case unfolding n funpow_add comp_apply by (rule e)
qed simp

lemma burst_word_inj:
  assumes "length bs = length bs'" "length bs \<le> 4" "burst_word bs = burst_word bs'"
  shows "bs = bs'"
  using assms
proof (induction bs bs' rule: list_induct2)
  case (Cons b bs b' bs')
  have len: "length bs \<le> 3" "length bs' \<le> 3" using Cons by simp_all
  have low: "bit (burst_word (x # xs)) i \<longleftrightarrow> bit x i" if "i < 8" for x xs i
    using that by (simp add: bit_xor_iff bit_push_bit_iff bit_ucast_iff)
  have "b = b'"
  proof (rule bit_word_eqI)
    fix i assume "i < LENGTH(8)"
    then show "bit b i = bit b' i" using low [of i b bs] low [of i b' bs'] Cons.prems(2) by simp
  qed
  moreover have "push_bit 8 (burst_word bs) = push_bit 8 (burst_word bs')"
    using Cons.prems(2) \<open>b = b'\<close> unfolding burst_word.simps by (metis xor.commute xor_cancel)
  then have "(crc_bit ^^ 8) (push_bit 8 (burst_word bs)) = (crc_bit ^^ 8) (push_bit 8 (burst_word bs'))" by simp
  then have "burst_word bs = burst_word bs'"
    by (simp only: burst_push [OF len(1)] burst_push [OF len(2)])
  ultimately show ?case using Cons by simp
qed simp

text \<open>
  The checksum of a record detects every corruption confined to four consecutive bytes: if two bodies of the same length differ only inside a
  window of at most four bytes, their CRC-32 values differ.
\<close>

lemma crc_detects_burst:
  assumes "length bs = length bs'" "length bs \<le> 4" "bs \<noteq> bs'"
  shows "crc32 (xs @ bs @ ys) \<noteq> crc32 (xs @ bs' @ ys)"
proof
  assume "crc32 (xs @ bs @ ys) = crc32 (xs @ bs' @ ys)"
  then have "foldl crc_byte 0xFFFFFFFF (xs @ bs @ ys) = foldl crc_byte 0xFFFFFFFF (xs @ bs' @ ys)"
    by (metis bit.double_compl crc32_def)
  then have "foldl crc_byte (foldl crc_byte 0xFFFFFFFF xs) bs = foldl crc_byte (foldl crc_byte 0xFFFFFFFF xs) bs'"
    using crc_bytes_inj [of _ ys] by simp
  then have "burst_word bs = burst_word bs'"
    using assms(1,2) crc_steps_inj by (simp add: crc_burst xor.commute [of "foldl _ _ _"] ) (metis xor_cancel)
  with assms show False using burst_word_inj by blast
qed

end
