(* ===== verification/Flash.thy ===== *)
theory Flash
  imports Prelude
begin

text \<open>
  \<^verbatim>\<open>crates/k_nano/src/storage/flash.rs\<close>: the trait \<^verbatim>\<open>FlashController\<close> and its implementations, a region of an NVMe disk, a
  preallocated file on a FAT volume addressed through its sector chain, and plain memory.

  A block device driver is hardware behind DMA and port I/O: the state of all devices is the type \<open>'d\<close> and the drivers' operations are
  the parameter \<open>block_devs\<close>.  Offsets and sizes are natural numbers; the volumes are at most 64 MB, so the \<^verbatim>\<open>u64\<close> arithmetic
  of the source does not wrap, and the saturating operations are written out.

  The locale \<open>flash_controller\<close> is the contract a store may rely on, a byte array with bounds-checked reads and
  writes (an erase may put anything into the range it is given); memory satisfies it, and so does the sector chain of a file on a working disk.
\<close>

section \<open>Devices\<close>

datatype flash_dev = Usb | Ata | Ahci | NvmeDev | VirtioBlk

fun flash_dev_name :: "flash_dev \<Rightarrow> string" where
  "flash_dev_name Usb = ''usb''"
| "flash_dev_name Ata = ''ata''"
| "flash_dev_name Ahci = ''ahci''"
| "flash_dev_name NvmeDev = ''nvme''"
| "flash_dev_name VirtioBlk = ''virtio''"

record 'd block_devs =
  dev_present :: "flash_dev \<Rightarrow> 'd \<Rightarrow> bool"
  dev_read :: "flash_dev \<Rightarrow> nat \<Rightarrow> nat \<Rightarrow> 'd \<Rightarrow> bytes option \<times> 'd"
  dev_write :: "flash_dev \<Rightarrow> nat \<Rightarrow> bytes \<Rightarrow> 'd \<Rightarrow> bool \<times> 'd"
  nvme_total_sectors :: "'d \<Rightarrow> nat"

fun missing_dev :: "flash_dev \<Rightarrow> string" where
  "missing_dev Usb = ''no usb''"
| "missing_dev Ata = ''no ata''"
| "missing_dev Ahci = ''no ahci''"
| "missing_dev NvmeDev = ''no nvme''"
| "missing_dev VirtioBlk = ''no virtio_blk''"

definition with_flash_dev :: "'d block_devs \<Rightarrow> flash_dev \<Rightarrow> ('d \<Rightarrow> 'r res \<times> 'd) \<Rightarrow> 'd \<Rightarrow> 'r res \<times> 'd" where
  "with_flash_dev bd dev f d = (if dev_present bd dev d then f d else (Inl (missing_dev dev), d))"

section \<open>A region of an NVMe disk\<close>

record nvme_region =
  base_lba :: nat
  total_lbas :: nat

definition nvme_default_region :: "'d block_devs \<Rightarrow> 'd \<Rightarrow> nvme_region" where
  "nvme_default_region bd d =
     (let total = (if dev_present bd NvmeDev d then nvme_total_sectors bd d else 0) in
      if total > 34 + 65536 then \<lparr>base_lba = total - 34 - 65536, total_lbas = 65536\<rparr>
      else \<lparr>base_lba = 2048, total_lbas = 65536\<rparr>)"

definition nvme_read :: "'d block_devs \<Rightarrow> nvme_region \<Rightarrow> nat \<Rightarrow> nat \<Rightarrow> 'd \<Rightarrow> bytes res \<times> 'd" where
  "nvme_read bd r off n d =
     (if off mod 512 \<noteq> 0 \<or> n mod 512 \<noteq> 0 then (Inl ''unaligned'', d)
      else let lba0 = base_lba r + off div 512 in
        if lba0 + n div 512 > base_lba r + total_lbas r then (Inl ''oob'', d)
        else if \<not> dev_present bd NvmeDev d then (Inl ''no nvme'', d)
        else case dev_read bd NvmeDev lba0 n d of
          (None, d') \<Rightarrow> (Inl ''nvme read fail'', d')
        | (Some bs, d') \<Rightarrow> (Inr bs, d'))"

definition nvme_write :: "'d block_devs \<Rightarrow> nvme_region \<Rightarrow> nat \<Rightarrow> bytes \<Rightarrow> 'd \<Rightarrow> unit res \<times> 'd" where
  "nvme_write bd r off bs d =
     (if off mod 512 \<noteq> 0 \<or> length bs mod 512 \<noteq> 0 then (Inl ''unaligned'', d)
      else let lba0 = base_lba r + off div 512 in
        if lba0 + length bs div 512 > base_lba r + total_lbas r then (Inl ''oob'', d)
        else if \<not> dev_present bd NvmeDev d then (Inl ''no nvme'', d)
        else case dev_write bd NvmeDev lba0 bs d of
          (False, d') \<Rightarrow> (Inl ''nvme write fail'', d')
        | (True, d') \<Rightarrow> (Inr (), d'))"

definition nvme_size :: "nvme_region \<Rightarrow> nat" where
  "nvme_size r = min (total_lbas r * 512) (2 ^ 64 - 1)"

section \<open>A file addressed by its sector chain\<close>

text \<open>
  The loops of \<^verbatim>\<open>chain_read\<close> and \<^verbatim>\<open>chain_write\<close>: \<open>pos\<close> is the position in the file and \<open>left\<close> (the remaining data) what is still to be
  transferred.  A read that fails midway leaves the buffer partly filled; no caller looks at it.
\<close>

function chain_read_loop :: "(nat \<Rightarrow> 'd \<Rightarrow> bytes option \<times> 'd) \<Rightarrow> nat list \<Rightarrow> nat \<Rightarrow> nat \<Rightarrow> 'd \<Rightarrow> bytes res \<times> 'd" where
  "chain_read_loop rd sectors pos left d =
     (if left = 0 then (Inr [], d)
      else let in_off = pos mod 512; n = min (512 - in_off) left in
        case rd (sectors ! (pos div 512)) d of
          (None, d1) \<Rightarrow> (Inl ''io'', d1)
        | (Some sec, d1) \<Rightarrow>
            (case chain_read_loop rd sectors (pos + n) (left - n) d1 of
               (Inl e, d2) \<Rightarrow> (Inl e, d2)
             | (Inr bs, d2) \<Rightarrow> (Inr (slice in_off n sec @ bs), d2)))"
  by auto
termination
  by (relation "measure (\<lambda>(rd, sectors, pos, left, d). left)") auto

definition chain_read :: "(nat \<Rightarrow> 'd \<Rightarrow> bytes option \<times> 'd) \<Rightarrow> nat list \<Rightarrow> nat \<Rightarrow> nat \<Rightarrow> 'd \<Rightarrow> bytes res \<times> 'd" where
  "chain_read rd sectors off n d =
     (if min (off + n) (2 ^ 64 - 1) > length sectors * 512 then (Inl ''oob'', d)
      else chain_read_loop rd sectors off n d)"

function chain_write_loop ::
  "(nat \<Rightarrow> 'd \<Rightarrow> bytes option \<times> 'd) \<Rightarrow> (nat \<Rightarrow> bytes \<Rightarrow> 'd \<Rightarrow> bool \<times> 'd) \<Rightarrow> nat list \<Rightarrow> nat \<Rightarrow> bytes \<Rightarrow> 'd \<Rightarrow> unit res \<times> 'd" where
  "chain_write_loop rd wr sectors pos bs d =
     (if bs = [] then (Inr (), d)
      else let in_off = pos mod 512; n = min (512 - in_off) (length bs); lba = sectors ! (pos div 512) in
        if in_off = 0 \<and> n = 512 then
          (case wr lba (take 512 bs) d of
             (False, d1) \<Rightarrow> (Inl ''io'', d1)
           | (True, d1) \<Rightarrow> chain_write_loop rd wr sectors (pos + n) (drop n bs) d1)
        else
          (case rd lba d of
             (None, d1) \<Rightarrow> (Inl ''io'', d1)
           | (Some sec, d1) \<Rightarrow>
               (case wr lba (splice in_off (take n bs) sec) d1 of
                  (False, d2) \<Rightarrow> (Inl ''io'', d2)
                | (True, d2) \<Rightarrow> chain_write_loop rd wr sectors (pos + n) (drop n bs) d2)))"
  by auto
termination
  by (relation "measure (\<lambda>(rd, wr, sectors, pos, bs, d). length bs)") (auto simp: min_def)

definition chain_write ::
  "(nat \<Rightarrow> 'd \<Rightarrow> bytes option \<times> 'd) \<Rightarrow> (nat \<Rightarrow> bytes \<Rightarrow> 'd \<Rightarrow> bool \<times> 'd) \<Rightarrow> nat list \<Rightarrow> nat \<Rightarrow> bytes \<Rightarrow> 'd \<Rightarrow> unit res \<times> 'd" where
  "chain_write rd wr sectors off bs d =
     (if min (off + length bs) (2 ^ 64 - 1) > length sectors * 512 then (Inl ''oob'', d)
      else chain_write_loop rd wr sectors off bs d)"

record file_flash =
  ff_sectors :: "nat list"
  ff_dev :: flash_dev

definition file_read :: "'d block_devs \<Rightarrow> file_flash \<Rightarrow> nat \<Rightarrow> nat \<Rightarrow> 'd \<Rightarrow> bytes res \<times> 'd" where
  "file_read bd f off n =
     with_flash_dev bd (ff_dev f) (chain_read (\<lambda>lba. dev_read bd (ff_dev f) lba 512) (ff_sectors f) off n)"

definition file_write :: "'d block_devs \<Rightarrow> file_flash \<Rightarrow> nat \<Rightarrow> bytes \<Rightarrow> 'd \<Rightarrow> unit res \<times> 'd" where
  "file_write bd f off bs =
     with_flash_dev bd (ff_dev f)
       (chain_write (\<lambda>lba. dev_read bd (ff_dev f) lba 512) (dev_write bd (ff_dev f)) (ff_sectors f) off bs)"

definition file_size :: "file_flash \<Rightarrow> nat" where
  "file_size f = length (ff_sectors f) * 512"

definition first_lba :: "file_flash \<Rightarrow> nat" where
  "first_lba f = (case ff_sectors f of [] \<Rightarrow> 0 | s # ss \<Rightarrow> s)"

section \<open>Memory\<close>

record ram_flash =
  rf_data :: bytes

definition ram_new :: "nat \<Rightarrow> ram_flash" where
  "ram_new sz = \<lparr>rf_data = replicate sz 0\<rparr>"

definition ram_read :: "nat \<Rightarrow> nat \<Rightarrow> ram_flash \<Rightarrow> bytes res \<times> ram_flash" where
  "ram_read off n f = (if off + n > length (rf_data f) then (Inl ''oob'', f) else (Inr (slice off n (rf_data f)), f))"

definition ram_write :: "nat \<Rightarrow> bytes \<Rightarrow> ram_flash \<Rightarrow> unit res \<times> ram_flash" where
  "ram_write off bs f =
     (if off + length bs > length (rf_data f) then (Inl ''oob'', f)
      else (Inr (), f\<lparr>rf_data := splice off bs (rf_data f)\<rparr>))"

definition ram_erase :: "nat \<Rightarrow> nat \<Rightarrow> ram_flash \<Rightarrow> unit res \<times> ram_flash" where
  "ram_erase off n f =
     (if off + n > length (rf_data f) then (Inl ''oob'', f)
      else (Inr (), f\<lparr>rf_data := splice off (replicate n 0xFF) (rf_data f)\<rparr>))"

definition ram_size :: "ram_flash \<Rightarrow> nat" where
  "ram_size f = length (rf_data f)"

section \<open>The trait and the active backend\<close>

record 'f flash_ops =
  fl_read :: "nat \<Rightarrow> nat \<Rightarrow> 'f \<Rightarrow> bytes res \<times> 'f"
  fl_write :: "nat \<Rightarrow> bytes \<Rightarrow> 'f \<Rightarrow> unit res \<times> 'f"
  fl_erase :: "nat \<Rightarrow> nat \<Rightarrow> 'f \<Rightarrow> unit res \<times> 'f"
  fl_size :: "'f \<Rightarrow> nat"
  fl_kind :: "'f \<Rightarrow> string"

datatype active_flash = FileBacked file_flash | NvmeBacked nvme_region | RamBacked ram_flash

text \<open>The static \<^verbatim>\<open>FLASH\<close> once set, with the devices it reaches.\<close>

record 'd flash_state =
  active :: active_flash
  devs :: 'd

definition active_read :: "'d block_devs \<Rightarrow> nat \<Rightarrow> nat \<Rightarrow> 'd flash_state \<Rightarrow> bytes res \<times> 'd flash_state" where
  "active_read bd off n s =
     (case active s of
        FileBacked f \<Rightarrow> (case file_read bd f off n (devs s) of (r, d) \<Rightarrow> (r, s\<lparr>devs := d\<rparr>))
      | NvmeBacked f \<Rightarrow> (case nvme_read bd f off n (devs s) of (r, d) \<Rightarrow> (r, s\<lparr>devs := d\<rparr>))
      | RamBacked f \<Rightarrow> (case ram_read off n f of (r, f') \<Rightarrow> (r, s\<lparr>active := RamBacked f'\<rparr>)))"

definition active_write :: "'d block_devs \<Rightarrow> nat \<Rightarrow> bytes \<Rightarrow> 'd flash_state \<Rightarrow> unit res \<times> 'd flash_state" where
  "active_write bd off bs s =
     (case active s of
        FileBacked f \<Rightarrow> (case file_write bd f off bs (devs s) of (r, d) \<Rightarrow> (r, s\<lparr>devs := d\<rparr>))
      | NvmeBacked f \<Rightarrow> (case nvme_write bd f off bs (devs s) of (r, d) \<Rightarrow> (r, s\<lparr>devs := d\<rparr>))
      | RamBacked f \<Rightarrow> (case ram_write off bs f of (r, f') \<Rightarrow> (r, s\<lparr>active := RamBacked f'\<rparr>)))"

definition active_erase :: "nat \<Rightarrow> nat \<Rightarrow> 'd flash_state \<Rightarrow> unit res \<times> 'd flash_state" where
  "active_erase off n s =
     (case active s of
        FileBacked f \<Rightarrow> (Inr (), s)
      | NvmeBacked f \<Rightarrow> (Inr (), s)
      | RamBacked f \<Rightarrow> (case ram_erase off n f of (r, f') \<Rightarrow> (r, s\<lparr>active := RamBacked f'\<rparr>)))"

definition active_size :: "'d flash_state \<Rightarrow> nat" where
  "active_size s = (case active s of FileBacked f \<Rightarrow> file_size f | NvmeBacked f \<Rightarrow> nvme_size f | RamBacked f \<Rightarrow> ram_size f)"

definition active_kind :: "'d flash_state \<Rightarrow> string" where
  "active_kind s = (case active s of FileBacked f \<Rightarrow> ''file'' | NvmeBacked f \<Rightarrow> ''nvme'' | RamBacked f \<Rightarrow> ''ram'')"

definition active_ops :: "'d block_devs \<Rightarrow> 'd flash_state flash_ops" where
  "active_ops bd = \<lparr>fl_read = active_read bd, fl_write = active_write bd, fl_erase = active_erase, fl_size = active_size,
     fl_kind = active_kind\<rparr>"

definition ram_ops :: "ram_flash flash_ops" where
  "ram_ops = \<lparr>fl_read = ram_read, fl_write = ram_write, fl_erase = ram_erase, fl_size = ram_size, fl_kind = (\<lambda>_. ''ram'')\<rparr>"

text \<open>
  \<^verbatim>\<open>init_flash\<close>: a file if the probe finds one, else the NVMe disk unless internal disks are skipped, else 1 MB of memory.
  \<open>probed\<close> is what \<^verbatim>\<open>FileFlash::probe\<close> returned and \<open>skipped\<close> the flag of the boot logger.
\<close>

definition init_flash :: "'d block_devs \<Rightarrow> file_flash option \<Rightarrow> bool \<Rightarrow> 'd \<Rightarrow> string \<times> 'd flash_state" where
  "init_flash bd probed skipped d =
     (case probed of
        Some f \<Rightarrow> (''file'', \<lparr>active = FileBacked f, devs = d\<rparr>)
      | None \<Rightarrow>
          if skipped then (''ram'', \<lparr>active = RamBacked (ram_new (1024 * 1024)), devs = d\<rparr>)
          else if dev_present bd NvmeDev d then (''nvme'', \<lparr>active = NvmeBacked (nvme_default_region bd d), devs = d\<rparr>)
          else (''ram'', \<lparr>active = RamBacked (ram_new (1024 * 1024)), devs = d\<rparr>))"

definition try_promote_usb_file_flash ::
  "'d block_devs \<Rightarrow> file_flash option \<Rightarrow> 'd flash_state \<Rightarrow> bool \<times> 'd flash_state" where
  "try_promote_usb_file_flash bd probed s =
     (if \<not> dev_present bd Usb (devs s) then (False, s)
      else case active s of
        FileBacked f \<Rightarrow> (True, s)
      | _ \<Rightarrow> (case probed of None \<Rightarrow> (False, s) | Some f \<Rightarrow> (True, s\<lparr>active := FileBacked f\<rparr>)))"

section \<open>The contract\<close>

locale flash_controller =
  fixes ops :: "'f flash_ops"
    and contents :: "'f \<Rightarrow> bytes"
    and healthy :: "'f \<Rightarrow> bool"
  assumes size_contents: "healthy f \<Longrightarrow> fl_size ops f = length (contents f)"
    and read_ok: "healthy f \<Longrightarrow> off + n \<le> length (contents f) \<Longrightarrow>
      \<exists>f'. fl_read ops off n f = (Inr (slice off n (contents f)), f') \<and> contents f' = contents f \<and> healthy f' \<and>
        fl_kind ops f' = fl_kind ops f"
    and read_oob: "healthy f \<Longrightarrow> length (contents f) < off + n \<Longrightarrow> fl_read ops off n f = (Inl ''oob'', f)"
    and write_ok: "healthy f \<Longrightarrow> off + length bs \<le> length (contents f) \<Longrightarrow>
      \<exists>f'. fl_write ops off bs f = (Inr (), f') \<and> contents f' = splice off bs (contents f) \<and> healthy f' \<and>
        fl_kind ops f' = fl_kind ops f"
    and write_oob: "healthy f \<Longrightarrow> length (contents f) < off + length bs \<Longrightarrow> fl_write ops off bs f = (Inl ''oob'', f)"
    and erase_ok: "healthy f \<Longrightarrow> off + n \<le> length (contents f) \<Longrightarrow>
      \<exists>r f' bs. fl_erase ops off n f = (r, f') \<and> length bs = n \<and> contents f' = splice off bs (contents f) \<and> healthy f' \<and>
        fl_kind ops f' = fl_kind ops f"
begin

lemma write_then_read:
  assumes "healthy f" "off + length bs \<le> length (contents f)"
  obtains f' f'' where "fl_write ops off bs f = (Inr (), f')" "fl_read ops off (length bs) f' = (Inr bs, f'')" "healthy f''"
proof -
  from write_ok [OF assms] obtain f' where f': "fl_write ops off bs f = (Inr (), f')" "contents f' = splice off bs (contents f)" "healthy f'"
    by blast
  with read_ok [OF f'(3), of off "length bs"] assms(2) that show ?thesis by (auto simp: slice_splice_same)
qed

end

lemma splice_self: "off + n \<le> length xs \<Longrightarrow> splice off (slice off n xs) xs = xs"
  by (rule nth_equalityI) (auto simp: nth_splice nth_slice)

interpretation ram: flash_controller ram_ops rf_data "\<lambda>_. True"
proof (unfold_locales, goal_cases)
  case (6 f off n)
  then show ?case
    by (intro exI [of _ "Inr ()"] exI [of _ "f\<lparr>rf_data := splice off (replicate n 0xFF) (rf_data f)\<rparr>"] exI [of _ "replicate n 0xFF"])
      (simp add: ram_ops_def ram_erase_def)
qed (auto simp: ram_ops_def ram_size_def ram_read_def ram_write_def)

section \<open>Sector chains on a working disk\<close>

text \<open>
  A disk with 512-byte sectors: \<open>sec d lba\<close> is what sector \<open>lba\<close> holds.  Transfers of one sector inside the disk succeed, and a
  write changes that sector only.
\<close>

definition chain_within :: "nat \<Rightarrow> nat list \<Rightarrow> bool" where
  "chain_within n ss \<longleftrightarrow> distinct ss \<and> (\<forall>l \<in> set ss. l < n)"

definition chain_bytes :: "(nat \<Rightarrow> bytes) \<Rightarrow> nat list \<Rightarrow> bytes" where
  "chain_bytes sec ss = concat (map sec ss)"

declare chain_read_loop.simps [simp del] chain_write_loop.simps [simp del]

locale sector_disk =
  fixes rd :: "nat \<Rightarrow> 'd \<Rightarrow> bytes option \<times> 'd"
    and wr :: "nat \<Rightarrow> bytes \<Rightarrow> 'd \<Rightarrow> bool \<times> 'd"
    and sec :: "'d \<Rightarrow> nat \<Rightarrow> bytes"
    and sectors_of :: "'d \<Rightarrow> nat"
  assumes sec_length: "lba < sectors_of d \<Longrightarrow> length (sec d lba) = 512"
    and rd_ok: "lba < sectors_of d \<Longrightarrow> rd lba d = (Some (sec d lba), d)"
    and wr_ok: "lba < sectors_of d \<Longrightarrow> length bs = 512 \<Longrightarrow>
      \<exists>d'. wr lba bs d = (True, d') \<and> sec d' = (sec d)(lba := bs) \<and> sectors_of d' = sectors_of d"
begin

abbreviation file_bytes :: "nat list \<Rightarrow> 'd \<Rightarrow> bytes" where
  "file_bytes ss d \<equiv> chain_bytes (sec d) ss"

abbreviation chain_ok :: "nat list \<Rightarrow> 'd \<Rightarrow> bool" where
  "chain_ok ss d \<equiv> chain_within (sectors_of d) ss"

lemma length_file_bytes: "chain_ok ss d \<Longrightarrow> length (file_bytes ss d) = 512 * length ss"
proof -
  assume "chain_ok ss d"
  then have "map length (map (sec d) ss) = map (\<lambda>_. 512) ss" by (simp add: chain_within_def sec_length)
  then show ?thesis by (simp add: chain_bytes_def length_concat map_replicate_const sum_list_replicate del: map_map)
qed

lemma nth_concat_512:
  "(\<forall>x \<in> set xs. length (f x) = 512) \<Longrightarrow> p < 512 * length xs \<Longrightarrow> concat (map f xs) ! p = f (xs ! (p div 512)) ! (p mod 512)"
proof (induction xs arbitrary: p)
  case (Cons x xs)
  show ?case
  proof (cases "p < 512")
    case True
    then show ?thesis using Cons.prems by (simp add: nth_append)
  next
    case False
    then have "p div 512 = Suc ((p - 512) div 512)" "p mod 512 = (p - 512) mod 512"
      by (simp_all add: le_div_geq le_mod_geq)
    then show ?thesis using Cons False by (simp add: nth_append)
  qed
qed simp

lemma nth_file_bytes:
  "chain_ok ss d \<Longrightarrow> p < 512 * length ss \<Longrightarrow> file_bytes ss d ! p = sec d (ss ! (p div 512)) ! (p mod 512)"
  unfolding chain_bytes_def by (rule nth_concat_512) (auto simp: chain_within_def sec_length)

lemma sector_index: "i < 512 - p mod 512 \<Longrightarrow> (p + i) div 512 = p div 512 \<and> (p + i) mod 512 = p mod 512 + i" for p i :: nat
proof -
  assume "i < 512 - p mod 512"
  then have "(p mod 512 + i) div 512 = 0" "(p mod 512 + i) mod 512 = p mod 512 + i" by simp_all
  moreover have "p + i = 512 * (p div 512) + (p mod 512 + i)" by simp
  ultimately show ?thesis by (metis add.right_neutral div_mult_self4 mod_mult_self4 zero_neq_numeral)
qed

lemma chain_index: "p < 512 * length ss \<Longrightarrow> p div 512 < length ss" for p :: nat
  by (simp add: less_mult_imp_div_less mult.commute)

lemma slice_in_sector:
  assumes "chain_ok ss d" "p + n \<le> 512 * length ss" "0 < n" "n \<le> 512 - p mod 512"
  shows "slice (p mod 512) n (sec d (ss ! (p div 512))) = slice p n (file_bytes ss d)"
proof -
  have k: "p div 512 < length ss" using chain_index [of p ss] assms(2,3) by linarith
  then have l: "length (sec d (ss ! (p div 512))) = 512" using assms(1) sec_length by (simp add: chain_within_def)
  show ?thesis
  proof (rule nth_equalityI)
    show "length (slice (p mod 512) n (sec d (ss ! (p div 512)))) = length (slice p n (file_bytes ss d))"
      using l assms(2,4) length_file_bytes [OF assms(1)] by (simp add: le_diff_conv2 add.commute)
    fix i assume "i < length (slice (p mod 512) n (sec d (ss ! (p div 512))))"
    then have i: "i < n" by (simp add: slice_def)
    then have "i < 512 - p mod 512" using assms(4) by linarith
    from sector_index [OF this] show "slice (p mod 512) n (sec d (ss ! (p div 512))) ! i = slice p n (file_bytes ss d) ! i"
      using i assms nth_file_bytes [OF assms(1), of "p + i"] length_file_bytes [OF assms(1)] l
      by (simp add: nth_slice add.commute le_diff_conv2)
  qed
qed

lemma chain_read_loop_ok:
  assumes "chain_ok ss d" "p + n \<le> 512 * length ss"
  shows "chain_read_loop rd ss p n d = (Inr (slice p n (file_bytes ss d)), d)"
  using assms
proof (induction n arbitrary: p rule: less_induct)
  case (less n)
  show ?case
  proof (cases "n = 0")
    case True
    then show ?thesis by (subst chain_read_loop.simps) (simp add: slice_def)
  next
    case False
    let ?m = "min (512 - p mod 512) n"
    have m: "0 < ?m" "?m \<le> n" using False by (simp_all add: min_def)
    have k: "p div 512 < length ss" using chain_index [of p ss] less.prems(2) False by linarith
    then have rd: "rd (ss ! (p div 512)) d = (Some (sec d (ss ! (p div 512))), d)"
      using rd_ok less.prems(1) by (simp add: chain_within_def)
    have rest: "chain_read_loop rd ss (p + ?m) (n - ?m) d = (Inr (slice (p + ?m) (n - ?m) (file_bytes ss d)), d)"
      using less.IH [of "n - ?m" "p + ?m"] less.prems m by simp
    have "slice (p mod 512) ?m (sec d (ss ! (p div 512))) = slice p ?m (file_bytes ss d)"
      using slice_in_sector [OF less.prems(1), of p ?m] less.prems(2) m by simp
    moreover have "slice p ?m xs @ slice (p + ?m) (n - ?m) xs = slice p n xs" for xs :: bytes
      using take_add [of ?m "n - ?m" "drop p xs"] m(2) by (simp add: slice_def add.commute)
    ultimately show ?thesis using rd rest False by (subst chain_read_loop.simps) (simp add: Let_def)
  qed
qed


lemma sector_update:
  assumes "chain_ok ss d" "p + length cs \<le> 512 * length ss" "cs \<noteq> []" "length cs \<le> 512 - p mod 512"
  shows "\<exists>d'. wr (ss ! (p div 512)) (splice (p mod 512) cs (sec d (ss ! (p div 512)))) d = (True, d') \<and>
    file_bytes ss d' = splice p cs (file_bytes ss d) \<and> sectors_of d' = sectors_of d"
proof -
  let ?k = "p div 512"
  have len: "0 < length cs" using assms(3) by simp
  have k: "?k < length ss" using chain_index [of p ss] assms(2) len by linarith
  have kin: "ss ! ?k < sectors_of d" using k assms(1) by (simp add: chain_within_def)
  have l: "length (sec d (ss ! ?k)) = 512" using sec_length [OF kin] .
  have fits: "p mod 512 + length cs \<le> 512" using assms(4) len by linarith
  from wr_ok [OF kin, of "splice (p mod 512) cs (sec d (ss ! ?k))"] l fits obtain d' where
    d': "wr (ss ! ?k) (splice (p mod 512) cs (sec d (ss ! ?k))) d = (True, d')"
      "sec d' = (sec d)(ss ! ?k := splice (p mod 512) cs (sec d (ss ! ?k)))" "sectors_of d' = sectors_of d" by auto
  have ok': "chain_ok ss d'" using assms(1) d'(3) by simp
  have "file_bytes ss d' = splice p cs (file_bytes ss d)"
  proof (rule nth_equalityI)
    show "length (file_bytes ss d') = length (splice p cs (file_bytes ss d))"
      using assms(2) by (simp add: length_file_bytes ok' assms(1))
    fix q assume "q < length (file_bytes ss d')"
    then have q: "q < 512 * length ss" by (simp add: length_file_bytes ok')
    have same: "ss ! (q div 512) = ss ! ?k \<longleftrightarrow> q div 512 = ?k"
      using assms(1) k chain_index [OF q] by (auto simp: chain_within_def nth_eq_iff_index_eq)
    have win: "p \<le> q \<and> q < p + length cs \<longleftrightarrow> q div 512 = ?k \<and> p mod 512 \<le> q mod 512 \<and> q mod 512 < p mod 512 + length cs"
    proof
      assume a: "p \<le> q \<and> q < p + length cs"
      then have "q - p < 512 - p mod 512" using assms(4) by linarith
      from sector_index [OF this] a have "q div 512 = ?k" "q mod 512 = p mod 512 + (q - p)" by simp_all
      moreover have "q - p < length cs" using a by linarith
      ultimately show "q div 512 = ?k \<and> p mod 512 \<le> q mod 512 \<and> q mod 512 < p mod 512 + length cs" by simp
    next
      assume a: "q div 512 = ?k \<and> p mod 512 \<le> q mod 512 \<and> q mod 512 < p mod 512 + length cs"
      have "q = 512 * (q div 512) + q mod 512" "p = 512 * ?k + p mod 512" by simp_all
      with a show "p \<le> q \<and> q < p + length cs" by linarith
    qed
    have off: "q mod 512 - p mod 512 = q - p" if "q div 512 = ?k" "p mod 512 \<le> q mod 512"
    proof -
      have "q = 512 * (q div 512) + q mod 512" "p = 512 * ?k + p mod 512" by simp_all
      with that show ?thesis by linarith
    qed
    have "file_bytes ss d' ! q = sec d' (ss ! (q div 512)) ! (q mod 512)" using nth_file_bytes [OF ok' q] .
    also have "\<dots> = splice p cs (file_bytes ss d) ! q"
      using q assms(2) fits l off win
      by (auto simp: d'(2) same nth_splice length_file_bytes [OF assms(1)] nth_file_bytes [OF assms(1) q])
    finally show "file_bytes ss d' ! q = splice p cs (file_bytes ss d) ! q" .
  qed
  then show ?thesis using d' by blast
qed

lemma splice_splice: "p + length xs + length ys \<le> length zs \<Longrightarrow> splice (p + length xs) ys (splice p xs zs) = splice p (xs @ ys) zs"
  by (rule nth_equalityI) (auto simp: nth_splice nth_append)

lemma chain_write_step:
  assumes "bs \<noteq> []" "m = min (512 - p mod 512) (length bs)" "rd (ss ! (p div 512)) d = (Some old, d)"
    "wr (ss ! (p div 512)) (splice (p mod 512) (take m bs) old) d = (True, d1)"
    "p mod 512 = 0 \<and> m = 512 \<Longrightarrow> take 512 bs = splice (p mod 512) (take m bs) old"
  shows "chain_write_loop rd wr ss p bs d = chain_write_loop rd wr ss (p + m) (drop m bs) d1"
  using assms(1,3-5) unfolding chain_write_loop.simps [of rd wr ss p bs d] Let_def assms(2) [symmetric] by auto

lemma chain_write_loop_ok:
  assumes "chain_ok ss d" "p + length bs \<le> 512 * length ss"
  shows "\<exists>d'. chain_write_loop rd wr ss p bs d = (Inr (), d') \<and> file_bytes ss d' = splice p bs (file_bytes ss d) \<and>
    sectors_of d' = sectors_of d"
  using assms
proof (induction "length bs" arbitrary: p bs d rule: less_induct)
  case less
  show ?case
  proof (cases "bs = []")
    case True
    then show ?thesis by (subst chain_write_loop.simps) (simp add: splice_def)
  next
    case False
    define m where "m = min (512 - p mod 512) (length bs)"
    let ?lba = "ss ! (p div 512)" and ?cs = "take m bs"
    have m: "0 < m" "m \<le> length bs" "m \<le> 512 - p mod 512" using False by (simp_all add: m_def)
    have cs: "length ?cs = m" "?cs \<noteq> []" using m False by simp_all
    have k: "p div 512 < length ss" using chain_index [of p ss] less.prems(2) m by linarith
    then have lba: "?lba < sectors_of d" using less.prems(1) by (simp add: chain_within_def)
    have "p + length ?cs \<le> 512 * length ss" "length ?cs \<le> 512 - p mod 512" using less.prems(2) m cs(1) by linarith+
    from sector_update [OF less.prems(1) this(1) cs(2) this(2)] obtain d1 where
      d1: "wr ?lba (splice (p mod 512) ?cs (sec d ?lba)) d = (True, d1)"
        "file_bytes ss d1 = splice p ?cs (file_bytes ss d)" "sectors_of d1 = sectors_of d" by blast
    have full: "take 512 bs = splice (p mod 512) ?cs (sec d ?lba)" if "p mod 512 = 0 \<and> m = 512"
      using that sec_length [OF lba] m(2) by (simp add: splice_def)
    have step: "chain_write_loop rd wr ss p bs d = chain_write_loop rd wr ss (p + m) (drop m bs) d1"
      by (rule chain_write_step [OF False m_def rd_ok [OF lba] d1(1) full])
    have ok1: "chain_ok ss d1" using less.prems(1) d1(3) by simp
    have "length (drop m bs) < length bs" "p + m + length (drop m bs) \<le> 512 * length ss" using m less.prems(2) by simp_all
    from less.hyps [OF this(1) ok1 this(2)] obtain d' where
      d': "chain_write_loop rd wr ss (p + m) (drop m bs) d1 = (Inr (), d')"
        "file_bytes ss d' = splice (p + m) (drop m bs) (file_bytes ss d1)" "sectors_of d' = sectors_of d1" by blast
    have "p + length ?cs + length (drop m bs) \<le> length (file_bytes ss d)"
      using less.prems m length_file_bytes [OF less.prems(1)] by simp
    from splice_splice [OF this] have "splice (p + m) (drop m bs) (splice p ?cs (file_bytes ss d)) = splice p bs (file_bytes ss d)"
      by (simp only: cs(1) append_take_drop_id)
    then have "file_bytes ss d' = splice p bs (file_bytes ss d)" "sectors_of d' = sectors_of d"
      by (simp_all only: d'(2,3) d1(2,3))
    then show ?thesis unfolding step d'(1) by blast
  qed
qed

end

section \<open>A file on a working disk is a flash\<close>

definition file_ops :: "'d block_devs \<Rightarrow> file_flash \<Rightarrow> 'd flash_ops" where
  "file_ops bd f = \<lparr>fl_read = file_read bd f, fl_write = file_write bd f, fl_erase = (\<lambda>_ _ d. (Inr (), d)),
     fl_size = (\<lambda>_. file_size f), fl_kind = (\<lambda>_. ''file'')\<rparr>"

locale file_volume = sector_disk "\<lambda>lba. dev_read bd dev lba 512" "dev_write bd dev" sec sectors_of
  for bd :: "'d block_devs" and dev and sec and sectors_of +
  fixes ss :: "nat list"
  assumes present: "dev_present bd dev d"
    and small: "length ss * 512 < 2 ^ 64 - 1"

sublocale file_volume \<subseteq> flash: flash_controller "file_ops bd \<lparr>ff_sectors = ss, ff_dev = dev\<rparr>" "\<lambda>d. chain_bytes (sec d) ss"
  "\<lambda>d. chain_within (sectors_of d) ss"
proof (unfold_locales, goal_cases)
  case (1 d)
  then show ?case by (simp add: file_ops_def file_size_def length_file_bytes)
next
  case (2 d off n)
  then show ?case using small chain_read_loop_ok [of d ss off n]
    by (simp add: file_ops_def file_read_def with_flash_dev_def present chain_read_def length_file_bytes mult.commute)
next
  case (3 d off n)
  then show ?case using small
    by (simp add: file_ops_def file_read_def with_flash_dev_def present chain_read_def length_file_bytes mult.commute)
next
  case (4 d off bs)
  then show ?case using small chain_write_loop_ok [of d ss off bs]
    by (auto simp: file_ops_def file_write_def with_flash_dev_def present chain_write_def length_file_bytes mult.commute)
next
  case (5 d off bs)
  then show ?case using small
    by (simp add: file_ops_def file_write_def with_flash_dev_def present chain_write_def length_file_bytes mult.commute)
next
  case (6 d off n)
  then show ?case
    by (intro exI [of _ "Inr ()"] exI [of _ d] exI [of _ "slice off n (chain_bytes (sec d) ss)"]) (simp add: file_ops_def splice_self)
qed

text \<open>The disk in memory of \<^verbatim>\<open>file_flash_tests\<close>.\<close>

definition mock_read :: "nat \<Rightarrow> nat \<Rightarrow> bytes \<Rightarrow> bytes option \<times> bytes" where
  "mock_read lba n d =
     (if n = 0 \<or> n mod 512 \<noteq> 0 \<or> lba * 512 + n > length d then (None, d) else (Some (slice (lba * 512) n d), d))"

definition mock_write :: "nat \<Rightarrow> bytes \<Rightarrow> bytes \<Rightarrow> bool \<times> bytes" where
  "mock_write lba bs d =
     (if bs = [] \<or> length bs mod 512 \<noteq> 0 \<or> lba * 512 + length bs > length d then (False, d)
      else (True, splice (lba * 512) bs d))"

definition mock_devs :: "bytes block_devs" where
  "mock_devs = \<lparr>dev_present = (\<lambda>_ _. True), dev_read = (\<lambda>_. mock_read), dev_write = (\<lambda>_. mock_write),
     nvme_total_sectors = (\<lambda>d. length d div 512)\<rparr>"

lemma mock_sector_update:
  assumes "length bs = 512" "lba * 512 + 512 \<le> length d"
  shows "(\<lambda>l. slice (l * 512) 512 (splice (lba * 512) bs d)) = (\<lambda>l. slice (l * 512) 512 d)(lba := bs)"
proof
  fix l
  consider "l = lba" | "l < lba" | "lba < l" by linarith
  then show "slice (l * 512) 512 (splice (lba * 512) bs d) = ((\<lambda>l. slice (l * 512) 512 d)(lba := bs)) l"
  proof cases
    case 1
    then show ?thesis using assms slice_splice_same [of "lba * 512" bs d] by simp
  next
    case 2
    then have "l * 512 + 512 \<le> lba * 512" by linarith
    then show ?thesis using assms 2 by (simp add: slice_splice_disjoint)
  next
    case 3
    then have "lba * 512 + 512 \<le> l * 512" by linarith
    then show ?thesis using assms 3 by (simp add: slice_def splice_def drop_append)
  qed
qed

interpretation mock: file_volume mock_devs dev "\<lambda>d l. slice (l * 512) 512 d" "\<lambda>d. length d div 512" "[5, 3, 9]"
proof (unfold_locales, goal_cases)
  case (1 lba d)
  then show ?case by simp
next
  case (2 lba d)
  then show ?case by (simp add: mock_devs_def mock_read_def)
next
  case (3 lba d bs)
  then have "lba * 512 + 512 \<le> length d" by simp
  with 3 mock_sector_update [of bs lba d] show ?case by (auto simp: mock_devs_def mock_write_def)
qed (simp_all add: mock_devs_def)

text \<open>
  C36.  A file on a FAT volume is a byte array.  On any disk whose sectors behave as sectors, reading and writing at any offset and length through a
  sector chain without repetitions, aligned or not, reads and overwrites exactly those bytes of the concatenated sectors
  (a partial sector is read, modified and written back), and a range beyond the end is refused without touching the disk.
\<close>

theorem sector_chain_is_byte_array:
  assumes "sector_disk rd wr sec sectors_of" "chain_within (sectors_of d) ss" "length ss * 512 < 2 ^ 64"
  shows "chain_read rd ss off n d =
      (if off + n \<le> length ss * 512 then (Inr (slice off n (chain_bytes (sec d) ss)), d) else (Inl ''oob'', d)) \<and>
    (if off + length bs \<le> length ss * 512
     then \<exists>d'. chain_write rd wr ss off bs d = (Inr (), d') \<and> sectors_of d' = sectors_of d \<and>
       chain_bytes (sec d') ss = splice off bs (chain_bytes (sec d) ss)
     else chain_write rd wr ss off bs d = (Inl ''oob'', d))"
  using sector_disk.chain_read_loop_ok [OF assms(1,2), of off n] sector_disk.chain_write_loop_ok [OF assms(1,2), of off bs] assms(3)
  by (auto simp: chain_read_def chain_write_def mult.commute)

theorem sector_chain_is_byte_array_witness:
  "chain_read (\<lambda>lba. dev_read mock_devs Usb lba 512) [5, 3, 9] 500 20 (replicate 5120 7) = (Inr (replicate 20 7), replicate 5120 7) \<and>
   chain_write (\<lambda>lba. dev_read mock_devs Usb lba 512) (dev_write mock_devs Usb) [5, 3, 9] 1530 [1, 2, 3, 4, 5, 6, 7] (replicate 5120 7) =
     (Inl ''oob'', replicate 5120 7)"
proof -
  have w: "chain_within (length (replicate 5120 7 :: bytes) div 512) [5, 3, 9]" by (simp add: chain_within_def)
  have c: "slice 500 20 (chain_bytes (\<lambda>l. slice (l * 512) 512 (replicate 5120 7)) [5, 3, 9]) = (replicate 20 7 :: bytes)"
    by (simp add: chain_bytes_def slice_def replicate_add [symmetric])
  show ?thesis
    using sector_chain_is_byte_array [OF mock.sector_disk_axioms [of Usb] w, of 500 20]
      sector_chain_is_byte_array [OF mock.sector_disk_axioms [of Usb] w, of 1530 7 "[1, 2, 3, 4, 5, 6, 7]"] c
    by (simp)
qed

end
