(* ===== verification/Tickv.thy ===== *)
theory Tickv
  imports TickvCodec Flash
begin

text \<open>
  The key-value store of \<^verbatim>\<open>crates/k_nano/src/storage/tickv.rs\<close>: an append-only log of records on a flash, an index from keys to record offsets,
  recovery by scanning, index checkpoints written as ordinary records, and compaction.

  \<open>ops\<close> is the flash behind the static \<^verbatim>\<open>FLASH\<close>, any implementation of the trait.  The record \<open>kv\<close> holds the fields of \<^verbatim>\<open>TickvLite\<close> and the
  statics of the module.  Offsets are natural numbers: a flash has fewer than \<open>2 ^ 64\<close> bytes.  The clock read by the scans of
  \<^verbatim>\<open>mount\<close> is a parameter.
\<close>

section \<open>State\<close>

record kv_stats =
  live_bytes :: nat
  dead_bytes :: nat
  corrupt_records :: nat
  compactions :: nat
  puts :: nat
  gets :: nat

record tickv_lite =
  kv_index :: "(bytes, nat) btree"
  kv_append :: nat
  kv_ready :: bool
  kv_degraded :: bool
  kv_backend :: string
  kv_hw_latched :: bool
  kv_ckpt_dirty :: bool
  kv_stats :: kv_stats

record 'f kv = tickv_lite +
  kv_flash :: "'f option"
  kv_installed :: bool
  kv_compacting :: bool
  kv_skipped :: nat
  kv_skipped_total :: nat
  kv_gc_suspended :: bool

text \<open>\<^verbatim>\<open>saturating_add\<close> on \<^verbatim>\<open>u64\<close> counters.\<close>

definition sat64 :: "nat \<Rightarrow> nat" where
  "sat64 n = min n (2 ^ 64 - 1)"

definition HIGH_WATER :: nat where "HIGH_WATER = 256 * 1024"
definition FLUSH_IDLE :: string where "FLUSH_IDLE = ''idle''"
definition FLUSH_HIGH_WATER :: string where "FLUSH_HIGH_WATER = ''high_water''"
definition DEAD_RATIO_NUM :: nat where "DEAD_RATIO_NUM = 1"
definition DEAD_RATIO_DEN :: nat where "DEAD_RATIO_DEN = 1"
definition MOUNT_SCAN_BUDGET_US :: nat where "MOUNT_SCAN_BUDGET_US = 3000000"

definition no_stats :: kv_stats where
  "no_stats = \<lparr>live_bytes = 0, dead_bytes = 0, corrupt_records = 0, compactions = 0, puts = 0, gets = 0\<rparr>"

definition tickv_new :: "'f kv \<Rightarrow> 'f kv" where
  "tickv_new s = s\<lparr>kv_index := [], kv_append := 0, kv_ready := False, kv_degraded := False, kv_backend := ''none'',
     kv_hw_latched := False, kv_ckpt_dirty := False, kv_stats := no_stats\<rparr>"

definition add_live :: "nat \<Rightarrow> 'f kv \<Rightarrow> 'f kv" where
  "add_live n s = s\<lparr>kv_stats := (kv_stats s)\<lparr>live_bytes := sat64 (live_bytes (kv_stats s) + n)\<rparr>\<rparr>"

definition add_dead :: "nat \<Rightarrow> 'f kv \<Rightarrow> 'f kv" where
  "add_dead n s = s\<lparr>kv_stats := (kv_stats s)\<lparr>dead_bytes := sat64 (dead_bytes (kv_stats s) + n)\<rparr>\<rparr>"

definition add_corrupt :: "'f kv \<Rightarrow> 'f kv" where
  "add_corrupt s = s\<lparr>kv_stats := (kv_stats s)\<lparr>corrupt_records := sat64 (corrupt_records (kv_stats s) + 1)\<rparr>\<rparr>"

definition set_gc_suspended :: "bool \<Rightarrow> 'f kv \<Rightarrow> 'f kv" where
  "set_gc_suspended b s = s\<lparr>kv_gc_suspended := b\<rparr>"

definition gc_is_suspended :: "'f kv \<Rightarrow> bool" where
  "gc_is_suspended s = kv_gc_suspended s"

definition is_file_backend :: "'f kv \<Rightarrow> bool" where
  "is_file_backend s \<longleftrightarrow> kv_backend s = ''file'' \<or> kv_backend s = ''nvme''"

text \<open>\<^verbatim>\<open>with_flash\<close> with the two error layers flattened, as \<^verbatim>\<open>??\<close> does.\<close>

definition with_flash :: "('f \<Rightarrow> 'r res \<times> 'f) \<Rightarrow> 'f kv \<Rightarrow> 'r res \<times> 'f kv" where
  "with_flash f s =
     (case kv_flash s of
        None \<Rightarrow> (Inl ''no flash'', s)
      | Some fl \<Rightarrow> (case f fl of (r, fl') \<Rightarrow> (r, s\<lparr>kv_flash := Some fl'\<rparr>)))"

section \<open>Scanning\<close>

definition mount_scan_deadline :: "nat \<Rightarrow> nat" where
  "mount_scan_deadline now = (if now = 0 then 2 ^ 64 - 1 else sat64 (now + MOUNT_SCAN_BUDGET_US))"

definition mount_scan_expired :: "nat \<Rightarrow> nat \<Rightarrow> bool" where
  "mount_scan_expired deadline now \<longleftrightarrow> deadline \<noteq> 2 ^ 64 - 1 \<and> deadline \<le> now"

definition recompute_live_estimate :: "'f kv \<Rightarrow> 'f kv" where
  "recompute_live_estimate s = s\<lparr>kv_stats := (kv_stats s)\<lparr>live_bytes := sat64 (512 * length (kv_index s))\<rparr>\<rparr>"

text \<open>What a record with a good checksum does to the index and the counters.\<close>

definition scan_apply :: "bytes \<Rightarrow> bytes \<Rightarrow> nat \<Rightarrow> nat \<Rightarrow> 'f kv \<Rightarrow> 'f kv" where
  "scan_apply key val off tot s =
     (if \<not> from_utf8 key then add_corrupt s
      else if val = [] then
        (if bt_contains (kv_index s) key then add_dead tot (s\<lparr>kv_index := bt_remove key (kv_index s)\<rparr>) else s)
      else if bt_contains (kv_index s) key then add_dead tot (s\<lparr>kv_index := bt_insert key off (kv_index s)\<rparr>)
      else add_live tot (s\<lparr>kv_index := bt_insert key off (kv_index s)\<rparr>))"

text \<open>
  The loop of \<^verbatim>\<open>scan_range\<close>: the result is the final offset, or the error of a failed read.  \<open>now off\<close> is what the clock shows at the check made
  at offset \<open>off\<close>.
\<close>

function scan_range_loop :: "'f flash_ops \<Rightarrow> nat \<Rightarrow> (nat \<Rightarrow> nat) \<Rightarrow> nat \<Rightarrow> nat \<Rightarrow> 'f kv \<Rightarrow> nat res \<times> 'f kv" where
  "scan_range_loop ops deadline now sz off s =
     (if off + HEADER \<le> sz then
        if mount_scan_expired deadline (now off) then (Inr off, s\<lparr>kv_degraded := True\<rparr>)
        else case with_flash (fl_read ops off HEADER) s of
          (Inl e, s) \<Rightarrow> (Inl e, s)
        | (Inr hdr, s) \<Rightarrow>
          let klen = hdr_klen hdr; vlen = hdr_vlen hdr; tot = record_size klen vlen in
          if \<not> hdr_tickv_shaped hdr then
            if hdr_blank hdr then (Inr off, s)
            else scan_range_loop ops deadline now sz (next_sector off) (add_corrupt s)
          else if klen > MAX_KLEN \<or> vlen > MAX_VLEN then
            scan_range_loop ops deadline now sz (advance_oversized off klen vlen sz) (add_corrupt s)
          else if off + tot > sz then (Inr off, s)
          else if hdr_invalidated hdr then scan_range_loop ops deadline now sz (off + tot) (add_dead tot s)
          else case with_flash (fl_read ops (off + HEADER) (klen + vlen)) s of
            (Inl e, s) \<Rightarrow> (Inl e, s)
          | (Inr body, s) \<Rightarrow>
            if unat (crc32 body) \<noteq> hdr_crc hdr then
              scan_range_loop ops deadline now sz (next_sector off) (add_corrupt s)
            else scan_range_loop ops deadline now sz (off + tot) (scan_apply (take klen body) (drop klen body) off tot s)
      else (Inr off, s))"
  by pat_completeness auto

termination
  by (relation "measure (\<lambda>(ops, deadline, now, sz, off, s). sz - off)")
    (auto simp: HEADER_def next_sector_gt advance_oversized_gt diff_less_mono2)

declare scan_range_loop.simps [simp del]

definition scan_range :: "'f flash_ops \<Rightarrow> nat \<Rightarrow> bool \<Rightarrow> nat \<Rightarrow> (nat \<Rightarrow> nat) \<Rightarrow> 'f kv \<Rightarrow> unit res \<times> 'f kv" where
  "scan_range ops start keep deadline now s =
     (let s0 = (if keep then s
                else s\<lparr>kv_index := [], kv_append := 0, kv_stats := (kv_stats s)\<lparr>live_bytes := 0, dead_bytes := 0\<rparr>\<rparr>) in
      case kv_flash s0 of
        None \<Rightarrow> (Inl ''no flash'', s0)
      | Some fl \<Rightarrow>
          let sz = fl_size ops fl in
          (case scan_range_loop ops deadline now sz start s0 of
             (Inl e, s1) \<Rightarrow> (Inl e, s1)
           | (Inr off, s1) \<Rightarrow>
               (Inr (), recompute_live_estimate (s1\<lparr>kv_append := (if kv_degraded s1 then sz else off)\<rparr>))))"

definition recover :: "'f flash_ops \<Rightarrow> nat \<Rightarrow> (nat \<Rightarrow> nat) \<Rightarrow> 'f kv \<Rightarrow> unit res \<times> 'f kv" where
  "recover ops deadline now s = scan_range ops 0 False deadline now s"

section \<open>Single records\<close>

definition put_raw :: "'f flash_ops \<Rightarrow> bytes \<Rightarrow> bytes \<Rightarrow> 'f kv \<Rightarrow> unit res \<times> 'f kv" where
  "put_raw ops key val s =
     (let rec = encode_record key val; tot = length rec; off = kv_append s in
      case with_flash (fl_write ops off rec) s of
        (Inl e, s) \<Rightarrow> (Inl e, s)
      | (Inr _, s) \<Rightarrow>
          let s1 = (if bt_contains (kv_index s) key then add_dead tot (s\<lparr>kv_index := bt_insert key off (kv_index s)\<rparr>)
                    else add_live tot (s\<lparr>kv_index := bt_insert key off (kv_index s)\<rparr>));
              s2 = s1\<lparr>kv_append := off + tot, kv_stats := (kv_stats s1)\<lparr>puts := sat64 (puts (kv_stats s1) + 1)\<rparr>\<rparr>
          in (Inr (), if key \<noteq> CKPT_KEY then s2\<lparr>kv_ckpt_dirty := True\<rparr> else s2))"

definition invalidate_key :: "'f flash_ops \<Rightarrow> bytes \<Rightarrow> 'f kv \<Rightarrow> unit res \<times> 'f kv" where
  "invalidate_key ops key s =
     (if \<not> kv_ready s then (Inl ''not mounted'', s)
      else case bt_get (kv_index s) key of
        None \<Rightarrow> (Inl ''missing'', s)
      | Some off \<Rightarrow>
          (case with_flash (fl_write ops (off + 3) [0]) s of
             (Inl e, s) \<Rightarrow> (Inl e, s)
           | (Inr _, s) \<Rightarrow> (Inr (), add_dead 512 (s\<lparr>kv_index := bt_remove key (kv_index s)\<rparr>))))"

definition tv_get :: "'f flash_ops \<Rightarrow> bytes \<Rightarrow> 'f kv \<Rightarrow> bytes res \<times> 'f kv" where
  "tv_get ops key s =
     (if \<not> kv_ready s then (Inl ''not mounted'', s)
      else let s = s\<lparr>kv_stats := (kv_stats s)\<lparr>gets := sat64 (gets (kv_stats s) + 1)\<rparr>\<rparr> in
        case bt_get (kv_index s) key of
          None \<Rightarrow> (Inl ''missing'', s)
        | Some off \<Rightarrow>
            (case with_flash (fl_read ops off HEADER) s of
               (Inl e, s) \<Rightarrow> (Inl e, s)
             | (Inr hdr, s) \<Rightarrow>
                 if \<not> hdr_valid hdr then (Inl ''missing'', s)
                 else case with_flash (fl_read ops (off + HEADER) (hdr_klen hdr + hdr_vlen hdr)) s of
                   (Inl e, s) \<Rightarrow> (Inl e, s)
                 | (Inr body, s) \<Rightarrow>
                     if unat (crc32 body) \<noteq> hdr_crc hdr then (Inl ''corrupt'', s) else (Inr (drop (hdr_klen hdr) body), s)))"

definition keys_with_prefix :: "bytes \<Rightarrow> 'f kv \<Rightarrow> bytes list" where
  "keys_with_prefix p s = filter (\<lambda>k. starts_with k p) (bt_keys (kv_index s))"

definition offset_of :: "bytes \<Rightarrow> 'f kv \<Rightarrow> nat option" where
  "offset_of key s = bt_get (kv_index s) key"

section \<open>Checkpoints\<close>

definition fnv_mix :: "u64 \<Rightarrow> u8 \<Rightarrow> u64" where
  "fnv_mix h b = (h XOR ucast b) * 0x100000001b3"

definition index_fnv :: "(bytes \<times> nat) list \<Rightarrow> u64" where
  "index_fnv es = foldl (\<lambda>h (k, off). foldl fnv_mix (foldl fnv_mix h k) (le_bytes 8 off)) 0xcbf29ce484222325 es"

definition ckpt_entry :: "bytes \<times> nat \<Rightarrow> bytes" where
  "ckpt_entry e = (case e of (k, off) \<Rightarrow> if length k > 65535 then [] else le_bytes 2 (length k) @ k @ le_bytes 8 off)"

definition ckpt_body :: "nat \<Rightarrow> (bytes \<times> nat) list \<Rightarrow> bytes" where
  "ckpt_body app es =
     bstr ''TKCK'' @ le_bytes 8 app @ le_bytes 8 (unat (index_fnv es)) @ le_bytes 4 (length es) @ concat (map ckpt_entry es)"

definition write_ckpt :: "'f flash_ops \<Rightarrow> 'f kv \<Rightarrow> unit res \<times> 'f kv" where
  "write_ckpt ops s =
     (if \<not> kv_ready s then (Inl ''not mounted'', s)
      else let entries = filter (\<lambda>(k, off). k \<noteq> CKPT_KEY) (kv_index s) in
        case put_raw ops CKPT_KEY (ckpt_body (kv_append s) entries) s of
          (Inl e, s) \<Rightarrow> (Inl e, s)
        | (Inr _, s) \<Rightarrow> (Inr (), s\<lparr>kv_ckpt_dirty := False\<rparr>))"

text \<open>The scan for the last checkpoint record: reads every key, and the value and checksum of checkpoint records only.\<close>

function ckpt_scan :: "'f flash_ops \<Rightarrow> nat \<Rightarrow> (nat \<Rightarrow> nat) \<Rightarrow> nat \<Rightarrow> nat \<Rightarrow> bytes option \<Rightarrow> 'f kv \<Rightarrow> bytes option res \<times> 'f kv" where
  "ckpt_scan ops deadline now sz off found s =
     (if off + HEADER \<le> sz then
        if mount_scan_expired deadline (now off) then (Inl ''ckpt scan timeout'', s)
        else case with_flash (fl_read ops off HEADER) s of
          (Inl e, s) \<Rightarrow> (Inl e, s)
        | (Inr hdr, s) \<Rightarrow>
          let klen = hdr_klen hdr; vlen = hdr_vlen hdr; tot = record_size klen vlen in
          if \<not> hdr_tickv_shaped hdr then
            if hdr_blank hdr then (Inr found, s)
            else ckpt_scan ops deadline now sz (next_sector off) found s
          else if klen > MAX_KLEN \<or> vlen > MAX_VLEN then
            ckpt_scan ops deadline now sz (advance_oversized off klen vlen sz) found s
          else if off + tot > sz then (Inr found, s)
          else case with_flash (fl_read ops (off + HEADER) klen) s of
            (Inl e, s) \<Rightarrow> (Inl e, s)
          | (Inr key, s) \<Rightarrow>
            if key = CKPT_KEY \<and> 24 \<le> vlen then
              (case with_flash (fl_read ops (off + HEADER + klen) vlen) s of
                 (Inl e, s) \<Rightarrow> (Inl e, s)
               | (Inr val, s) \<Rightarrow>
                   ckpt_scan ops deadline now sz (off + tot) (if unat (crc32 (key @ val)) = hdr_crc hdr then Some val else found) s)
            else ckpt_scan ops deadline now sz (off + tot) found s
      else (Inr found, s))"
  by pat_completeness auto

termination
  by (relation "measure (\<lambda>(ops, deadline, now, sz, off, found, s). sz - off)")
    (auto simp: HEADER_def next_sector_gt advance_oversized_gt diff_less_mono2)

declare ckpt_scan.simps [simp del]

text \<open>The entries of a checkpoint; on an error the index keeps what was read before it.\<close>

primrec ckpt_entries :: "nat \<Rightarrow> bytes \<Rightarrow> nat \<Rightarrow> (bytes, nat) btree \<Rightarrow> string option \<times> (bytes, nat) btree" where
  "ckpt_entries 0 val pos idx = (None, idx)"
| "ckpt_entries (Suc n) val pos idx =
     (if pos + 2 > length val then (Some ''ckpt trunc'', idx)
      else let kl = le_nat (slice pos 2 val) in
        if pos + 2 + kl + 8 > length val then (Some ''ckpt trunc'', idx)
        else let key = slice (pos + 2) kl val in
          if \<not> from_utf8 key then (Some ''ckpt key'', idx)
          else ckpt_entries n val (pos + 2 + kl + 8) (bt_insert key (le_nat (slice (pos + 2 + kl) 8 val)) idx))"

text \<open>The end of the log as far as the restored index shows it; records it cannot read are skipped.\<close>

primrec ckpt_end :: "'f flash_ops \<Rightarrow> nat list \<Rightarrow> nat \<Rightarrow> 'f kv \<Rightarrow> nat \<times> 'f kv" where
  "ckpt_end ops [] lim s = (lim, s)"
| "ckpt_end ops (p # ps) lim s =
     (case with_flash (fl_read ops p HEADER) s of
        (Inl e, s) \<Rightarrow> ckpt_end ops ps lim s
      | (Inr h, s) \<Rightarrow>
          if \<not> hdr_valid h \<or> hdr_klen h > 4096 \<or> hdr_vlen h > 2 * 1024 * 1024 then ckpt_end ops ps lim s
          else ckpt_end ops ps (max lim (sat64 (p + record_size (hdr_klen h) (hdr_vlen h)))) s)"

text \<open>The check that the first entry still points to a valid record.\<close>

definition ckpt_fresh :: "'f flash_ops \<Rightarrow> 'f kv \<Rightarrow> unit res \<times> 'f kv" where
  "ckpt_fresh ops s =
     (case kv_index s of
        [] \<Rightarrow> (Inr (), s)
      | (k, p) # _ \<Rightarrow>
          (case with_flash (fl_read ops p HEADER) s of
             (Inl e, s) \<Rightarrow> (Inl e, s)
           | (Inr h, s) \<Rightarrow> if \<not> hdr_valid h then (Inl ''ckpt stale'', s\<lparr>kv_index := []\<rparr>) else (Inr (), s)))"

text \<open>Restoring the index from the value of a checkpoint, and the replay of the records after it.\<close>

definition restore_ckpt :: "'f flash_ops \<Rightarrow> bytes \<Rightarrow> nat \<Rightarrow> (nat \<Rightarrow> nat) \<Rightarrow> 'f kv \<Rightarrow> unit res \<times> 'f kv" where
  "restore_ckpt ops val deadline now s =
     (if length val < 24 then (Inl ''ckpt short'', s)
      else if slice 0 4 val \<noteq> bstr ''TKCK'' then (Inl ''bad ckpt magic'', s)
      else case ckpt_entries (le_nat (slice 20 4 val)) val 24 [] of
        (Some e, idx) \<Rightarrow> (Inl e, s\<lparr>kv_index := idx\<rparr>)
      | (None, idx) \<Rightarrow>
          if unat (index_fnv idx) \<noteq> le_nat (slice 12 8 val) then (Inl ''ckpt fnv'', s\<lparr>kv_index := []\<rparr>)
          else case ckpt_fresh ops (s\<lparr>kv_index := idx\<rparr>) of
            (Inl e, s) \<Rightarrow> (Inl e, s)
          | (Inr _, s) \<Rightarrow>
              (case ckpt_end ops (map snd idx) (le_nat (slice 4 8 val)) s of
                 (lim, s) \<Rightarrow>
                   scan_range ops (lim + record_size (length CKPT_KEY) (length val)) True deadline now
                     (recompute_live_estimate (s\<lparr>kv_append := lim\<rparr>))))"

text \<open>What the clock shows: at the start of \<^verbatim>\<open>mount\<close>, and at the checks of its three scans.\<close>

record mount_clock =
  mc_start :: nat
  mc_ckpt :: "nat \<Rightarrow> nat"
  mc_tail :: "nat \<Rightarrow> nat"
  mc_recover :: "nat \<Rightarrow> nat"

definition try_mount_from_ckpt :: "'f flash_ops \<Rightarrow> nat \<Rightarrow> mount_clock \<Rightarrow> 'f kv \<Rightarrow> unit res \<times> 'f kv" where
  "try_mount_from_ckpt ops deadline mc s =
     (let s = s\<lparr>kv_index := [], kv_append := 0\<rparr> in
      case kv_flash s of
        None \<Rightarrow> (Inl ''no flash'', s)
      | Some fl \<Rightarrow>
          (case ckpt_scan ops deadline (mc_ckpt mc) (fl_size ops fl) 0 None s of
             (Inl e, s) \<Rightarrow> (Inl e, s)
           | (Inr None, s) \<Rightarrow> (Inl ''no ckpt'', s)
           | (Inr (Some val), s) \<Rightarrow> restore_ckpt ops val deadline (mc_tail mc) s))"

text \<open>\<open>ini\<close> is what \<^verbatim>\<open>init_flash\<close> would choose: the name of the backend and the flash.\<close>

definition mount :: "'f flash_ops \<Rightarrow> string \<times> 'f \<Rightarrow> mount_clock \<Rightarrow> 'f kv \<Rightarrow> unit res \<times> 'f kv" where
  "mount ops ini mc s =
     (let s = (case kv_flash s of
                 Some fl \<Rightarrow> s\<lparr>kv_backend := fl_kind ops fl\<rparr>
               | None \<Rightarrow> s\<lparr>kv_backend := fst ini, kv_flash := Some (snd ini)\<rparr>);
          deadline = mount_scan_deadline (mc_start mc);
          s = s\<lparr>kv_degraded := False\<rparr> in
      case (case try_mount_from_ckpt ops deadline mc s of
              (Inl e, s) \<Rightarrow> recover ops deadline (mc_recover mc) s
            | (Inr _, s) \<Rightarrow> (Inr (), s)) of
        (Inl e, s) \<Rightarrow> (Inl e, s)
      | (Inr _, s) \<Rightarrow>
          (let s = s\<lparr>kv_ready := True\<rparr> in (Inr (), if is_file_backend s then set_gc_suspended True s else s)))"

section \<open>Garbage collection and writes\<close>

definition gc_due :: "'f kv \<Rightarrow> bool" where
  "gc_due s \<longleftrightarrow> kv_append s > HIGH_WATER \<or>
     live_bytes (kv_stats s) > 0 \<and> dead_bytes (kv_stats s) * DEAD_RATIO_DEN > live_bytes (kv_stats s) * DEAD_RATIO_NUM"

definition gc_allowed :: "'f kv \<Rightarrow> bool" where
  "gc_allowed s \<longleftrightarrow> \<not> is_file_backend s \<and> \<not> kv_gc_suspended s"

text \<open>
  \<^verbatim>\<open>compact\<close> rewrites the live records with \<^verbatim>\<open>put_batch\<close>, which ends in \<^verbatim>\<open>maybe_high_water_flush\<close>, \<^verbatim>\<open>maybe_gc\<close> and so \<^verbatim>\<open>compact\<close> again.  The
  operations of this cycle take the compaction they would call as an argument, and \<open>compact_at n\<close> ties the knot up to depth \<open>n\<close>.
  The guard \<^verbatim>\<open>COMPACTING\<close> makes every depth beyond one equal (\<open>compact_at_depth\<close>).
\<close>

definition maybe_gc_with :: "('f kv \<Rightarrow> unit res \<times> 'f kv) \<Rightarrow> 'f kv \<Rightarrow> unit res \<times> 'f kv" where
  "maybe_gc_with cmp s =
     (if kv_compacting s then (Inr (), s\<lparr>kv_skipped := kv_skipped s + 1, kv_skipped_total := kv_skipped_total s + 1\<rparr>)
      else if kv_gc_suspended s then (Inr (), s)
      else if is_file_backend s then (Inr (), s)
      else if gc_due s then cmp s
      else (Inr (), s))"

definition flush_opportunistic_with :: "('f kv \<Rightarrow> unit res \<times> 'f kv) \<Rightarrow> 'f flash_ops \<Rightarrow> 'f kv \<Rightarrow> bool \<times> 'f kv" where
  "flush_opportunistic_with cmp ops s =
     (if \<not> kv_ready s \<or> kv_compacting s then (False, s)
      else if is_file_backend s then
        if \<not> kv_ckpt_dirty s then (False, s)
        else (case write_ckpt ops s of (Inr _, s) \<Rightarrow> (True, s) | (Inl e, s) \<Rightarrow> (False, s))
      else if \<not> gc_due s \<or> \<not> gc_allowed s then (False, s)
      else let before = compactions (kv_stats s) in
        case maybe_gc_with cmp s of (_, s) \<Rightarrow>
          if compactions (kv_stats s) = before then (False, s)
          else (True, s\<lparr>kv_hw_latched := (kv_append s \<ge> HIGH_WATER)\<rparr>))"

definition maybe_high_water_flush_with :: "('f kv \<Rightarrow> unit res \<times> 'f kv) \<Rightarrow> 'f flash_ops \<Rightarrow> 'f kv \<Rightarrow> 'f kv" where
  "maybe_high_water_flush_with cmp ops s =
     (if kv_append s \<le> HIGH_WATER \<or> kv_hw_latched s then s
      else if kv_compacting s then snd (maybe_gc_with cmp s)
      else if \<not> gc_allowed s then s\<lparr>kv_hw_latched := True\<rparr>
      else snd (flush_opportunistic_with cmp ops s))"

text \<open>The two loops of \<^verbatim>\<open>put_batch\<close>.\<close>

primrec invalidate_all :: "'f flash_ops \<Rightarrow> (bytes \<times> bytes) list \<Rightarrow> 'f kv \<Rightarrow> 'f kv" where
  "invalidate_all ops [] s = s"
| "invalidate_all ops (it # items) s =
     invalidate_all ops items
       (if fst it \<noteq> CKPT_KEY \<and> bt_contains (kv_index s) (fst it) then snd (invalidate_key ops (fst it) s) else s)"

primrec put_raw_all :: "'f flash_ops \<Rightarrow> (bytes \<times> bytes) list \<Rightarrow> 'f kv \<Rightarrow> unit res \<times> 'f kv" where
  "put_raw_all ops [] s = (Inr (), s)"
| "put_raw_all ops (it # items) s =
     (case put_raw ops (fst it) (snd it) s of
        (Inl e, s) \<Rightarrow> (Inl e, s)
      | (Inr _, s) \<Rightarrow> put_raw_all ops items s)"

definition GC_LOCK_KEY :: bytes where "GC_LOCK_KEY = bstr ''__gc_lock''"

definition put_batch_with :: "('f kv \<Rightarrow> unit res \<times> 'f kv) \<Rightarrow> 'f flash_ops \<Rightarrow> (bytes \<times> bytes) list \<Rightarrow> 'f kv \<Rightarrow> unit res \<times> 'f kv" where
  "put_batch_with cmp ops items s =
     (if \<not> kv_ready s then (Inl ''not mounted'', s)
      else case put_raw_all ops items (invalidate_all ops items s) of
        (Inl e, s) \<Rightarrow> (Inl e, s)
      | (Inr _, s) \<Rightarrow>
          (Inr (), if list_ex (\<lambda>it. fst it \<noteq> GC_LOCK_KEY) items then maybe_high_water_flush_with cmp ops s else s))"

text \<open>The parts of \<^verbatim>\<open>compact\<close>: reading the live records, and zeroing the log in blocks of 4096 bytes.\<close>

primrec gather_live :: "'f flash_ops \<Rightarrow> bytes list \<Rightarrow> 'f kv \<Rightarrow> (bytes \<times> bytes) list \<times> 'f kv" where
  "gather_live ops [] s = ([], s)"
| "gather_live ops (k # ks) s =
     (case tv_get ops k s of
        (r, s) \<Rightarrow> (case gather_live ops ks s of
          (live, s) \<Rightarrow> (case r of Inr v \<Rightarrow> if v \<noteq> [] then (k, v) # live else live | Inl e \<Rightarrow> live, s)))"

function wipe_log :: "'f flash_ops \<Rightarrow> nat \<Rightarrow> nat \<Rightarrow> 'f kv \<Rightarrow> unit res \<times> 'f kv" where
  "wipe_log ops pos wipe s =
     (if pos < wipe then
        let n = min 4096 (wipe - pos); n512 = (n + 511) div 512 * 512; s = snd (with_flash (fl_erase ops pos n512) s) in
        case with_flash (fl_write ops pos (replicate n512 0)) s of
          (Inl e, s) \<Rightarrow> (Inl e, s)
        | (Inr _, s) \<Rightarrow> wipe_log ops (pos + n512) wipe s
      else (Inr (), s))"
  by pat_completeness auto

termination
proof (relation "measure (\<lambda>(ops, pos, wipe, s). wipe - pos)", goal_cases)
  case (2 ops pos wipe s n n512)
  then have "0 < n512" by (simp add: div_greater_zero_iff)
  then have "wipe - (pos + n512) < wipe - pos" using 2(1) by linarith
  then show ?case by simp
qed simp

declare wipe_log.simps [simp del]

primrec compact_at :: "nat \<Rightarrow> 'f flash_ops \<Rightarrow> 'f kv \<Rightarrow> unit res \<times> 'f kv" where
  "compact_at 0 ops s = (Inl ''depth'', s)"
| "compact_at (Suc n) ops s =
     (if \<not> kv_ready s then (Inl ''not mounted'', s)
      else case gather_live ops (bt_keys (kv_index s)) s of
        (live, s) \<Rightarrow>
          let old_append = kv_append s; wipe = max ((old_append + 511) div 512 * 512) 512 in
          (case wipe_log ops 0 wipe s of
             (Inl e, s) \<Rightarrow> (Inl e, s)
           | (Inr _, s) \<Rightarrow>
               let s = s\<lparr>kv_index := [], kv_append := 0, kv_stats := (kv_stats s)\<lparr>dead_bytes := 0, live_bytes := 0\<rparr>,
                         kv_compacting := True\<rparr> in
               (case put_batch_with (compact_at n ops) ops live s of
                  (res, s) \<Rightarrow>
                    (case (case res of Inr _ \<Rightarrow> write_ckpt ops s | Inl e \<Rightarrow> (Inr (), s)) of
                       (ckpt_res, s) \<Rightarrow>
                         let s = s\<lparr>kv_compacting := False\<rparr> in
                         (case res of
                            Inl e \<Rightarrow> (Inl e, s)
                          | Inr _ \<Rightarrow>
                              (case ckpt_res of
                                 Inl e \<Rightarrow> (Inl e, s)
                               | Inr _ \<Rightarrow>
                                   (Inr (), s\<lparr>kv_skipped := 0,
                                     kv_stats := (kv_stats s)\<lparr>compactions := sat64 (compactions (kv_stats s) + 1)\<rparr>\<rparr>)))))))"

definition compact_log :: "'f flash_ops \<Rightarrow> 'f kv \<Rightarrow> unit res \<times> 'f kv" where
  "compact_log = compact_at 1"

definition maybe_gc :: "'f flash_ops \<Rightarrow> 'f kv \<Rightarrow> unit res \<times> 'f kv" where
  "maybe_gc ops = maybe_gc_with (compact_log ops)"

definition flush_opportunistic :: "'f flash_ops \<Rightarrow> 'f kv \<Rightarrow> bool \<times> 'f kv" where
  "flush_opportunistic ops = flush_opportunistic_with (compact_log ops) ops"

definition maybe_high_water_flush :: "'f flash_ops \<Rightarrow> 'f kv \<Rightarrow> 'f kv" where
  "maybe_high_water_flush ops = maybe_high_water_flush_with (compact_log ops) ops"

definition put_batch :: "'f flash_ops \<Rightarrow> (bytes \<times> bytes) list \<Rightarrow> 'f kv \<Rightarrow> unit res \<times> 'f kv" where
  "put_batch ops = put_batch_with (compact_log ops) ops"

definition tv_put :: "'f flash_ops \<Rightarrow> bytes \<Rightarrow> bytes \<Rightarrow> 'f kv \<Rightarrow> unit res \<times> 'f kv" where
  "tv_put ops key val s =
     (if \<not> kv_ready s then (Inl ''not mounted'', s)
      else let s = (if key \<noteq> CKPT_KEY \<and> bt_contains (kv_index s) key then snd (invalidate_key ops key s) else s) in
        case put_raw ops key val s of
          (Inl e, s) \<Rightarrow> (Inl e, s)
        | (Inr _, s) \<Rightarrow> (Inr (), if key \<noteq> GC_LOCK_KEY then maybe_high_water_flush ops s else s))"

definition tv_delete :: "'f flash_ops \<Rightarrow> bytes \<Rightarrow> 'f kv \<Rightarrow> unit res \<times> 'f kv" where
  "tv_delete ops key s =
     (case invalidate_key ops key s of
        (Inr _, s) \<Rightarrow> (Inr (), s)
      | (Inl e, s) \<Rightarrow>
          (case tv_put ops key [] s of
             (Inl e, s) \<Rightarrow> (Inl e, s)
           | (Inr _, s) \<Rightarrow> (Inr (), s\<lparr>kv_index := bt_remove key (kv_index s)\<rparr>)))"

section \<open>The module's functions\<close>

text \<open>In the functions that replace the flash, \<open>d\<close> is the state of the disks.\<close>

definition install_ram_flash :: "nat \<Rightarrow> 'd \<Rightarrow> 'd flash_state kv \<Rightarrow> 'd flash_state kv" where
  "install_ram_flash sz d s = s\<lparr>kv_flash := Some \<lparr>active = RamBacked (ram_new sz), devs = d\<rparr>\<rparr>"

definition dump_flash :: "'f flash_ops \<Rightarrow> nat \<Rightarrow> 'f kv \<Rightarrow> bytes res \<times> 'f kv" where
  "dump_flash ops len s =
     (case kv_flash s of
        None \<Rightarrow> (Inl ''no flash'', s)
      | Some fl \<Rightarrow>
          let sz = fl_size ops fl; n = min len sz; need = (n + 511) div 512 * 512 in
          if need = n then with_flash (fl_read ops 0 n) s
          else if need \<le> sz then
            (case with_flash (fl_read ops 0 need) s of (Inl e, s) \<Rightarrow> (Inl e, s) | (Inr full, s) \<Rightarrow> (Inr (take n full), s))
          else with_flash (fl_read ops 0 n) s)"

text \<open>\<^verbatim>\<open>TICKV.lock().get_or_insert_with(TickvLite::new)\<close>.\<close>

definition get_or_insert :: "'f kv \<Rightarrow> 'f kv" where
  "get_or_insert s = (if kv_installed s then s else (tickv_new s)\<lparr>kv_installed := True\<rparr>)"

definition put_blob :: "'f flash_ops \<Rightarrow> string \<times> 'f \<Rightarrow> mount_clock \<Rightarrow> bytes \<Rightarrow> bytes \<Rightarrow> 'f kv \<Rightarrow> unit res \<times> 'f kv" where
  "put_blob ops ini mc key dat s =
     (let s = get_or_insert s in
      case (if \<not> kv_ready s then mount ops ini mc s else (Inr (), s)) of
        (Inl e, s) \<Rightarrow> (Inl e, s)
      | (Inr _, s) \<Rightarrow> tv_put ops key dat s)"

definition get_blob :: "'f flash_ops \<Rightarrow> bytes \<Rightarrow> 'f kv \<Rightarrow> bytes res \<times> 'f kv" where
  "get_blob ops key s =
     (if \<not> kv_installed s then (Inl ''no tickv'', s)
      else if \<not> kv_ready s then (Inl ''not mounted'', s)
      else tv_get ops key s)"

definition flush_idle :: "'f flash_ops \<Rightarrow> 'f kv \<Rightarrow> bool \<times> 'f kv" where
  "flush_idle ops s = (if kv_installed s then flush_opportunistic ops s else (False, s))"

definition smoke :: "'f flash_ops \<Rightarrow> string \<times> 'f \<Rightarrow> mount_clock \<Rightarrow> 'f kv \<Rightarrow> bool \<times> 'f kv" where
  "smoke ops ini mc s =
     (case mount ops ini mc (get_or_insert s) of
        (Inl e, s) \<Rightarrow> (False, s)
      | (Inr _, s) \<Rightarrow>
          (case tv_put ops (bstr ''smoke'') (bstr ''ok'') s of
             (Inl e, s) \<Rightarrow> (False, s)
           | (Inr _, s) \<Rightarrow> (case tv_get ops (bstr ''smoke'') s of (Inl e, s) \<Rightarrow> (False, s) | (Inr v, s) \<Rightarrow> (v = bstr ''ok'', s))))"

definition power_loss_smoke :: "'f flash_ops \<Rightarrow> string \<times> 'f \<Rightarrow> mount_clock \<Rightarrow> mount_clock \<Rightarrow> 'f kv \<Rightarrow> bool \<times> 'f kv" where
  "power_loss_smoke ops ini mc mc' s =
     (case put_blob ops ini mc (bstr ''pl/test'') (bstr ''survive'') s of
        (Inl e, s) \<Rightarrow> (False, s)
      | (Inr _, s) \<Rightarrow>
          (case mount ops ini mc' (get_or_insert (s\<lparr>kv_installed := False\<rparr>)) of
             (Inl e, s) \<Rightarrow> (False, s)
           | (Inr _, s) \<Rightarrow>
               (case tv_get ops (bstr ''pl/test'') s of (Inl e, s) \<Rightarrow> (False, s) | (Inr v, s) \<Rightarrow> (v = bstr ''survive'', s))))"

text \<open>
  \<^verbatim>\<open>remount_after_usb_msc\<close>: the pairs of a store in memory are read out, the flash becomes the file on the stick, the store is mounted
  again there, and the pairs the stick does not have are put.
\<close>

primrec read_pending :: "'f flash_ops \<Rightarrow> bytes list \<Rightarrow> 'f kv \<Rightarrow> (bytes \<times> bytes) list \<times> 'f kv" where
  "read_pending ops [] s = ([], s)"
| "read_pending ops (k # ks) s =
     (case tv_get ops k s of
        (r, s) \<Rightarrow>
          (case read_pending ops ks s of (ps, s) \<Rightarrow> (case r of Inl e \<Rightarrow> ps | Inr v \<Rightarrow> (k, v) # ps, s)))"

definition promote_flash :: "'d block_devs \<Rightarrow> file_flash option \<Rightarrow> 'd \<Rightarrow> 'd flash_state kv \<Rightarrow> bool \<times> 'd flash_state kv" where
  "promote_flash bd probed d s =
     (case kv_flash s of
        Some fl \<Rightarrow> (case try_promote_usb_file_flash bd probed fl of (r, fl) \<Rightarrow> (r, s\<lparr>kv_flash := Some fl\<rparr>))
      | None \<Rightarrow>
          if \<not> dev_present bd Usb d then (False, s)
          else (case probed of None \<Rightarrow> (False, s) | Some f \<Rightarrow> (True, s\<lparr>kv_flash := Some \<lparr>active = FileBacked f, devs = d\<rparr>\<rparr>)))"

primrec migrate :: "'f flash_ops \<Rightarrow> (bytes \<times> bytes) list \<Rightarrow> nat \<Rightarrow> 'f kv \<Rightarrow> nat \<times> 'f kv" where
  "migrate ops [] n s = (n, s)"
| "migrate ops (p # ps) n s =
     (case tv_get ops (fst p) s of
        (Inr _, s) \<Rightarrow> migrate ops ps n s
      | (Inl _, s) \<Rightarrow>
          (case tv_put ops (fst p) (snd p) s of (Inr _, s) \<Rightarrow> migrate ops ps (n + 1) s | (Inl _, s) \<Rightarrow> migrate ops ps n s))"

definition remount_after_usb_msc ::
  "'d block_devs \<Rightarrow> file_flash option \<Rightarrow> 'd \<Rightarrow> string \<times> 'd flash_state \<Rightarrow> mount_clock \<Rightarrow> 'd flash_state kv \<Rightarrow> bool \<times> 'd flash_state kv" where
  "remount_after_usb_msc bd probed d ini mc s =
     (let ops = active_ops bd in
      if kv_installed s \<and> \<not> (kv_backend s = ''ram'' \<and> kv_ready s) \<and> kv_backend s = ''file'' then (True, s)
      else
        case (if kv_installed s \<and> kv_backend s = ''ram'' \<and> kv_ready s then read_pending ops (bt_keys (kv_index s)) s else ([], s)) of
          (pending, s) \<Rightarrow>
            (case promote_flash bd probed d s of
               (False, s) \<Rightarrow> (False, s)
             | (True, s) \<Rightarrow>
                 (case mount ops ini mc ((get_or_insert s)\<lparr>kv_ready := False, kv_index := [], kv_append := 0\<rparr>) of
                    (Inl e, s) \<Rightarrow> (False, s)
                  | (Inr _, s) \<Rightarrow>
                      (case migrate ops pending 0 s of (n, s) \<Rightarrow> (True, if 0 < n then snd (write_ckpt ops s) else s)))))"

section \<open>The self tests\<close>

definition mounted :: "'f flash_ops \<Rightarrow> string \<times> 'f \<Rightarrow> mount_clock \<Rightarrow> 'f kv \<Rightarrow> unit res \<times> 'f kv" where
  "mounted ops ini mc s = (let s = get_or_insert s in if \<not> kv_ready s then mount ops ini mc s else (Inr (), s))"

primrec put_payloads :: "'f flash_ops \<Rightarrow> bytes \<Rightarrow> nat \<Rightarrow> nat list \<Rightarrow> 'f kv \<Rightarrow> unit res \<times> 'f kv" where
  "put_payloads ops key len [] s = (Inr (), s)"
| "put_payloads ops key len (i # is) s =
     (case tv_put ops key (splice 0 (le_bytes 4 i) (replicate len 0)) s of
        (Inl e, s) \<Rightarrow> (Inl e, s)
      | (Inr _, s) \<Rightarrow> put_payloads ops key len is s)"

definition gc_smoke :: "'f flash_ops \<Rightarrow> string \<times> 'f \<Rightarrow> mount_clock \<Rightarrow> 'f kv \<Rightarrow> bool \<times> 'f kv" where
  "gc_smoke ops ini mc s =
     (case mounted ops ini mc s of
        (Inl e, s) \<Rightarrow> (False, s)
      | (Inr _, s) \<Rightarrow>
          (case put_payloads ops (bstr ''gc/key'') 64 [0..<32] s of
             (Inl e, s) \<Rightarrow> (False, s)
           | (Inr _, s) \<Rightarrow>
               (case compact_log ops s of
                  (Inl e, s) \<Rightarrow> (False, s)
                | (Inr _, s) \<Rightarrow>
                    (case tv_get ops (bstr ''gc/key'') s of
                       (Inl e, s) \<Rightarrow> (False, s)
                     | (Inr v, s) \<Rightarrow> (4 \<le> length v \<and> le_nat (slice 0 4 v) = 31 \<and> 1 \<le> compactions (kv_stats s), s)))))"

definition stress_gc_smoke :: "'f flash_ops \<Rightarrow> string \<times> 'f \<Rightarrow> mount_clock \<Rightarrow> 'f kv \<Rightarrow> bool \<times> 'f kv" where
  "stress_gc_smoke ops ini mc s =
     (case mounted ops ini mc s of
        (Inl e, s) \<Rightarrow> (False, s)
      | (Inr _, s) \<Rightarrow>
          let before = kv_append s in
          (case put_payloads ops (bstr ''stress/key'') 128 [0..<1000] s of
             (Inl e, s) \<Rightarrow> (False, s)
           | (Inr _, s) \<Rightarrow>
               (case compact_log ops s of
                  (Inl e, s) \<Rightarrow> (False, s)
                | (Inr _, s) \<Rightarrow>
                    let after = kv_append s in
                    (case tv_get ops (bstr ''stress/key'') s of
                       (r, s) \<Rightarrow>
                         let ok_get = (case r of Inl e \<Rightarrow> False | Inr v \<Rightarrow> 4 \<le> length v \<and> le_nat (slice 0 4 v) = 999);
                             bounded = (after < 64 * 1024 \<and> after < sat64 (before + 256 * 1024));
                             s = snd (write_ckpt ops s)
                         in (ok_get \<and> bounded \<and> 1 \<le> compactions (kv_stats s), s)))))"

text \<open>
  \<^verbatim>\<open>corrupt_smoke\<close> looks only at whether there is a flash: the results of the read and of the write themselves are dropped, and the
  buffer keeps its zeros when the read fails.
\<close>

definition corrupt_smoke :: "'f flash_ops \<Rightarrow> string \<times> 'f \<Rightarrow> mount_clock \<Rightarrow> 'f kv \<Rightarrow> bool \<times> 'f kv" where
  "corrupt_smoke ops ini mc s =
     (case mounted ops ini mc s of
        (Inl e, s) \<Rightarrow> (False, s)
      | (Inr _, s) \<Rightarrow>
          (case tv_put ops (bstr ''corrupt/t'') (bstr ''good'') s of
             (Inl e, s) \<Rightarrow> (False, s)
           | (Inr _, s) \<Rightarrow>
               (case offset_of (bstr ''corrupt/t'') s of
                  None \<Rightarrow> (False, s)
                | Some off \<Rightarrow>
                    if \<not> Option.is_none (kv_flash s) then
                      case with_flash (fl_read ops off 512) s of
                      (r, s) \<Rightarrow>
                        let byte = (case r of Inl e \<Rightarrow> replicate 512 0 | Inr bs \<Rightarrow> bs); byte = byte[HEADER := byte ! HEADER XOR 0xFF];
                            s = snd (with_flash (fl_write ops off byte) s)
                        in (case tv_get ops (bstr ''corrupt/t'') s of (r, s) \<Rightarrow> (r = Inl ''corrupt'', s))
                    else (False, s))))"

end
