(* ===== verification/TickvLog.thy ===== *)
theory TickvLog
  imports Tickv
begin

text \<open>
  The log as a list of records: what the bytes of a well-formed log are, which offsets a scan finds, and what the store promises in terms of
  that list.  The store is tied to its flash by the relation \<open>holds\<close> inside the contract \<open>flash_controller\<close>, so every lemma here holds
  for every backend that satisfies the contract.
\<close>

section \<open>Logs as lists of records\<close>

datatype log_rec = LogRec (lr_live: bool) (lr_key: bytes) (lr_val: bytes)

definition rec_bytes :: "log_rec \<Rightarrow> bytes" where
  "rec_bytes r = (let e = encode_record (lr_key r) (lr_val r) in if lr_live r then e else e[3 := 0])"

definition rec_len :: "log_rec \<Rightarrow> nat" where
  "rec_len r = record_size (length (lr_key r)) (length (lr_val r))"

definition rec_ok :: "log_rec \<Rightarrow> bool" where
  "rec_ok r \<longleftrightarrow> from_utf8 (lr_key r) \<and> length (lr_key r) \<le> MAX_KLEN \<and> length (lr_val r) \<le> MAX_VLEN"

definition kill :: "log_rec \<Rightarrow> log_rec" where
  "kill r = LogRec False (lr_key r) (lr_val r)"

definition log_bytes :: "log_rec list \<Rightarrow> bytes" where
  "log_bytes rs = concat (map rec_bytes rs)"

definition log_len :: "log_rec list \<Rightarrow> nat" where
  "log_len rs = sum_list (map rec_len rs)"

text \<open>
  The offsets a scan finds and the values they stand for: the last live record of a key counts, and one with an empty value deletes
  the key.
\<close>

primrec log_index_from :: "nat \<Rightarrow> log_rec list \<Rightarrow> (bytes \<rightharpoonup> nat) \<Rightarrow> (bytes \<rightharpoonup> nat)" where
  "log_index_from off [] m = m"
| "log_index_from off (r # rs) m =
     log_index_from (off + rec_len r) rs
       (if lr_live r then m(lr_key r := (if lr_val r = [] then None else Some off)) else m)"

primrec log_map :: "log_rec list \<Rightarrow> (bytes \<rightharpoonup> bytes) \<Rightarrow> (bytes \<rightharpoonup> bytes)" where
  "log_map [] m = m"
| "log_map (r # rs) m =
     log_map rs (if lr_live r then m(lr_key r := (if lr_val r = [] then None else Some (lr_val r))) else m)"

text \<open>
  A live record with a value is the last live record of its key, checkpoints apart; checkpoints are never invalidated.
\<close>

definition superseded :: "log_rec \<Rightarrow> log_rec \<Rightarrow> bool" where
  "superseded r r' \<longleftrightarrow> lr_live r \<and> lr_val r \<noteq> [] \<and> lr_key r \<noteq> CKPT_KEY \<and> lr_live r' \<and> lr_key r' = lr_key r"

definition log_wf :: "log_rec list \<Rightarrow> bool" where
  "log_wf rs \<longleftrightarrow> (\<forall>r \<in> set rs. rec_ok r \<and> (lr_key r = CKPT_KEY \<longrightarrow> lr_live r)) \<and> sorted_wrt (\<lambda>r r'. \<not> superseded r r') rs"

definition blank :: "bytes \<Rightarrow> bool" where
  "blank bs \<longleftrightarrow> (\<forall>b \<in> set bs. b = 0 \<or> b = 0xFF)"

lemma rec_len_kill [simp]: "rec_len (kill r) = rec_len r" and lr_kill [simp]: "lr_key (kill r) = lr_key r" "lr_val (kill r) = lr_val r" "\<not> lr_live (kill r)"
  and rec_ok_kill [simp]: "rec_ok (kill r) \<longleftrightarrow> rec_ok r"
  by (simp_all add: kill_def rec_len_def rec_ok_def)

lemma length_rec_bytes [simp]: "length (rec_bytes r) = rec_len r"
  by (simp add: rec_bytes_def rec_len_def Let_def)

lemma log_bytes_simps [simp]: "log_bytes [] = []" "log_bytes (r # rs) = rec_bytes r @ log_bytes rs" "log_bytes (rs @ rs') = log_bytes rs @ log_bytes rs'"
  and log_len_simps [simp]: "log_len [] = 0" "log_len (r # rs) = rec_len r + log_len rs" "log_len (rs @ rs') = log_len rs + log_len rs'"
  by (simp_all add: log_bytes_def log_len_def)

lemma length_log_bytes [simp]: "length (log_bytes rs) = log_len rs"
  by (induction rs) simp_all

lemma rec_len_ge: "16 + length (lr_key r) + length (lr_val r) \<le> rec_len r"
  unfolding rec_len_def by (rule record_size_ge)

lemma rec_len_16 [simp]: "16 \<le> rec_len r"
  using rec_len_ge [of r] by simp

lemma log_len_aligned: "log_len rs mod 512 = 0"
  by (induction rs) (simp_all add: rec_len_def mod_add_eq record_size_aligned mod_0_imp_dvd dvd_add)

subsection \<open>Reading a record back\<close>

lemma rec_bytes_eq:
  "rec_bytes r = MAGIC_PREFIX @ [if lr_live r then of_char CHR ''V'' else 0] @ le_bytes 4 (length (lr_key r)) @ le_bytes 4 (length (lr_val r)) @
     le_bytes 4 (unat (crc32 (lr_key r @ lr_val r))) @ lr_key r @ lr_val r @ replicate (rec_len r - 16 - length (lr_key r) - length (lr_val r)) 0"
  by (simp add: rec_bytes_def encode_record_eq rec_len_def Let_def MAGIC_def MAGIC_PREFIX_def bstr_def numeral_3_eq_3)

definition rec_header :: "log_rec \<Rightarrow> bytes" where
  "rec_header r = MAGIC_PREFIX @ [if lr_live r then of_char CHR ''V'' else 0] @ le_bytes 4 (length (lr_key r)) @
     le_bytes 4 (length (lr_val r)) @ le_bytes 4 (unat (crc32 (lr_key r @ lr_val r)))"

lemma length_rec_header [simp]: "length (rec_header r) = 16"
  by (simp add: rec_header_def)

lemma rec_bytes_header:
  "rec_bytes r = rec_header r @ lr_key r @ lr_val r @ replicate (rec_len r - 16 - length (lr_key r) - length (lr_val r)) 0"
  by (simp add: rec_bytes_eq rec_header_def)

lemma header_shape [simp]:
  "hdr_valid (rec_header r) \<longleftrightarrow> lr_live r" "hdr_invalidated (rec_header r) \<longleftrightarrow> \<not> lr_live r" "hdr_tickv_shaped (rec_header r)"
  by (simp_all add: hdr_valid_def hdr_invalidated_def hdr_tickv_shaped_def rec_header_def slice_def nth_append)

lemma header_fields:
  assumes "rec_ok r"
  shows "hdr_klen (rec_header r) = length (lr_key r)" "hdr_vlen (rec_header r) = length (lr_val r)"
    "hdr_crc (rec_header r) = unat (crc32 (lr_key r @ lr_val r))"
proof -
  have u: "unat (c :: u32) < 256 ^ 4" for c using unsigned_less [of c] by simp
  have s: "slice 4 4 (rec_header r) = le_bytes 4 (length (lr_key r))" "slice 8 4 (rec_header r) = le_bytes 4 (length (lr_val r))"
    "slice 12 4 (rec_header r) = le_bytes 4 (unat (crc32 (lr_key r @ lr_val r)))"
    by (simp_all add: rec_header_def slice_def)
  show "hdr_klen (rec_header r) = length (lr_key r)" "hdr_vlen (rec_header r) = length (lr_val r)"
    "hdr_crc (rec_header r) = unat (crc32 (lr_key r @ lr_val r))"
    using assms u [of "crc32 (lr_key r @ lr_val r)"]
    by (simp_all add: hdr_klen_def hdr_vlen_def hdr_crc_def s le_nat_le_bytes rec_ok_def MAX_KLEN_def MAX_VLEN_def)
qed

text \<open>Positions in \<open>pre @ r # post\<close>.\<close>

lemma slice_header: "slice (log_len pre) 16 (log_bytes pre @ rec_bytes r @ rest) = rec_header r"
  by (simp add: slice_def rec_bytes_header)

lemma slice_body:
  "slice (log_len pre + 16) (length (lr_key r) + length (lr_val r)) (log_bytes pre @ rec_bytes r @ rest) = lr_key r @ lr_val r"
  by (simp add: slice_def rec_bytes_header)

lemma splice_kill:
  "lr_live r \<Longrightarrow> splice (log_len pre + 3) [0] (log_bytes pre @ rec_bytes r @ rest) = log_bytes pre @ rec_bytes (kill r) @ rest"
  by (simp add: splice_def rec_bytes_eq)

lemma splice_append: "blank tail \<Longrightarrow> length bs \<le> length tail \<Longrightarrow> splice (log_len rs) bs (log_bytes rs @ tail) = log_bytes rs @ bs @ drop (length bs) tail"
  by (simp add: splice_def)

subsection \<open>The index of a log\<close>

abbreviation log_index :: "log_rec list \<Rightarrow> (bytes \<rightharpoonup> nat)" where
  "log_index rs \<equiv> log_index_from 0 rs Map.empty"

abbreviation log_kv :: "log_rec list \<Rightarrow> (bytes \<rightharpoonup> bytes)" where
  "log_kv rs \<equiv> log_map rs Map.empty"

definition points_to :: "log_rec list \<Rightarrow> nat \<Rightarrow> log_rec \<Rightarrow> bool" where
  "points_to rs off r \<longleftrightarrow> (\<exists>pre post. rs = pre @ r # post \<and> off = log_len pre)"

lemma log_index_from_append: "log_index_from off (xs @ ys) m = log_index_from (off + log_len xs) ys (log_index_from off xs m)"
  by (induction xs arbitrary: off m) (simp_all add: add.assoc)

lemma log_map_append: "log_map (xs @ ys) m = log_map ys (log_map xs m)"
  by (induction xs arbitrary: m) simp_all

lemma log_index_snoc [simp]:
  "log_index (rs @ [r]) =
     (if lr_live r then (log_index rs)(lr_key r := (if lr_val r = [] then None else Some (log_len rs))) else log_index rs)"
  by (simp add: log_index_from_append)

lemma log_kv_snoc [simp]:
  "log_kv (rs @ [r]) = (if lr_live r then (log_kv rs)(lr_key r := (if lr_val r = [] then None else Some (lr_val r))) else log_kv rs)"
  by (simp add: log_map_append)

lemma points_to_append: "points_to rs off r \<Longrightarrow> points_to (rs @ rs') off r"
  unfolding points_to_def by (metis append.assoc append_Cons)

lemma points_to_last [simp]: "points_to (rs @ [r]) (log_len rs) r"
  by (auto simp: points_to_def)

lemma points_to_bound: "points_to rs off r \<Longrightarrow> off + rec_len r \<le> log_len rs"
  by (auto simp: points_to_def)

text \<open>An index entry points to the live record that determines the value of its key.\<close>

lemma log_index_record:
  assumes "log_index rs k = Some off"
  shows "\<exists>r. points_to rs off r \<and> lr_live r \<and> lr_val r \<noteq> [] \<and> lr_key r = k \<and> log_kv rs k = Some (lr_val r)"
  using assms
proof (induction rs rule: rev_induct)
  case (snoc r rs)
  show ?case
  proof (cases "lr_live r \<and> lr_key r = k")
    case True
    then show ?thesis using snoc.prems by (intro exI [of _ r]) (auto split: if_splits)
  next
    case False
    then have "log_index rs k = Some off" using snoc.prems by (auto split: if_splits)
    then obtain r' where "points_to rs off r'" "lr_live r'" "lr_val r' \<noteq> []" "lr_key r' = k" "log_kv rs k = Some (lr_val r')"
      using snoc.IH by blast
    then show ?thesis using False by (intro exI [of _ r']) (auto simp: points_to_append)
  qed
qed simp

lemma log_index_kv: "log_index rs k = None \<longleftrightarrow> log_kv rs k = None"
  by (induction rs rule: rev_induct) auto

text \<open>Only the live records of a key matter to it.\<close>

lemma log_index_from_other: "\<forall>r \<in> set rs. lr_live r \<longrightarrow> lr_key r \<noteq> k \<Longrightarrow> log_index_from off rs m k = m k"
  by (induction rs arbitrary: off m) auto

lemma log_map_other: "\<forall>r \<in> set rs. lr_live r \<longrightarrow> lr_key r \<noteq> k \<Longrightarrow> log_map rs m k = m k"
  by (induction rs arbitrary: m) auto

lemma log_index_from_local: "m k = m' k \<Longrightarrow> log_index_from off rs m k = log_index_from off rs m' k"
proof (induction rs arbitrary: off m m')
  case (Cons r rs)
  show ?case unfolding log_index_from.simps by (rule Cons.IH) (use Cons.prems in simp)
qed simp

lemma log_map_local: "m k = m' k \<Longrightarrow> log_map rs m k = log_map rs m' k"
proof (induction rs arbitrary: m m')
  case (Cons r rs)
  show ?case unfolding log_map.simps by (rule Cons.IH) (use Cons.prems in simp)
qed simp

lemma log_index_no_value: "\<forall>r \<in> set rs. lr_live r \<and> lr_key r = k \<longrightarrow> lr_val r = [] \<Longrightarrow> log_index rs k = None"
  by (induction rs rule: rev_induct) auto

lemma log_kv_no_value: "\<forall>r \<in> set rs. lr_live r \<and> lr_key r = k \<longrightarrow> lr_val r = [] \<Longrightarrow> log_kv rs k = None"
  by (induction rs rule: rev_induct) auto

lemma log_wf_live:
  assumes "log_wf rs" "k \<noteq> CKPT_KEY" "log_index rs k = None" "r \<in> set rs" "lr_live r" "lr_key r = k"
  shows "lr_val r = []"
proof (rule ccontr)
  assume v: "lr_val r \<noteq> []"
  from assms(4) obtain pre post where rs: "rs = pre @ r # post" by (meson split_list)
  with assms v have "\<forall>r' \<in> set post. lr_live r' \<longrightarrow> lr_key r' \<noteq> k"
    by (auto simp: log_wf_def sorted_wrt_append superseded_def)
  then have "log_index rs k = Some (log_len pre)"
    using assms(5,6) v by (simp add: rs log_index_from_append log_index_from_other)
  with assms(3) show False by simp
qed

lemma log_wf_others:
  assumes "log_wf (pre @ r # post)" "lr_live r" "lr_val r \<noteq> []" "lr_key r \<noteq> CKPT_KEY"
  shows "\<forall>r' \<in> set pre. lr_live r' \<and> lr_key r' = lr_key r \<longrightarrow> lr_val r' = []" "\<forall>r' \<in> set post. lr_live r' \<longrightarrow> lr_key r' \<noteq> lr_key r"
  using assms by (auto simp: log_wf_def sorted_wrt_append superseded_def)

lemma log_wf_kill: "log_wf (pre @ r # post) \<Longrightarrow> lr_key r \<noteq> CKPT_KEY \<Longrightarrow> log_wf (pre @ kill r # post)"
  by (auto simp: log_wf_def sorted_wrt_append superseded_def)

lemma log_kill:
  assumes "log_wf (pre @ r # post)" "lr_live r" "lr_val r \<noteq> []" "lr_key r \<noteq> CKPT_KEY"
  shows "log_index (pre @ kill r # post) = (log_index (pre @ r # post))(lr_key r := None)"
    "log_kv (pre @ kill r # post) = (log_kv (pre @ r # post))(lr_key r := None)"
proof -
  note o = log_wf_others [OF assms]
  have "log_index (pre @ kill r # post) k = ((log_index (pre @ r # post))(lr_key r := None)) k" for k
  proof (cases "k = lr_key r")
    case True
    then show ?thesis using log_index_no_value [OF o(1)] o(2) by (simp add: log_index_from_append log_index_from_other)
  next
    case False
    then show ?thesis using assms(2,3) by (simp add: log_index_from_append) (rule log_index_from_local, simp)
  qed
  then show "log_index (pre @ kill r # post) = (log_index (pre @ r # post))(lr_key r := None)" by blast
  have "log_kv (pre @ kill r # post) k = ((log_kv (pre @ r # post))(lr_key r := None)) k" for k
  proof (cases "k = lr_key r")
    case True
    then show ?thesis using log_kv_no_value [OF o(1)] o(2) by (simp add: log_map_append log_map_other)
  next
    case False
    then show ?thesis using assms(2,3) by (simp add: log_map_append) (rule log_map_local, simp)
  qed
  then show "log_kv (pre @ kill r # post) = (log_kv (pre @ r # post))(lr_key r := None)" by blast
qed

lemma log_wf_snoc:
  assumes "log_wf rs" "rec_ok (LogRec True k v)" "log_index rs k = None \<or> k = CKPT_KEY"
  shows "log_wf (rs @ [LogRec True k v])"
  using assms log_wf_live [OF assms(1), of k] by (auto simp: log_wf_def sorted_wrt_append superseded_def)

subsection \<open>Indexes that fit a log\<close>

text \<open>
  What the store knows of its log.  Every key with a value is indexed at its record.  An entry may also be stale, pointing to a record that was
  invalidated since (a checkpoint restores such entries); for the keys of \<open>T\<close> it may point to a record with an empty value.  The entry of the
  checkpoint key points to some checkpoint.
\<close>

definition entry_ok :: "bytes set \<Rightarrow> log_rec list \<Rightarrow> bytes \<Rightarrow> nat \<Rightarrow> bool" where
  "entry_ok T rs k off \<longleftrightarrow> (\<exists>r. points_to rs off r \<and> lr_key r = k \<and>
     (if k = CKPT_KEY then lr_live r else log_index rs k = Some off \<or> \<not> lr_live r \<or> k \<in> T \<and> lr_val r = []))"

definition idx_for :: "bytes set \<Rightarrow> (bytes \<rightharpoonup> nat) \<Rightarrow> log_rec list \<Rightarrow> bool" where
  "idx_for T m rs \<longleftrightarrow> (\<forall>k off. m k = Some off \<longrightarrow> entry_ok T rs k off) \<and>
     (\<forall>k off. k \<noteq> CKPT_KEY \<longrightarrow> log_index rs k = Some off \<longrightarrow> m k = Some off)"

lemma entry_ok_snoc:
  assumes "entry_ok T rs k off" "lr_key r = k \<longrightarrow> \<not> lr_live r \<or> k = CKPT_KEY"
  shows "entry_ok T (rs @ [r]) k off"
proof -
  from assms(1) obtain r' where "points_to rs off r'" "lr_key r' = k"
    "if k = CKPT_KEY then lr_live r' else log_index rs k = Some off \<or> \<not> lr_live r' \<or> k \<in> T \<and> lr_val r' = []"
    by (auto simp: entry_ok_def)
  moreover have "k \<noteq> CKPT_KEY \<Longrightarrow> log_index (rs @ [r]) k = log_index rs k" using assms(2) by auto
  ultimately show ?thesis unfolding entry_ok_def by (intro exI [of _ r']) (auto simp: points_to_append simp del: log_index_snoc split: if_splits)
qed

lemma entry_ok_less: "entry_ok T rs k off \<Longrightarrow> k \<noteq> k' \<Longrightarrow> entry_ok (T - {k'}) rs k off"
  unfolding entry_ok_def by (elim exE, rule exI) (auto split: if_splits)

lemma idx_for_log: "log_wf rs \<Longrightarrow> idx_for {} (log_index rs) rs"
  using log_index_record by (fastforce simp: idx_for_def entry_ok_def)

lemma idx_for_put:
  assumes "idx_for T m rs"
  shows "idx_for (if v = [] then insert k T else T) (m(k \<mapsto> log_len rs)) (rs @ [LogRec True k v])"
proof -
  let ?T = "if v = [] then insert k T else T" and ?rs = "rs @ [LogRec True k v]"
  have mono: "entry_ok T rs k' off \<Longrightarrow> entry_ok ?T rs k' off" for k' off by (fastforce simp: entry_ok_def)
  have new: "entry_ok ?T ?rs k (log_len rs)"
    unfolding entry_ok_def by (intro exI [of _ "LogRec True k v"]) simp
  have "entry_ok ?T ?rs k' off" if "(m(k \<mapsto> log_len rs)) k' = Some off" for k' off
  proof (cases "k' = k")
    case True
    then show ?thesis using that new by simp
  next
    case False
    then have "entry_ok ?T rs k' off" using that assms mono by (simp add: idx_for_def)
    then show ?thesis using False by (intro entry_ok_snoc) auto
  qed
  moreover have "(m(k \<mapsto> log_len rs)) k' = Some off" if "k' \<noteq> CKPT_KEY" "log_index ?rs k' = Some off" for k' off
    using that assms by (cases "k' = k") (auto simp: idx_for_def split: if_splits)
  ultimately show ?thesis unfolding idx_for_def by blast
qed

lemma idx_for_dead: "idx_for T m rs \<Longrightarrow> \<not> lr_live r \<Longrightarrow> idx_for T m (rs @ [r])"
  using entry_ok_snoc by (auto simp: idx_for_def)

lemma idx_for_remove: "idx_for T m rs \<Longrightarrow> log_index rs k = None \<or> k = CKPT_KEY \<Longrightarrow> idx_for (T - {k}) (m(k := None)) rs"
  using entry_ok_less by (auto simp: idx_for_def)

lemma idx_for_empty_value:
  assumes "idx_for {} m rs" "lr_live r" "lr_val r = []"
  shows "idx_for {} (m(lr_key r := None)) (rs @ [r])"
proof -
  have "idx_for (insert (lr_key r) {}) (m(lr_key r \<mapsto> log_len rs)) (rs @ [LogRec True (lr_key r) (lr_val r)])"
    using idx_for_put [OF assms(1), of "lr_val r" "lr_key r"] assms(3) by simp
  moreover have "LogRec True (lr_key r) (lr_val r) = r" using assms(2) by (cases r) simp
  ultimately show ?thesis using idx_for_remove [of "{lr_key r}" _ "rs @ [r]" "lr_key r"] assms(2,3) by fastforce
qed

text \<open>Replaying the records after a checkpoint.\<close>

lemma idx_for_replay: "idx_for {} m rs \<Longrightarrow> idx_for {} (log_index_from (log_len rs) post m) (rs @ post)"
proof (induction post arbitrary: m rs)
  case (Cons r post)
  let ?m = "if lr_live r then m(lr_key r := (if lr_val r = [] then None else Some (log_len rs))) else m"
  have "r = LogRec (lr_live r) (lr_key r) (lr_val r)" by simp
  then have "idx_for {} ?m (rs @ [r])"
    using Cons.prems idx_for_dead [of "{}" m rs r] idx_for_empty_value [of m rs r] idx_for_put [of "{}" m rs "lr_val r" "lr_key r"]
    by (cases "lr_live r"; cases "lr_val r = []") (simp_all del: log_rec.collapse)
  from Cons.IH [OF this] show ?case by simp
qed simp

text \<open>Invalidating a record leaves its entry stale at worst.\<close>

lemma points_to_kill:
  assumes "points_to (pre @ r # post) off r'"
  shows "points_to (pre @ kill r # post) off r' \<or> off = log_len pre \<and> r' = r \<and> points_to (pre @ kill r # post) off (kill r)"
proof -
  from assms obtain xs ys where x: "pre @ r # post = xs @ r' # ys" "off = log_len xs" by (auto simp: points_to_def)
  from x(1) consider us where "xs = pre @ r # us" "post = us @ r' # ys" | "xs = pre" "r' = r" "ys = post" | us where "pre = xs @ r' # us" "ys = us @ r # post"
    by (auto simp: append_eq_append_conv2 append_eq_Cons_conv Cons_eq_append_conv)
  then show ?thesis
  proof cases
    case 1
    then have "pre @ kill r # post = (pre @ kill r # us) @ r' # ys" "off = log_len (pre @ kill r # us)" using x(2) by simp_all
    then show ?thesis unfolding points_to_def by blast
  next
    case 2
    then show ?thesis using x(2) unfolding points_to_def by blast
  next
    case 3
    then have "pre @ kill r # post = xs @ r' # (us @ kill r # post)" by simp
    then show ?thesis using x(2) unfolding points_to_def by blast
  qed
qed

lemma idx_for_kill:
  assumes "idx_for T m (pre @ r # post)" "log_wf (pre @ r # post)" "lr_live r" "lr_val r \<noteq> []" "lr_key r \<noteq> CKPT_KEY"
  shows "idx_for T m (pre @ kill r # post)"
proof -
  let ?rs = "pre @ r # post" and ?rs' = "pre @ kill r # post"
  note kill = log_kill(1) [OF assms(2-5)]
  have own: "log_index ?rs (lr_key r) = Some (log_len pre)"
    using log_wf_others(2) [OF assms(2-5)] assms(3,4) by (simp add: log_index_from_append log_index_from_other)
  have "entry_ok T ?rs' k off" if "m k = Some off" for k off
  proof (cases "k = lr_key r")
    case True
    then have "off = log_len pre" using own that assms(1,5) by (auto simp: idx_for_def)
    moreover have "points_to ?rs' (log_len pre) (kill r)" unfolding points_to_def by blast
    ultimately show ?thesis using True assms(5) unfolding entry_ok_def by (intro exI [of _ "kill r"]) simp
  next
    case False
    from that assms(1) obtain r' where r': "points_to ?rs off r'" "lr_key r' = k"
      "if k = CKPT_KEY then lr_live r' else log_index ?rs k = Some off \<or> \<not> lr_live r' \<or> k \<in> T \<and> lr_val r' = []"
      by (auto simp: idx_for_def entry_ok_def)
    from points_to_kill [OF r'(1)] r'(2) False have "points_to ?rs' off r'" by auto
    moreover have "log_index ?rs' k = log_index ?rs k" using False by (simp add: kill)
    ultimately show ?thesis using r'(2,3) unfolding entry_ok_def by (intro exI [of _ r']) (simp only: simp_thms)
  qed
  moreover have "m k = Some off" if "k \<noteq> CKPT_KEY" "log_index ?rs' k = Some off" for k off
    using that assms(1) by (auto simp: kill idx_for_def split: if_splits)
  ultimately show ?thesis unfolding idx_for_def by blast
qed

subsection \<open>Checkpoints in a log\<close>

text \<open>The last checkpoint of the log describes the records before it.\<close>

definition ckpt_ok :: "log_rec list \<Rightarrow> bool" where
  "ckpt_ok rs \<longleftrightarrow> (\<forall>pre r post. rs = pre @ r # post \<longrightarrow> lr_key r = CKPT_KEY \<longrightarrow> (\<forall>r' \<in> set post. lr_key r' \<noteq> CKPT_KEY) \<longrightarrow>
     (\<exists>es. bt_wf es \<and> bt_get es CKPT_KEY = None \<and> idx_for {} (bt_get es) pre \<and> lr_val r = ckpt_body (log_len pre) es))"

lemma ckpt_okD:
  "ckpt_ok (pre @ r # post) \<Longrightarrow> lr_key r = CKPT_KEY \<Longrightarrow> \<forall>r' \<in> set post. lr_key r' \<noteq> CKPT_KEY \<Longrightarrow>
   \<exists>es. bt_wf es \<and> bt_get es CKPT_KEY = None \<and> idx_for {} (bt_get es) pre \<and> lr_val r = ckpt_body (log_len pre) es"
  unfolding ckpt_ok_def by blast

lemma snoc_split: "rs @ [r] = pre @ x # post \<Longrightarrow> post = [] \<and> x = r \<and> pre = rs \<or> (\<exists>post'. post = post' @ [r] \<and> rs = pre @ x # post')"
  by (cases post rule: rev_cases) auto

lemma ckpt_ok_snoc:
  assumes "ckpt_ok rs" "lr_key r \<noteq> CKPT_KEY"
  shows "ckpt_ok (rs @ [r])"
  unfolding ckpt_ok_def
proof (intro allI impI)
  fix pre c post assume c: "rs @ [r] = pre @ c # post" "lr_key c = CKPT_KEY" "\<forall>r' \<in> set post. lr_key r' \<noteq> CKPT_KEY"
  from snoc_split [OF c(1)] c(2) assms(2) obtain post' where "post = post' @ [r]" "rs = pre @ c # post'" by auto
  then show "\<exists>es. bt_wf es \<and> bt_get es CKPT_KEY = None \<and> idx_for {} (bt_get es) pre \<and> lr_val c = ckpt_body (log_len pre) es"
    using assms(1) c(2,3) unfolding ckpt_ok_def by simp
qed

lemma ckpt_ok_ckpt:
  assumes "bt_wf es" "bt_get es CKPT_KEY = None" "idx_for {} (bt_get es) rs" "lr_key r = CKPT_KEY" "lr_val r = ckpt_body (log_len rs) es"
  shows "ckpt_ok (rs @ [r])"
  unfolding ckpt_ok_def
proof (intro allI impI)
  fix pre c post assume c: "rs @ [r] = pre @ c # post" "lr_key c = CKPT_KEY" "\<forall>r' \<in> set post. lr_key r' \<noteq> CKPT_KEY"
  from snoc_split [OF c(1)] c(3) assms(4) have "post = []" "c = r" "pre = rs" by auto
  then show "\<exists>es. bt_wf es \<and> bt_get es CKPT_KEY = None \<and> idx_for {} (bt_get es) pre \<and> lr_val c = ckpt_body (log_len pre) es"
    using assms by auto
qed

lemma ckpt_ok_kill:
  assumes "ckpt_ok (pre @ r # post)" "log_wf (pre @ r # post)" "lr_live r" "lr_val r \<noteq> []" "lr_key r \<noteq> CKPT_KEY"
  shows "ckpt_ok (pre @ kill r # post)"
  unfolding ckpt_ok_def
proof (intro allI impI)
  fix xs c ys assume c: "pre @ kill r # post = xs @ c # ys" "lr_key c = CKPT_KEY" "\<forall>r' \<in> set ys. lr_key r' \<noteq> CKPT_KEY"
  let ?G = "\<lambda>xs. \<exists>es. bt_wf es \<and> bt_get es CKPT_KEY = None \<and> idx_for {} (bt_get es) xs \<and> lr_val c = ckpt_body (log_len xs) es"
  have "c \<noteq> kill r" using c(2) assms(5) by auto
  with c(1) consider us where "xs = pre @ kill r # us" "post = us @ c # ys" | us where "pre = xs @ c # us" "ys = us @ kill r # post"
    by (auto simp: append_eq_append_conv2 append_eq_Cons_conv Cons_eq_append_conv)
  then show "?G xs"
  proof cases
    case 1
    then have "?G (pre @ r # us)" using ckpt_okD [of "pre @ r # us" c ys] assms(1) c(2,3) by simp
    moreover have "log_wf (pre @ r # us)" using assms(2) 1 by (auto simp: log_wf_def sorted_wrt_append)
    ultimately show ?thesis using idx_for_kill [OF _ _ assms(3-5)] 1(1) by fastforce
  next
    case 2
    then show ?thesis using ckpt_okD [of xs c "us @ r # post"] assms(1,5) c(2,3) by simp
  qed
qed

subsection \<open>The size of the live records\<close>

lemma log_index_sizes:
  assumes "distinct ks" "\<forall>k \<in> set ks. \<exists>r. points_to rs (off k) r \<and> lr_key r = k \<and> sz k = rec_len r"
  shows "sum_list (map sz ks) \<le> log_len rs"
  using assms
proof (induction rs arbitrary: ks rule: rev_induct)
  case Nil
  then have "ks = []" by (cases ks) (auto simp: points_to_def)
  then show ?case by simp
next
  case (snoc r rs)
  have old: "\<exists>r'. points_to rs (off k) r' \<and> lr_key r' = k \<and> sz k = rec_len r'"
    if "k \<in> set ks" "k \<noteq> lr_key r \<or> off k \<noteq> log_len rs" for k
  proof -
    from that(1) snoc.prems(2) obtain r' where r': "points_to (rs @ [r]) (off k) r'" "lr_key r' = k" "sz k = rec_len r'" by blast
    from r'(1) obtain pre post where "rs @ [r] = pre @ r' # post" "off k = log_len pre" by (auto simp: points_to_def)
    with snoc_split [of rs r pre r' post] r'(2) that(2) have "points_to rs (off k) r'" by (auto simp: points_to_def)
    with r' show ?thesis by blast
  qed
  show ?case
  proof (cases "lr_key r \<in> set ks \<and> off (lr_key r) = log_len rs")
    case True
    let ?k = "lr_key r"
    from True have "?k \<in> set ks" "off ?k = log_len rs" by simp_all
    with snoc.prems(2) obtain r' where r': "points_to (rs @ [r]) (log_len rs) r'" "sz ?k = rec_len r'" by force
    from r'(1) obtain pre post where p: "rs @ [r] = pre @ r' # post" "log_len rs = log_len pre" by (auto simp: points_to_def)
    from snoc_split [OF p(1)] have "r' = r"
    proof
      assume "\<exists>post'. post = post' @ [r] \<and> rs = pre @ r' # post'"
      then show ?thesis using p(2) rec_len_16 [of r'] by (auto simp del: rec_len_16)
    qed simp
    then have "sz ?k = rec_len r" using r'(2) by simp
    moreover have "sum_list (map sz (remove1 ?k ks)) \<le> log_len rs"
    proof (rule snoc.IH)
      show "\<forall>k \<in> set (remove1 ?k ks). \<exists>r'. points_to rs (off k) r' \<and> lr_key r' = k \<and> sz k = rec_len r'"
        using old snoc.prems(1) by simp
    qed (use snoc.prems(1) in simp)
    moreover have "sum_list (map sz ks) = sz ?k + sum_list (map sz (remove1 ?k ks))" using True by (simp add: sum_list_map_remove1)
    ultimately show ?thesis by simp
  next
    case False
    then have "\<forall>k \<in> set ks. \<exists>r'. points_to rs (off k) r' \<and> lr_key r' = k \<and> sz k = rec_len r'" using old by blast
    then have "sum_list (map sz ks) \<le> log_len rs" by (rule snoc.IH [OF snoc.prems(1)])
    then show ?thesis by simp
  qed
qed

end
