(* ===== verification/TickvProofs.thy ===== *)
theory TickvProofs
  imports TickvLog
begin

text \<open>
  The operations of the store against the log: reads, appends, invalidations, scans, checkpoints and compaction, proved once for every flash that
  satisfies the contract \<open>flash_controller\<close>.
\<close>

section \<open>What the operations leave alone\<close>

definition kv_env :: "'f kv \<Rightarrow> bool \<times> bool \<times> string \<times> bool \<times> bool \<times> bool \<times> bool" where
  "kv_env s = (kv_ready s, kv_degraded s, kv_backend s, kv_hw_latched s, kv_compacting s, kv_gc_suspended s, kv_installed s)"

lemma kv_env_upd [simp]:
  "kv_env (s\<lparr>kv_flash := fl\<rparr>) = kv_env s" "kv_env (s\<lparr>kv_index := i\<rparr>) = kv_env s" "kv_env (s\<lparr>kv_append := a\<rparr>) = kv_env s"
  "kv_env (s\<lparr>kv_stats := st\<rparr>) = kv_env s" "kv_env (s\<lparr>kv_ckpt_dirty := d\<rparr>) = kv_env s"
  by (simp_all add: kv_env_def)

lemma counters [simp]:
  "kv_env (add_live n s) = kv_env s" "kv_env (add_dead n s) = kv_env s" "kv_env (add_corrupt s) = kv_env s"
  "kv_env (recompute_live_estimate s) = kv_env s"
  "kv_flash (add_live n s) = kv_flash s" "kv_flash (add_dead n s) = kv_flash s" "kv_flash (add_corrupt s) = kv_flash s"
  "kv_flash (recompute_live_estimate s) = kv_flash s"
  "kv_index (add_live n s) = kv_index s" "kv_index (add_dead n s) = kv_index s" "kv_index (add_corrupt s) = kv_index s"
  "kv_index (recompute_live_estimate s) = kv_index s"
  "kv_append (add_live n s) = kv_append s" "kv_append (add_dead n s) = kv_append s" "kv_append (add_corrupt s) = kv_append s"
  "kv_append (recompute_live_estimate s) = kv_append s"
  by (simp_all add: add_live_def add_dead_def add_corrupt_def recompute_live_estimate_def)

lemma kv_env_ready: "kv_env s' = kv_env s \<Longrightarrow> kv_ready s' = kv_ready s"
  by (simp add: kv_env_def)

lemma idx_for_entry:
  assumes "idx_for {} m rs" "k \<noteq> CKPT_KEY" "m k = Some off"
  obtains r where "points_to rs off r" "lr_key r = k" "log_index rs k = Some off \<or> \<not> lr_live r"
proof -
  from assms(1,3) have "entry_ok {} rs k off" unfolding idx_for_def by blast
  then show ?thesis using that assms(2) unfolding entry_ok_def by auto
qed

lemma idx_for_None: "idx_for T m rs \<Longrightarrow> k \<noteq> CKPT_KEY \<Longrightarrow> m k = None \<Longrightarrow> log_index rs k = None"
  unfolding idx_for_def by (metis option.exhaust option.distinct(1))

lemma idx_for_Some: "idx_for T m rs \<Longrightarrow> k \<noteq> CKPT_KEY \<Longrightarrow> log_index rs k = Some off \<Longrightarrow> m k = Some off"
  unfolding idx_for_def by blast

text \<open>The checkpoint a scan of the log ends with.\<close>

primrec ckpt_found :: "log_rec list \<Rightarrow> bytes option \<Rightarrow> bytes option" where
  "ckpt_found [] found = found"
| "ckpt_found (r # rs) found =
     ckpt_found rs (if lr_key r = CKPT_KEY \<and> 24 \<le> length (lr_val r) then Some (lr_val r) else found)"

lemma slice_key: "slice (log_len pre + 16) (length (lr_key r)) (log_bytes pre @ rec_bytes r @ rest) = lr_key r"
  by (simp add: slice_def rec_bytes_header)

lemma slice_val:
  "slice (log_len pre + 16 + length (lr_key r)) (length (lr_val r)) (log_bytes pre @ rec_bytes r @ rest) = lr_val r"
  by (simp add: slice_def rec_bytes_header)

context flash_controller
begin

definition holds :: "'f kv \<Rightarrow> bytes \<Rightarrow> bool" where
  "holds s bs \<longleftrightarrow> (\<exists>fl. kv_flash s = Some fl \<and> healthy fl \<and> contents fl = bs)"

lemma holds_read:
  assumes "holds s bs" "off + n \<le> length bs"
  obtains fl where "with_flash (fl_read ops off n) s = (Inr (slice off n bs), s\<lparr>kv_flash := Some fl\<rparr>)" "healthy fl" "contents fl = bs"
proof -
  from assms(1) obtain f where f: "kv_flash s = Some f" "healthy f" "contents f = bs" by (auto simp: holds_def)
  from assms(2) f(3) have "off + n \<le> length (contents f)" by simp
  from read_ok [OF f(2) this] obtain f' where
    f': "fl_read ops off n f = (Inr (slice off n (contents f)), f')" "contents f' = contents f" "healthy f'" by blast
  show ?thesis
    by (rule that [of f']) (simp_all add: with_flash_def f f')
qed

lemma holds_write:
  assumes "holds s bs" "off + length d \<le> length bs"
  obtains fl where "with_flash (fl_write ops off d) s = (Inr (), s\<lparr>kv_flash := Some fl\<rparr>)" "healthy fl" "contents fl = splice off d bs"
proof -
  from assms(1) obtain f where f: "kv_flash s = Some f" "healthy f" "contents f = bs" by (auto simp: holds_def)
  from assms(2) f(3) have "off + length d \<le> length (contents f)" by simp
  from write_ok [OF f(2) this] obtain f' where
    f': "fl_write ops off d f = (Inr (), f')" "contents f' = splice off d (contents f)" "healthy f'" by blast
  show ?thesis
    by (rule that [of f']) (simp_all add: with_flash_def f f')
qed

lemma holds_write_oob:
  assumes "holds s bs" "length bs < off + length d"
  shows "with_flash (fl_write ops off d) s = (Inl ''oob'', s)"
  using assms write_oob [of _ off d] by (auto simp: holds_def with_flash_def)

text \<open>
  The invariant.  The flash holds the log \<open>rs\<close> and then blank bytes, \<open>sz\<close> bytes in all; the store appends at the end of the log, and its index
  fits it.
\<close>

definition flash_log :: "'f kv \<Rightarrow> log_rec list \<Rightarrow> nat \<Rightarrow> bool" where
  "flash_log s rs sz \<longleftrightarrow> (\<exists>tail. holds s (log_bytes rs @ tail) \<and> blank tail \<and> log_len rs + length tail = sz) \<and> log_wf rs"

definition store_log :: "bytes set \<Rightarrow> 'f kv \<Rightarrow> log_rec list \<Rightarrow> nat \<Rightarrow> bool" where
  "store_log T s rs sz \<longleftrightarrow> flash_log s rs sz \<and> kv_append s = log_len rs \<and> bt_wf (kv_index s) \<and> idx_for T (bt_get (kv_index s)) rs"

lemma flash_log_cong: "kv_flash s' = kv_flash s \<Longrightarrow> flash_log s' rs sz = flash_log s rs sz"
  by (simp add: flash_log_def holds_def)

lemma store_log_cong:
  "kv_flash s' = kv_flash s \<Longrightarrow> kv_append s' = kv_append s \<Longrightarrow> kv_index s' = kv_index s \<Longrightarrow> store_log T s' rs sz = store_log T s rs sz"
  by (simp add: store_log_def flash_log_def holds_def)

lemma flash_log_flash:
  assumes "flash_log s rs sz" "healthy fl" "\<And>bs. holds s bs \<Longrightarrow> contents fl = bs"
  shows "flash_log (s\<lparr>kv_flash := Some fl\<rparr>) rs sz"
  using assms by (auto simp: flash_log_def holds_def)

section \<open>Reading\<close>

text \<open>What \<^verbatim>\<open>get\<close> answers for an entry of the index.\<close>

lemma get_points:
  assumes "flash_log s rs sz" "kv_ready s" "bt_get (kv_index s) k = Some off" "points_to rs off r"
  shows "\<exists>s'. tv_get ops k s = (if lr_live r then Inr (lr_val r) else Inl ''missing'', s') \<and> flash_log s' rs sz \<and> kv_append s' = kv_append s \<and>
    kv_env s' = kv_env s \<and> compactions (kv_stats s') = compactions (kv_stats s) \<and> kv_index s' = kv_index s"
proof -
  define t where "t = s\<lparr>kv_stats := (kv_stats s)\<lparr>gets := sat64 (gets (kv_stats s) + 1)\<rparr>\<rparr>"
  have t: "flash_log t rs sz" using assms(1) by (simp add: t_def flash_log_def holds_def)
  have env: "kv_env t = kv_env s" "compactions (kv_stats t) = compactions (kv_stats s)" "kv_index t = kv_index s" "kv_append t = kv_append s" by (simp_all add: t_def)
  from assms(4) obtain pre post where r: "rs = pre @ r # post" "off = log_len pre" by (auto simp: points_to_def)
  have ok: "rec_ok r" using t r(1) by (simp add: flash_log_def log_wf_def)
  from t obtain tail where h: "holds t (log_bytes rs @ tail)" "blank tail" "log_len rs + length tail = sz"
    by (auto simp: flash_log_def)
  have bs: "log_bytes rs @ tail = log_bytes pre @ rec_bytes r @ log_bytes post @ tail" by (simp add: r(1))
  have l: "off + HEADER \<le> length (log_bytes rs @ tail)" "off + HEADER + (length (lr_key r) + length (lr_val r)) \<le> length (log_bytes rs @ tail)"
    using rec_len_ge [of r] by (simp_all add: bs r(2) HEADER_def)
  from holds_read [OF h(1) l(1)] obtain fl where f: "with_flash (fl_read ops off HEADER) t = (Inr (rec_header r), t\<lparr>kv_flash := Some fl\<rparr>)"
    "healthy fl" "contents fl = log_bytes rs @ tail" unfolding bs r(2) HEADER_def slice_header by blast
  then have h': "holds (t\<lparr>kv_flash := Some fl\<rparr>) (log_bytes rs @ tail)" by (simp add: holds_def)
  from holds_read [OF h' l(2)] obtain fl' where
    f': "with_flash (fl_read ops (off + HEADER) (length (lr_key r) + length (lr_val r))) (t\<lparr>kv_flash := Some fl\<rparr>) =
      (Inr (lr_key r @ lr_val r), t\<lparr>kv_flash := Some fl'\<rparr>)" "healthy fl'" "contents fl' = log_bytes rs @ tail"
    unfolding bs r(2) HEADER_def slice_body by auto
  have st: "flash_log (t\<lparr>kv_flash := Some fl\<rparr>) rs sz" "flash_log (t\<lparr>kv_flash := Some fl'\<rparr>) rs sz"
    using t f(2,3) f'(2,3) h(2,3) by (auto simp: flash_log_def holds_def)
  have "tv_get ops k s = (if lr_live r then (Inr (lr_val r), t\<lparr>kv_flash := Some fl'\<rparr>) else (Inl ''missing'', t\<lparr>kv_flash := Some fl\<rparr>))"
    using assms(2,3) f(1) f'(1) ok unfolding tv_get_def Let_def t_def [symmetric] by (simp add: env(3) header_fields)
  then show ?thesis using st env by (cases "lr_live r") auto
qed

lemma get_entry:
  assumes "store_log T s rs sz" "kv_ready s" "bt_get (kv_index s) k = Some off" "points_to rs off r"
  shows "\<exists>s'. tv_get ops k s = (if lr_live r then Inr (lr_val r) else Inl ''missing'', s') \<and> store_log T s' rs sz \<and>
    kv_env s' = kv_env s \<and> compactions (kv_stats s') = compactions (kv_stats s) \<and> kv_index s' = kv_index s"
  using get_points [OF _ assms(2-4)] assms(1) unfolding store_log_def by metis

lemma get_absent:
  assumes "store_log T s rs sz" "kv_ready s" "bt_get (kv_index s) k = None"
  shows "\<exists>s'. tv_get ops k s = (Inl ''missing'', s') \<and> store_log T s' rs sz \<and>
    kv_env s' = kv_env s \<and> compactions (kv_stats s') = compactions (kv_stats s) \<and> kv_index s' = kv_index s"
  using assms by (auto simp: tv_get_def Let_def store_log_def flash_log_def holds_def)

lemma store_get:
  assumes "store_log {} s rs sz" "kv_ready s" "k \<noteq> CKPT_KEY"
  shows "\<exists>s'. tv_get ops k s = (case log_kv rs k of None \<Rightarrow> Inl ''missing'' | Some v \<Rightarrow> Inr v, s') \<and> store_log {} s' rs sz \<and> kv_env s' = kv_env s"
proof -
  have idx: "idx_for {} (bt_get (kv_index s)) rs" using assms(1) by (simp add: store_log_def)
  show ?thesis
  proof (cases "log_index rs k")
    case None
    then have kv: "log_kv rs k = None" by (simp add: log_index_kv)
    show ?thesis
    proof (cases "bt_get (kv_index s) k")
      case None
      from get_absent [OF assms(1,2) this] kv show ?thesis by auto
    next
      case (Some off)
      from idx_for_entry [OF idx assms(3) Some] obtain r where r: "points_to rs off r" "\<not> lr_live r"
        using \<open>log_index rs k = None\<close> by auto
      from get_entry [OF assms(1,2) Some r(1)] r(2) kv show ?thesis by auto
    qed
  next
    case (Some off)
    from log_index_record [OF Some] obtain r where r: "points_to rs off r" "lr_live r" "log_kv rs k = Some (lr_val r)" by blast
    from get_entry [OF assms(1,2) idx_for_Some [OF idx assms(3) Some] r(1)] r(2,3) show ?thesis by auto
  qed
qed

section \<open>Appending and invalidating\<close>

lemma store_put_raw:
  assumes "store_log T s rs sz" "rec_ok (LogRec True k v)" "log_index rs k = None \<or> k = CKPT_KEY"
    "log_len rs + record_size (length k) (length v) \<le> sz"
  shows "\<exists>s'. put_raw ops k v s = (Inr (), s') \<and> store_log (if v = [] then insert k T else T) s' (rs @ [LogRec True k v]) sz \<and>
    kv_env s' = kv_env s \<and> compactions (kv_stats s') = compactions (kv_stats s) \<and> kv_index s' = bt_insert k (kv_append s) (kv_index s)"
proof -
  from assms(1) obtain tail where h: "holds s (log_bytes rs @ tail)" "blank tail" "log_len rs + length tail = sz"
    and a: "kv_append s = log_len rs" "bt_wf (kv_index s)" "idx_for T (bt_get (kv_index s)) rs" "log_wf rs"
    by (auto simp: store_log_def flash_log_def)
  let ?rec = "encode_record k v" and ?r = "LogRec True k v"
  have len: "length ?rec \<le> length tail" using assms(4) h(3) by simp
  then have "kv_append s + length ?rec \<le> length (log_bytes rs @ tail)" using a(1) by simp
  from holds_write [OF h(1) this] obtain fl where f: "with_flash (fl_write ops (kv_append s) ?rec) s = (Inr (), s\<lparr>kv_flash := Some fl\<rparr>)"
    "healthy fl" "contents fl = log_bytes rs @ ?rec @ drop (length ?rec) tail"
    using splice_append [OF h(2) len, of rs] a(1) by auto
  have b: "rec_bytes ?r = ?rec" "rec_len ?r = record_size (length k) (length v)" by (simp_all add: rec_bytes_def rec_len_def)
  have tl: "blank (drop (length ?rec) tail)" using h(2) by (auto simp: blank_def dest: in_set_dropD)
  define s' where "s' = snd (put_raw ops k v s)"
  have p: "put_raw ops k v s = (Inr (), s')" "kv_flash s' = Some fl" "kv_index s' = bt_insert k (kv_append s) (kv_index s)"
    "kv_append s' = kv_append s + length ?rec" "kv_env s' = kv_env s" "compactions (kv_stats s') = compactions (kv_stats s)"
    unfolding s'_def put_raw_def Let_def f(1) by (auto simp: add_live_def add_dead_def)
  have "holds s' (log_bytes (rs @ [?r]) @ drop (length ?rec) tail)" using f(2,3) p(2) by (simp add: holds_def b)
  moreover have "log_len (rs @ [?r]) + length (drop (length ?rec) tail) = sz" using len h(3) by (simp add: b)
  ultimately have fl: "flash_log s' (rs @ [?r]) sz" unfolding flash_log_def using tl log_wf_snoc [OF a(4) assms(2,3)] by blast
  have "bt_get (kv_index s') = (bt_get (kv_index s))(k \<mapsto> log_len rs)" by (auto simp: p(3) a(1) fun_eq_iff)
  with idx_for_put [OF a(3), of v k] have "idx_for (if v = [] then insert k T else T) (bt_get (kv_index s')) (rs @ [?r])" by simp
  then have "store_log (if v = [] then insert k T else T) s' (rs @ [?r]) sz"
    unfolding store_log_def using fl p(3,4) a(1,2) by (simp add: b)
  with p(1,3,5,6) show ?thesis by blast
qed

lemma store_put_raw_oob:
  assumes "store_log T s rs sz" "sz < log_len rs + record_size (length k) (length v)"
  shows "put_raw ops k v s = (Inl ''oob'', s)"
proof -
  from assms(1) obtain tail where h: "holds s (log_bytes rs @ tail)" "log_len rs + length tail = sz" "kv_append s = log_len rs"
    by (auto simp: store_log_def flash_log_def)
  then have "length (log_bytes rs @ tail) < kv_append s + length (encode_record k v)" using assms(2) by simp
  from holds_write_oob [OF h(1) this] show ?thesis by (simp add: put_raw_def Let_def)
qed

text \<open>Clearing the fourth magic byte of the record an entry points to.\<close>

lemma invalidate_entry:
  assumes "store_log {} s (pre @ r # post) sz" "kv_ready s" "bt_get (kv_index s) k = Some (log_len pre)"
  shows "\<exists>s'. invalidate_key ops k s = (Inr (), s') \<and> kv_env s' = kv_env s \<and> compactions (kv_stats s') = compactions (kv_stats s) \<and>
    kv_index s' = bt_remove k (kv_index s) \<and> kv_append s' = kv_append s \<and>
    (\<exists>tail. holds s' (log_bytes (pre @ kill r # post) @ tail) \<and> blank tail \<and> log_len (pre @ r # post) + length tail = sz)"
proof -
  from assms(1) obtain tail where h: "holds s (log_bytes (pre @ r # post) @ tail)" "blank tail" "log_len (pre @ r # post) + length tail = sz"
    by (auto simp: store_log_def flash_log_def)
  have bs: "log_bytes (pre @ r # post) @ tail = log_bytes pre @ rec_bytes r @ log_bytes post @ tail" by simp
  have "splice (log_len pre + 3) [0] (log_bytes pre @ rec_bytes r @ log_bytes post @ tail) = log_bytes pre @ rec_bytes (kill r) @ log_bytes post @ tail"
    by (simp add: splice_def rec_bytes_eq)
  note kill = this
  have "log_len pre + 3 + length [0 :: u8] \<le> length (log_bytes (pre @ r # post) @ tail)" using rec_len_16 [of r] by (simp del: rec_len_16)
  from holds_write [OF h(1) this] obtain fl where
    f: "with_flash (fl_write ops (log_len pre + 3) [0]) s = (Inr (), s\<lparr>kv_flash := Some fl\<rparr>)" "healthy fl"
      "contents fl = log_bytes pre @ rec_bytes (kill r) @ log_bytes post @ tail"
    unfolding bs kill by blast
  define s' where "s' = add_dead 512 (s\<lparr>kv_flash := Some fl, kv_index := bt_remove k (kv_index s)\<rparr>)"
  have e: "invalidate_key ops k s = (Inr (), s')" using assms(2,3) f(1) by (simp add: invalidate_key_def s'_def)
  have "holds s' (log_bytes (pre @ kill r # post) @ tail)" using f by (simp add: s'_def holds_def)
  then show ?thesis using e h(2,3) by (intro exI [of _ s'] conjI exI [of _ tail]) (simp_all add: s'_def add_dead_def kv_env_def)
qed

lemma store_invalidate:
  assumes "store_log {} s rs sz" "ckpt_ok rs" "kv_ready s" "k \<noteq> CKPT_KEY" "bt_contains (kv_index s) k"
  shows "\<exists>s' rs'. invalidate_key ops k s = (Inr (), s') \<and> store_log {} s' rs' sz \<and> ckpt_ok rs' \<and> log_kv rs' = (log_kv rs)(k := None) \<and>
    log_len rs' = log_len rs \<and> kv_env s' = kv_env s \<and> compactions (kv_stats s') = compactions (kv_stats s)"
proof -
  have idx: "idx_for {} (bt_get (kv_index s)) rs" and a: "bt_wf (kv_index s)" "log_wf rs" "kv_append s = log_len rs"
    using assms(1) by (simp_all add: store_log_def flash_log_def)
  from assms(5) obtain off where off: "bt_get (kv_index s) k = Some off" by (auto simp: bt_contains_def)
  obtain r where r: "points_to rs off r" "lr_key r = k" "lr_live r \<and> lr_val r \<noteq> [] \<or> \<not> lr_live r \<and> log_index rs k = None"
  proof (cases "log_index rs k")
    case None
    with idx_for_entry [OF idx assms(4) off] that show ?thesis by auto
  next
    case (Some off')
    then have "off' = off" using idx_for_Some [OF idx assms(4)] off by simp
    with log_index_record [OF Some] that show ?thesis by blast
  qed
  from r(1) obtain pre post where rs: "rs = pre @ r # post" "off = log_len pre" by (auto simp: points_to_def)
  from invalidate_entry [of s pre r post sz k] assms(1,3) off obtain s' tail where
    s': "invalidate_key ops k s = (Inr (), s')" "kv_env s' = kv_env s" "compactions (kv_stats s') = compactions (kv_stats s)"
      "kv_index s' = bt_remove k (kv_index s)" "kv_append s' = kv_append s"
      "holds s' (log_bytes (pre @ kill r # post) @ tail)" "blank tail" "log_len (pre @ r # post) + length tail = sz"
    unfolding rs by blast
  have m: "bt_get (kv_index s') = (bt_get (kv_index s))(k := None)" by (auto simp: s'(4) fun_eq_iff)
  let ?rs' = "pre @ kill r # post"
  have key: "lr_key r \<noteq> CKPT_KEY" using r(2) assms(4) by simp
  have "log_kv ?rs' = (log_kv rs)(k := None) \<and> log_index ?rs' k = None \<and> idx_for {} (bt_get (kv_index s)) ?rs' \<and> ckpt_ok ?rs'"
  proof (cases "lr_live r \<and> lr_val r \<noteq> []")
    case True
    then have "lr_live r" "lr_val r \<noteq> []" by simp_all
    note l = this key
    from a(2) idx assms(2) show ?thesis unfolding rs(1)
      using log_kill [OF _ l] idx_for_kill [OF _ _ l] ckpt_ok_kill [OF _ _ l] r(2) by simp
  next
    case False
    then have d: "\<not> lr_live r" "log_index rs k = None" using r(3) by blast+
    then have "kill r = r" by (cases r) (simp add: kill_def)
    moreover have "log_kv rs k = None" using d(2) log_index_kv by simp
    ultimately show ?thesis using d(2) idx assms(2) unfolding rs(1) by (simp add: fun_upd_idem)
  qed
  then have n: "log_kv ?rs' = (log_kv rs)(k := None)" "log_index ?rs' k = None" "idx_for {} (bt_get (kv_index s)) ?rs'" "ckpt_ok ?rs'"
    by simp_all
  from idx_for_remove [OF n(3), of k] n(2) have "idx_for {} (bt_get (kv_index s')) ?rs'" by (simp add: m)
  moreover have "log_wf ?rs'" using log_wf_kill key a(2) unfolding rs(1) by blast
  ultimately have "store_log {} s' ?rs' sz"
    using s'(6-8) a(1,3) by (auto simp: store_log_def flash_log_def s'(4,5) rs(1))
  with n(1,4) s'(1-3) show ?thesis by (intro exI [of _ s'] exI [of _ ?rs']) (simp add: rs(1))
qed

section \<open>Scanning\<close>

lemma blank_not_shaped: "blank bs \<Longrightarrow> \<not> hdr_tickv_shaped (slice off n bs)"
proof
  let ?h = "slice off n bs"
  assume b: "blank bs" and "hdr_tickv_shaped ?h"
  then have l: "4 \<le> length ?h" and p: "slice 0 3 ?h = MAGIC_PREFIX"
    by (auto simp: hdr_tickv_shaped_def hdr_valid_def hdr_invalidated_def)
  have "?h ! 0 = slice 0 3 ?h ! 0" by (simp add: slice_def [of 0])
  also have "\<dots> = of_char CHR ''T''" unfolding p by (simp add: MAGIC_PREFIX_def bstr_def)
  finally have "?h ! 0 = of_char CHR ''T''" .
  moreover have "?h ! 0 \<in> set ?h" using l by (intro nth_mem) linarith
  moreover have "set ?h \<subseteq> set bs" by (auto simp: slice_def dest: in_set_takeD in_set_dropD)
  ultimately show False using b by (force simp: blank_def)
qed

lemma slice_tail: "slice (log_len pre) n (log_bytes pre @ tail) = slice 0 n tail"
  by (simp add: slice_def)

lemma scan_stops:
  assumes "holds s (log_bytes pre @ tail)" "blank tail" "log_len pre + length tail = sz" "\<not> mount_scan_expired dl (now (log_len pre))"
  shows "\<exists>fl. scan_range_loop ops dl now sz (log_len pre) s = (Inr (log_len pre), s\<lparr>kv_flash := Some fl\<rparr>) \<and>
    healthy fl \<and> contents fl = log_bytes pre @ tail"
proof (cases "log_len pre + HEADER \<le> sz")
  case True
  then have "log_len pre + HEADER \<le> length (log_bytes pre @ tail)" using assms(3) by simp
  from holds_read [OF assms(1) this] obtain fl where
    f: "with_flash (fl_read ops (log_len pre) HEADER) s = (Inr (slice 0 HEADER tail), s\<lparr>kv_flash := Some fl\<rparr>)" "healthy fl"
      "contents fl = log_bytes pre @ tail" unfolding slice_tail by blast
  have "hdr_blank (slice 0 HEADER tail)" using assms(2) by (auto simp: hdr_blank_def blank_def slice_def dest: in_set_takeD)
  then show ?thesis using True f assms(4) blank_not_shaped [OF assms(2)] by (intro exI [of _ fl], subst scan_range_loop.simps) (simp add: Let_def)
next
  case False
  from assms(1) obtain fl where "kv_flash s = Some fl" "healthy fl" "contents fl = log_bytes pre @ tail" by (auto simp: holds_def)
  then show ?thesis using False by (intro exI [of _ fl], subst scan_range_loop.simps) simp
qed

text \<open>One record of the log: an invalidated one is skipped, a live one is indexed.\<close>

lemma scan_step:
  assumes "holds s bs" "bs = log_bytes pre @ rec_bytes r @ rest" "rec_ok r" "length bs = sz" "\<forall>off. \<not> mount_scan_expired dl (now off)"
    "bt_wf (kv_index s)"
  shows "\<exists>s'. scan_range_loop ops dl now sz (log_len pre) s = scan_range_loop ops dl now sz (log_len (pre @ [r])) s' \<and>
    holds s' bs \<and> kv_env s' = kv_env s \<and> kv_ckpt_dirty s' = kv_ckpt_dirty s \<and> bt_wf (kv_index s') \<and>
    compactions (kv_stats s') = compactions (kv_stats s) \<and>
    bt_get (kv_index s') = log_index_from (log_len pre) [r] (bt_get (kv_index s))"
proof -
  have l: "log_len pre + HEADER \<le> length bs" "log_len pre + HEADER + (length (lr_key r) + length (lr_val r)) \<le> length bs" "log_len pre + rec_len r \<le> sz"
    using rec_len_ge [of r] assms(4) by (simp_all add: assms(2) HEADER_def)
  from holds_read [OF assms(1) l(1)] obtain fl where
    f: "with_flash (fl_read ops (log_len pre) HEADER) s = (Inr (rec_header r), s\<lparr>kv_flash := Some fl\<rparr>)" "healthy fl" "contents fl = bs"
    unfolding assms(2) HEADER_def slice_header by blast
  let ?t = "s\<lparr>kv_flash := Some fl\<rparr>"
  have len: "record_size (length (lr_key r)) (length (lr_val r)) = rec_len r" by (simp add: rec_len_def)
  have lim: "length (lr_key r) \<le> MAX_KLEN" "length (lr_val r) \<le> MAX_VLEN" using assms(3) by (simp_all add: rec_ok_def)
  have ht: "holds ?t bs" using f by (simp add: holds_def)
  show ?thesis
  proof (cases "lr_live r")
    case False
    have "scan_range_loop ops dl now sz (log_len pre) s = scan_range_loop ops dl now sz (log_len (pre @ [r])) (add_dead (rec_len r) ?t)"
      using l lim assms(3-5) f(1) False
      by (subst scan_range_loop.simps) (simp add: Let_def header_fields len add.assoc)
    moreover have "holds (add_dead (rec_len r) ?t) bs" using ht by (simp add: holds_def)
    ultimately show ?thesis using False assms(6) by (intro exI [of _ "add_dead (rec_len r) ?t"]) (simp add: add_dead_def kv_env_def)
  next
    case True
    from holds_read [OF ht l(2)] obtain fl' where
      f': "with_flash (fl_read ops (log_len pre + HEADER) (length (lr_key r) + length (lr_val r))) ?t =
          (Inr (lr_key r @ lr_val r), s\<lparr>kv_flash := Some fl'\<rparr>)" "healthy fl'" "contents fl' = bs"
      unfolding assms(2) HEADER_def slice_body by auto
    let ?u = "s\<lparr>kv_flash := Some fl'\<rparr>"
    let ?s' = "scan_apply (lr_key r) (lr_val r) (log_len pre) (rec_len r) ?u"
    have "scan_range_loop ops dl now sz (log_len pre) s = scan_range_loop ops dl now sz (log_len (pre @ [r])) ?s'"
      using l lim assms(3-5) f(1) f'(1) True
      by (subst scan_range_loop.simps) (simp add: Let_def header_fields len add.assoc)
    moreover have "holds ?s' bs" "kv_env ?s' = kv_env s" "kv_ckpt_dirty ?s' = kv_ckpt_dirty s" "bt_wf (kv_index ?s')"
      "compactions (kv_stats ?s') = compactions (kv_stats s)"
      using f'(2,3) assms(6) by (auto simp: scan_apply_def holds_def add_corrupt_def add_dead_def add_live_def kv_env_def)
    moreover have "bt_get (kv_index ?s') = log_index_from (log_len pre) [r] (bt_get (kv_index s))"
      using True assms(3) by (auto simp: scan_apply_def rec_ok_def fun_eq_iff bt_contains_def)
    ultimately show ?thesis by blast
  qed
qed

lemma scan_log:
  assumes "holds s (log_bytes (pre @ rs) @ tail)" "blank tail" "log_len (pre @ rs) + length tail = sz" "\<forall>r \<in> set rs. rec_ok r"
    "\<forall>off. \<not> mount_scan_expired dl (now off)" "bt_wf (kv_index s)"
  shows "\<exists>s'. scan_range_loop ops dl now sz (log_len pre) s = (Inr (log_len (pre @ rs)), s') \<and> holds s' (log_bytes (pre @ rs) @ tail) \<and>
    kv_env s' = kv_env s \<and> kv_ckpt_dirty s' = kv_ckpt_dirty s \<and> bt_wf (kv_index s') \<and> compactions (kv_stats s') = compactions (kv_stats s) \<and>
    bt_get (kv_index s') = log_index_from (log_len pre) rs (bt_get (kv_index s))"
  using assms
proof (induction rs arbitrary: pre s)
  case Nil
  from scan_stops [of s pre tail sz dl now] Nil.prems obtain fl where
    "scan_range_loop ops dl now sz (log_len pre) s = (Inr (log_len pre), s\<lparr>kv_flash := Some fl\<rparr>)" "healthy fl" "contents fl = log_bytes pre @ tail"
    by auto
  then show ?case using Nil.prems(6) by (simp add: holds_def)
next
  case (Cons r rs)
  let ?bs = "log_bytes (pre @ r # rs) @ tail"
  have "?bs = log_bytes pre @ rec_bytes r @ log_bytes rs @ tail" "rec_ok r" "length ?bs = sz" using Cons.prems by simp_all
  from scan_step [OF Cons.prems(1) this Cons.prems(5,6)] obtain s1 where
    s1: "scan_range_loop ops dl now sz (log_len pre) s = scan_range_loop ops dl now sz (log_len (pre @ [r])) s1" "holds s1 ?bs"
      "kv_env s1 = kv_env s" "kv_ckpt_dirty s1 = kv_ckpt_dirty s" "bt_wf (kv_index s1)" "compactions (kv_stats s1) = compactions (kv_stats s)"
      "bt_get (kv_index s1) = log_index_from (log_len pre) [r] (bt_get (kv_index s))" by blast
  have "holds s1 (log_bytes ((pre @ [r]) @ rs) @ tail)" "log_len ((pre @ [r]) @ rs) + length tail = sz" "\<forall>r \<in> set rs. rec_ok r"
    using s1(2) Cons.prems(3,4) by simp_all
  from Cons.IH [OF this(1) Cons.prems(2) this(2,3) Cons.prems(5) s1(5)] obtain s2 where
    s2: "scan_range_loop ops dl now sz (log_len (pre @ [r])) s1 = (Inr (log_len ((pre @ [r]) @ rs)), s2)" "holds s2 (log_bytes ((pre @ [r]) @ rs) @ tail)"
      "kv_env s2 = kv_env s1" "kv_ckpt_dirty s2 = kv_ckpt_dirty s1" "bt_wf (kv_index s2)" "compactions (kv_stats s2) = compactions (kv_stats s1)"
      "bt_get (kv_index s2) = log_index_from (log_len (pre @ [r])) rs (bt_get (kv_index s1))" by blast
  show ?case using s1 s2 by (intro exI [of _ s2]) simp
qed

text \<open>A full scan rebuilds the index, whatever the store knew before.\<close>

lemma scan_range_log:
  assumes "flash_log s (pre @ rs) sz" "\<not> kv_degraded s" "\<forall>off. \<not> mount_scan_expired dl (now off)" "bt_wf (kv_index s)" "keep \<or> pre = []"
  shows "\<exists>s'. scan_range ops (log_len pre) keep dl now s = (Inr (), s') \<and> flash_log s' (pre @ rs) sz \<and> kv_env s' = kv_env s \<and>
    kv_append s' = log_len (pre @ rs) \<and> bt_wf (kv_index s') \<and>
    bt_get (kv_index s') = log_index_from (log_len pre) rs (if keep then bt_get (kv_index s) else Map.empty)"
proof -
  define s0 where "s0 = (if keep then s
    else s\<lparr>kv_index := [], kv_append := 0, kv_stats := (kv_stats s)\<lparr>live_bytes := 0, dead_bytes := 0\<rparr>\<rparr>)"
  have f0: "kv_flash s0 = kv_flash s" "kv_env s0 = kv_env s" "bt_wf (kv_index s0)"
    "bt_get (kv_index s0) = (if keep then bt_get (kv_index s) else Map.empty)"
    using assms(4) by (auto simp: s0_def fun_eq_iff)
  from assms(1) obtain tail fl where h: "kv_flash s = Some fl" "healthy fl" "contents fl = log_bytes (pre @ rs) @ tail" "blank tail"
    "log_len (pre @ rs) + length tail = sz" and wf: "log_wf (pre @ rs)" by (auto simp: flash_log_def holds_def)
  have sz: "fl_size ops fl = sz" using size_contents [OF h(2)] h(3,5) by simp
  have "holds s0 (log_bytes (pre @ rs) @ tail)" using h(1-3) f0(1) by (simp add: holds_def)
  moreover have "\<forall>r \<in> set rs. rec_ok r" using wf by (simp add: log_wf_def)
  ultimately obtain s1 where s1: "scan_range_loop ops dl now sz (log_len pre) s0 = (Inr (log_len (pre @ rs)), s1)"
    "holds s1 (log_bytes (pre @ rs) @ tail)" "kv_env s1 = kv_env s0" "bt_wf (kv_index s1)"
    "bt_get (kv_index s1) = log_index_from (log_len pre) rs (bt_get (kv_index s0))"
    using scan_log [OF _ h(4,5) _ assms(3) f0(3)] by blast
  have "\<not> kv_degraded s1" using s1(3) f0(2) assms(2) by (simp add: kv_env_def)
  then have "scan_range ops (log_len pre) keep dl now s = (Inr (), recompute_live_estimate (s1\<lparr>kv_append := log_len (pre @ rs)\<rparr>))"
    unfolding scan_range_def s0_def [symmetric] Let_def f0(1) h(1) using s1(1) sz by simp
  moreover have "flash_log (recompute_live_estimate (s1\<lparr>kv_append := log_len (pre @ rs)\<rparr>)) (pre @ rs) sz"
    using s1(2) h(4,5) wf by (auto simp: flash_log_def holds_def)
  ultimately show ?thesis using s1(3-5) f0(2,4) by simp
qed

lemma recover_log:
  assumes "flash_log s rs sz" "\<not> kv_degraded s" "\<forall>off. \<not> mount_scan_expired dl (now off)" 
  shows "\<exists>s'. recover ops dl now s = (Inr (), s') \<and> store_log {} s' rs sz \<and> kv_env s' = kv_env s \<and> bt_get (kv_index s') = log_index rs"
proof -
  let ?s = "s\<lparr>kv_index := []\<rparr>"
  have "flash_log ?s ([] @ rs) sz" "\<not> kv_degraded ?s" using assms by (simp_all add: flash_log_def holds_def)
  from scan_range_log [OF this assms(3), of False] obtain s' where
    s': "scan_range ops (log_len []) False dl now ?s = (Inr (), s')" "flash_log s' ([] @ rs) sz" "kv_env s' = kv_env ?s"
      "kv_append s' = log_len ([] @ rs)" "bt_wf (kv_index s')" "bt_get (kv_index s') = log_index_from (log_len []) rs Map.empty" by auto
  have "recover ops dl now s = (Inr (), s')" using s'(1) by (simp add: recover_def scan_range_def)
  moreover have "idx_for {} (bt_get (kv_index s')) rs" using idx_for_log s'(2,6) by (simp add: flash_log_def)
  ultimately show ?thesis using s' by (simp add: store_log_def)
qed

section \<open>Checkpoints\<close>

lemma ckpt_scan_stops:
  assumes "holds s (log_bytes pre @ tail)" "blank tail" "log_len pre + length tail = sz" "\<forall>off. \<not> mount_scan_expired dl (now off)"
  shows "\<exists>fl. ckpt_scan ops dl now sz (log_len pre) found s = (Inr found, s\<lparr>kv_flash := Some fl\<rparr>) \<and>
    healthy fl \<and> contents fl = log_bytes pre @ tail"
proof (cases "log_len pre + HEADER \<le> sz")
  case True
  then have "log_len pre + HEADER \<le> length (log_bytes pre @ tail)" using assms(3) by simp
  from holds_read [OF assms(1) this] obtain fl where
    f: "with_flash (fl_read ops (log_len pre) HEADER) s = (Inr (slice 0 HEADER tail), s\<lparr>kv_flash := Some fl\<rparr>)" "healthy fl"
      "contents fl = log_bytes pre @ tail" unfolding slice_tail by blast
  have "hdr_blank (slice 0 HEADER tail)" using assms(2) by (auto simp: hdr_blank_def blank_def slice_def dest: in_set_takeD)
  then show ?thesis using True f assms(4) blank_not_shaped [OF assms(2)] by (intro exI [of _ fl], subst ckpt_scan.simps) (simp add: Let_def)
next
  case False
  from assms(1) obtain fl where "kv_flash s = Some fl" "healthy fl" "contents fl = log_bytes pre @ tail" by (auto simp: holds_def)
  then show ?thesis using False by (intro exI [of _ fl], subst ckpt_scan.simps) simp
qed

lemma ckpt_scan_step:
  assumes "holds s bs" "bs = log_bytes pre @ rec_bytes r @ rest" "rec_ok r" "length bs = sz" "\<forall>off. \<not> mount_scan_expired dl (now off)"
  shows "\<exists>fl. ckpt_scan ops dl now sz (log_len pre) found s =
      ckpt_scan ops dl now sz (log_len (pre @ [r])) (ckpt_found [r] found) (s\<lparr>kv_flash := Some fl\<rparr>) \<and> healthy fl \<and> contents fl = bs"
proof -
  have l: "log_len pre + HEADER \<le> length bs" "log_len pre + HEADER + length (lr_key r) \<le> length bs"
    "log_len pre + HEADER + length (lr_key r) + length (lr_val r) \<le> length bs" "log_len pre + rec_len r \<le> sz"
    using rec_len_ge [of r] assms(4) by (simp_all add: assms(2) HEADER_def)
  from holds_read [OF assms(1) l(1)] obtain fl where
    f: "with_flash (fl_read ops (log_len pre) HEADER) s = (Inr (rec_header r), s\<lparr>kv_flash := Some fl\<rparr>)" "healthy fl" "contents fl = bs"
    unfolding assms(2) HEADER_def slice_header by blast
  then have "holds (s\<lparr>kv_flash := Some fl\<rparr>) bs" by (simp add: holds_def)
  from holds_read [OF this l(2)] obtain fl1 where
    f1: "with_flash (fl_read ops (log_len pre + HEADER) (length (lr_key r))) (s\<lparr>kv_flash := Some fl\<rparr>) = (Inr (lr_key r), s\<lparr>kv_flash := Some fl1\<rparr>)"
      "healthy fl1" "contents fl1 = bs" unfolding assms(2) HEADER_def slice_key by auto
  then have "holds (s\<lparr>kv_flash := Some fl1\<rparr>) bs" by (simp add: holds_def)
  from holds_read [OF this l(3)] obtain fl2 where
    f2: "with_flash (fl_read ops (log_len pre + HEADER + length (lr_key r)) (length (lr_val r))) (s\<lparr>kv_flash := Some fl1\<rparr>) =
        (Inr (lr_val r), s\<lparr>kv_flash := Some fl2\<rparr>)"
      "healthy fl2" "contents fl2 = bs" unfolding assms(2) HEADER_def slice_val by auto
  have len: "record_size (length (lr_key r)) (length (lr_val r)) = rec_len r" by (simp add: rec_len_def)
  have lim: "length (lr_key r) \<le> MAX_KLEN" "length (lr_val r) \<le> MAX_VLEN" using assms(3) by (simp_all add: rec_ok_def)
  let ?c = "lr_key r = CKPT_KEY \<and> 24 \<le> length (lr_val r)"
  let ?fl = "if ?c then fl2 else fl1"
  have "ckpt_scan ops dl now sz (log_len pre) found s =
      ckpt_scan ops dl now sz (log_len (pre @ [r])) (ckpt_found [r] found) (s\<lparr>kv_flash := Some ?fl\<rparr>)"
  proof (cases ?c)
    case True
    then have "record_size (length CKPT_KEY) (length (lr_val r)) = rec_len r" by (simp add: rec_len_def)
    then show ?thesis using True l lim assms(3-5) f(1) f1(1) f2(1)
      by (subst ckpt_scan.simps) (simp add: Let_def header_fields len add.assoc)
  next
    case False
    then show ?thesis using l lim assms(3-5) f(1) f1(1)
      by (subst ckpt_scan.simps) (auto simp: Let_def header_fields len add.assoc)
  qed
  then show ?thesis using f1(2,3) f2(2,3) by (intro exI [of _ ?fl]) simp
qed

lemma ckpt_scan_log:
  assumes "holds s (log_bytes (pre @ rs) @ tail)" "blank tail" "log_len (pre @ rs) + length tail = sz" "\<forall>r \<in> set rs. rec_ok r"
    "\<forall>off. \<not> mount_scan_expired dl (now off)"
  shows "\<exists>fl. ckpt_scan ops dl now sz (log_len pre) found s = (Inr (ckpt_found rs found), s\<lparr>kv_flash := Some fl\<rparr>) \<and>
    healthy fl \<and> contents fl = log_bytes (pre @ rs) @ tail"
  using assms
proof (induction rs arbitrary: pre s found)
  case Nil
  then show ?case using ckpt_scan_stops [of s pre tail sz dl now found] by simp
next
  case (Cons r rs)
  let ?bs = "log_bytes (pre @ r # rs) @ tail"
  have "?bs = log_bytes pre @ rec_bytes r @ log_bytes rs @ tail" "rec_ok r" "length ?bs = sz" using Cons.prems by simp_all
  from ckpt_scan_step [OF Cons.prems(1) this Cons.prems(5)] obtain fl where
    f: "ckpt_scan ops dl now sz (log_len pre) found s =
      ckpt_scan ops dl now sz (log_len (pre @ [r])) (ckpt_found [r] found) (s\<lparr>kv_flash := Some fl\<rparr>)" "healthy fl" "contents fl = ?bs" by blast
  have "holds (s\<lparr>kv_flash := Some fl\<rparr>) (log_bytes ((pre @ [r]) @ rs) @ tail)" "log_len ((pre @ [r]) @ rs) + length tail = sz" "\<forall>r \<in> set rs. rec_ok r"
    using f(2,3) Cons.prems(3,4) by (simp_all add: holds_def)
  from Cons.IH [OF this(1) Cons.prems(2) this(2,3) Cons.prems(5)] f(1) show ?case by simp
qed

end

end
