(* ===== verification/TickvCkpt.thy ===== *)
theory TickvCkpt
  imports TickvProofs
begin

text \<open>
  Checkpoints and mounting: a checkpoint record reads back as the index it was written from, and mounting (from the last checkpoint and the
  records after it, or by a full scan) ends with an index that fits the log.
\<close>

section \<open>The encoding of a checkpoint\<close>

definition entries_ok :: "(bytes, nat) btree \<Rightarrow> bool" where
  "entries_ok es \<longleftrightarrow> bt_wf es \<and> (\<forall>(k, off) \<in> set es. from_utf8 k \<and> length k \<le> MAX_KLEN \<and> off < 2 ^ 64) \<and> length es < 2 ^ 32"

lemma bt_insert_last: "\<forall>p \<in> set es. fst p < k \<Longrightarrow> bt_insert k v es = es @ [(k, v)]"
proof (induction es)
  case (Cons p es)
  then show ?case by (cases p) (auto simp: less_le_not_le)
qed simp

lemma ckpt_entry_eq: "length k \<le> MAX_KLEN \<Longrightarrow> ckpt_entry (k, off) = le_bytes 2 (length k) @ k @ le_bytes 8 off"
  by (simp add: ckpt_entry_def MAX_KLEN_def)

lemma ckpt_entries_read:
  assumes "bt_wf (es0 @ es)" "\<forall>(k, off) \<in> set es. from_utf8 k \<and> length k \<le> MAX_KLEN \<and> off < 2 ^ 64"
    "val = front @ concat (map ckpt_entry es)"
  shows "ckpt_entries (length es) val (length front) es0 = (None, es0 @ es)"
  using assms
proof (induction es arbitrary: es0 front)
  case (Cons e es)
  obtain k off where e: "e = (k, off)" by (cases e)
  have k: "from_utf8 k" "length k \<le> MAX_KLEN" "off < 2 ^ 64" using Cons.prems(2) e by auto
  let ?front = "front @ le_bytes 2 (length k) @ k @ le_bytes 8 off"
  have val: "val = front @ le_bytes 2 (length k) @ k @ le_bytes 8 off @ concat (map ckpt_entry es)" "val = ?front @ concat (map ckpt_entry es)"
    using Cons.prems(3) k(2) by (simp_all add: e ckpt_entry_eq)
  have kl: "le_nat (slice (length front) 2 val) = length k"
    using k(2) unfolding val(1) by (simp add: slice_def le_nat_le_bytes MAX_KLEN_def)
  have key: "slice (length front + 2) (length k) val = k" unfolding val(1) by (simp add: slice_def)
  have o: "le_nat (slice (length front + 2 + length k) 8 val) = off"
    using k(3) unfolding val(1) by (simp add: slice_def le_nat_le_bytes)
  have len: "length front + 2 + length k + 8 \<le> length val" unfolding val(1) by simp
  have ins: "bt_insert k off es0 = es0 @ [(k, off)]"
    using Cons.prems(1) by (intro bt_insert_last) (auto simp: bt_wf_def sorted_wrt_append e)
  have IH: "ckpt_entries (length es) val (length ?front) (es0 @ [(k, off)]) = (None, (es0 @ [(k, off)]) @ es)"
    using Cons.prems(1,2) val(2) e by (intro Cons.IH) simp_all
  have "ckpt_entries (length (e # es)) val (length front) es0 = ckpt_entries (length es) val (length ?front) (es0 @ [(k, off)])"
  proof -
    have "\<not> length front + 2 > length val" "\<not> length front + 2 + length k + 8 > length val" using len by simp_all
    moreover have "length ?front = length front + 2 + length k + 8" by simp
    ultimately show ?thesis using k(1) unfolding length_Cons ckpt_entries.simps Let_def kl key o ins by (simp only: if_False simp_thms)
  qed
  then show ?case unfolding IH e by simp
qed simp

lemma length_ckpt_body: "entries_ok es \<Longrightarrow> length (ckpt_body app es) = 24 + sum_list (map (\<lambda>(k, off). 10 + length k) es)"
proof -
  assume "entries_ok es"
  then have "map (length \<circ> ckpt_entry) es = map (\<lambda>(k, off). 10 + length k) es"
    by (auto simp: entries_ok_def ckpt_entry_eq)
  then have "sum_list (map (length \<circ> ckpt_entry) es) = sum_list (map (\<lambda>(k, off). 10 + length k) es)" by (rule arg_cong)
  then show ?thesis by (simp add: ckpt_body_def length_concat)
qed

lemma ckpt_body_fields:
  assumes "entries_ok es" "app < 2 ^ 64"
  shows "24 \<le> length (ckpt_body app es)" "slice 0 4 (ckpt_body app es) = bstr ''TKCK''" "le_nat (slice 4 8 (ckpt_body app es)) = app"
    "le_nat (slice 12 8 (ckpt_body app es)) = unat (index_fnv es)" "le_nat (slice 20 4 (ckpt_body app es)) = length es"
proof -
  have u: "unat (index_fnv es) < 2 ^ 64" using unsigned_less [of "index_fnv es"] by simp
  show "24 \<le> length (ckpt_body app es)" "slice 0 4 (ckpt_body app es) = bstr ''TKCK''"
    by (simp_all add: ckpt_body_def slice_def)
  show "le_nat (slice 4 8 (ckpt_body app es)) = app" "le_nat (slice 12 8 (ckpt_body app es)) = unat (index_fnv es)"
    "le_nat (slice 20 4 (ckpt_body app es)) = length es"
    using assms u by (simp_all add: ckpt_body_def slice_def le_nat_le_bytes entries_ok_def)
qed

lemma ckpt_body_entries:
  assumes "entries_ok es"
  shows "ckpt_entries (length es) (ckpt_body app es) 24 [] = (None, es)"
proof -
  let ?front = "bstr ''TKCK'' @ le_bytes 8 app @ le_bytes 8 (unat (index_fnv es)) @ le_bytes 4 (length es)"
  have "ckpt_body app es = ?front @ concat (map ckpt_entry es)" by (simp add: ckpt_body_def)
  moreover have "length ?front = 24" by simp
  ultimately show ?thesis
    using ckpt_entries_read [of "[]" es "ckpt_body app es" ?front] assms by (simp add: entries_ok_def)
qed

section \<open>Restoring an index\<close>

lemma points_to_fun:
  assumes "points_to rs off r" "points_to rs off r'"
  shows "r = r'"
proof -
  from assms obtain xs ys xs' ys' where x: "rs = xs @ r # ys" "rs = xs' @ r' # ys'" "log_len xs = log_len xs'"
    unfolding points_to_def by metis
  from x(1,2) have "xs @ r # ys = xs' @ r' # ys'" by simp
  then consider "xs = xs'" "r = r'" | us where "xs = xs' @ r' # us" | us where "xs' = xs @ r # us"
    by (auto simp: append_eq_append_conv2 append_eq_Cons_conv Cons_eq_append_conv)
  then show ?thesis
  proof cases
    case 2
    then show ?thesis using x(3) rec_len_16 [of r'] by (simp del: rec_len_16)
  next
    case 3
    then show ?thesis using x(3) rec_len_16 [of r] by (simp del: rec_len_16)
  qed
qed

lemma points_to_mem: "points_to rs off r \<Longrightarrow> r \<in> set rs"
  by (auto simp: points_to_def)

lemma idx_for_points:
  assumes "idx_for T m rs" "m k = Some off"
  obtains r where "points_to rs off r" "lr_key r = k"
  using assms unfolding idx_for_def entry_ok_def by blast

lemma sum_list_ge: "\<forall>x \<in> set xs. c \<le> f x \<Longrightarrow> c * length xs \<le> sum_list (map f xs)" for c :: nat
  by (induction xs) auto

text \<open>The records an index refers to fit into the log.\<close>

lemma idx_for_size:
  assumes "idx_for T (bt_get es) rs" "bt_wf es" "\<And>k off r. bt_get es k = Some off \<Longrightarrow> points_to rs off r \<Longrightarrow> lr_key r = k \<Longrightarrow> f k \<le> rec_len r"
  shows "sum_list (map f (bt_keys es)) \<le> log_len rs"
proof -
  define off where "off k = the (bt_get es k)" for k
  define g where "g k = rec_len (SOME r. points_to rs (off k) r \<and> lr_key r = k)" for k
  have *: "\<exists>r. points_to rs (off k) r \<and> lr_key r = k \<and> g k = rec_len r \<and> f k \<le> g k" if "k \<in> set (bt_keys es)" for k
  proof -
    from that have e: "bt_get es k = Some (off k)" by (auto simp: set_bt_keys off_def)
    from idx_for_points [OF assms(1) e] have "\<exists>r. points_to rs (off k) r \<and> lr_key r = k" by blast
    from someI_ex [OF this] assms(3) [OF e] show ?thesis by (intro exI [of _ "SOME r. points_to rs (off k) r \<and> lr_key r = k"]) (simp add: g_def)
  qed
  have "sum_list (map f (bt_keys es)) \<le> sum_list (map g (bt_keys es))" using * by (intro sum_list_mono) blast
  also have "\<dots> \<le> log_len rs" using * bt.keys_distinct [OF assms(2)] by (intro log_index_sizes [where off = off]) blast+
  finally show ?thesis .
qed

lemma idx_for_entries_ok:
  assumes "idx_for T (bt_get es) rs" "bt_wf es" "log_wf rs" "log_len rs < 2 ^ 32"
  shows "entries_ok es"
proof -
  have "sum_list (map (\<lambda>_. 1) (bt_keys es)) \<le> log_len rs"
    by (rule idx_for_size [OF assms(1,2)]) (use rec_len_16 le_trans in \<open>metis one_le_numeral\<close>)
  then have "length es \<le> log_len rs" by (simp add: sum_list_triv length_bt_keys)
  moreover have "from_utf8 k \<and> length k \<le> MAX_KLEN \<and> off < 2 ^ 64" if "(k, off) \<in> set es" for k off
  proof -
    from that have "bt_get es k = Some off" using bt_get_mem [OF assms(2)] by simp
    from idx_for_points [OF assms(1) this] obtain r where r: "points_to rs off r" "lr_key r = k" .
    from r(1) have "rec_ok r" "off \<le> log_len rs" using assms(3) points_to_mem points_to_bound by (fastforce simp: log_wf_def)+
    then show ?thesis using r(2) assms(4) by (auto simp: rec_ok_def)
  qed
  ultimately show ?thesis using assms(2,4) by (auto simp: entries_ok_def)
qed

lemma ckpt_body_size:
  assumes "idx_for T (bt_get es) rs" "bt_wf es" "log_wf rs" "log_len rs < 2 ^ 32"
  shows "length (ckpt_body app es) \<le> 24 + log_len rs"
proof -
  have "sum_list (map (\<lambda>k. 10 + length k) (bt_keys es)) \<le> log_len rs"
  proof (rule idx_for_size [OF assms(1,2)])
    fix k off r assume "lr_key r = k"
    then show "10 + length k \<le> rec_len r" using rec_len_ge [of r] by simp
  qed
  moreover have "map (\<lambda>k. 10 + length k) (bt_keys es) = map (\<lambda>(k, off). 10 + length k) es" by (auto simp: bt_keys_def)
  ultimately show ?thesis using length_ckpt_body [OF idx_for_entries_ok [OF assms]] by simp
qed

lemma idx_for_ckpt: "idx_for T m rs \<Longrightarrow> lr_key c = CKPT_KEY \<Longrightarrow> idx_for T m (rs @ [c])"
  using entry_ok_snoc [of T rs _ _ c] unfolding idx_for_def by auto

lemma ckpt_found_none: "\<forall>r \<in> set rs. lr_key r \<noteq> CKPT_KEY \<Longrightarrow> ckpt_found rs found = found"
  by (induction rs) simp_all

lemma ckpt_found_append: "ckpt_found (xs @ ys) found = ckpt_found ys (ckpt_found xs found)"
  by (induction xs arbitrary: found) simp_all

lemma ckpt_found_eq:
  "\<forall>r \<in> set post. lr_key r \<noteq> CKPT_KEY \<Longrightarrow> lr_key c = CKPT_KEY \<Longrightarrow> 24 \<le> length (lr_val c) \<Longrightarrow>
   ckpt_found (pre @ c # post) found = Some (lr_val c)"
  by (simp add: ckpt_found_append ckpt_found_none)

lemma ckpt_found_last:
  assumes "ckpt_found rs None = Some val"
  shows "\<exists>pre c post. rs = pre @ c # post \<and> lr_key c = CKPT_KEY \<and> (\<forall>r \<in> set post. lr_key r \<noteq> CKPT_KEY)"
proof -
  from assms have "\<exists>r \<in> set rs. lr_key r = CKPT_KEY" using ckpt_found_none by fastforce
  from split_list_last_prop [OF this] show ?thesis by blast
qed

text \<open>No scan of the mount runs out of time.\<close>

definition clock_within :: "mount_clock \<Rightarrow> bool" where
  "clock_within mc \<longleftrightarrow> (\<forall>off. \<not> mount_scan_expired (mount_scan_deadline (mc_start mc)) (mc_ckpt mc off) \<and>
     \<not> mount_scan_expired (mount_scan_deadline (mc_start mc)) (mc_tail mc off) \<and>
     \<not> mount_scan_expired (mount_scan_deadline (mc_start mc)) (mc_recover mc off))"

context flash_controller
begin

lemma read_header:
  assumes "holds s bs" "bs = log_bytes rs @ rest" "points_to rs off r"
  obtains fl where "with_flash (fl_read ops off HEADER) s = (Inr (rec_header r), s\<lparr>kv_flash := Some fl\<rparr>)" "healthy fl" "contents fl = bs"
proof -
  from assms(3) obtain pre post where r: "rs = pre @ r # post" "off = log_len pre" by (auto simp: points_to_def)
  have bs: "bs = log_bytes pre @ rec_bytes r @ log_bytes post @ rest" by (simp add: assms(2) r(1))
  have "off + HEADER \<le> length bs" using rec_len_16 [of r] by (simp add: bs r(2) HEADER_def del: rec_len_16)
  from holds_read [OF assms(1) this] obtain fl where
    "with_flash (fl_read ops off HEADER) s = (Inr (slice off HEADER bs), s\<lparr>kv_flash := Some fl\<rparr>)" "healthy fl" "contents fl = bs" .
  moreover have "slice off HEADER bs = rec_header r" unfolding bs r(2) HEADER_def by (rule slice_header)
  ultimately show ?thesis using that by simp
qed

lemma ckpt_end_log:
  assumes "holds s bs" "bs = log_bytes rs @ rest" "\<forall>off \<in> set offs. \<exists>r. points_to rs off r \<and> rec_ok r" "log_len rs < 2 ^ 64"
  shows "\<exists>fl. ckpt_end ops offs (log_len rs) s = (log_len rs, s\<lparr>kv_flash := Some fl\<rparr>) \<and> healthy fl \<and> contents fl = bs"
  using assms(1,3)
proof (induction offs arbitrary: s)
  case Nil
  then obtain fl where "kv_flash s = Some fl" "healthy fl" "contents fl = bs" by (auto simp: holds_def)
  then show ?case by (intro exI [of _ fl]) simp
next
  case (Cons off offs)
  from Cons.prems(2) obtain r where r: "points_to rs off r" "rec_ok r" by auto
  from read_header [OF Cons.prems(1) assms(2) r(1)] obtain fl where
    f: "with_flash (fl_read ops off HEADER) s = (Inr (rec_header r), s\<lparr>kv_flash := Some fl\<rparr>)" "healthy fl" "contents fl = bs" .
  have "max (log_len rs) (sat64 (off + record_size (length (lr_key r)) (length (lr_val r)))) = log_len rs"
    using points_to_bound [OF r(1)] assms(4) by (simp add: sat64_def rec_len_def max_absorb1)
  then have "ckpt_end ops (off # offs) (log_len rs) s = ckpt_end ops offs (log_len rs) (s\<lparr>kv_flash := Some fl\<rparr>)"
    using f(1) r(2) by (simp add: header_fields)
  moreover have "holds (s\<lparr>kv_flash := Some fl\<rparr>) bs" using f(2,3) by (simp add: holds_def)
  ultimately show ?case using Cons.IH [of "s\<lparr>kv_flash := Some fl\<rparr>"] Cons.prems(2) by auto
qed

lemma flash_log_holds:
  assumes "flash_log s rs sz"
  obtains tail where "holds s (log_bytes rs @ tail)" "blank tail" "log_len rs + length tail = sz" "log_wf rs"
  using assms unfolding flash_log_def by blast

lemma flash_log_read:
  assumes "flash_log s rs sz" "holds s (log_bytes rs @ tail)" "healthy fl" "contents fl = log_bytes rs @ tail"
  shows "flash_log (s\<lparr>kv_flash := Some fl\<rparr>) rs sz"
  using assms by (auto simp: flash_log_def holds_def)

lemma ckpt_fresh_log:
  assumes "flash_log s rs sz" "\<forall>(k, off) \<in> set (kv_index s). \<exists>r. points_to rs off r"
  shows "\<exists>res s'. ckpt_fresh ops s = (res, s') \<and> flash_log s' rs sz \<and> kv_env s' = kv_env s \<and> (\<forall>x. res = Inr x \<longrightarrow> kv_index s' = kv_index s) \<and>
    (\<forall>k off es r. kv_index s = (k, off) # es \<longrightarrow> points_to rs off r \<longrightarrow> lr_live r \<longrightarrow> res = Inr ())"
proof (cases "kv_index s")
  case Nil
  then show ?thesis using assms(1) by (simp add: ckpt_fresh_def)
next
  case (Cons e es)
  obtain k off where e: "e = (k, off)" by (cases e)
  from assms(2) Cons e obtain r where r: "points_to rs off r" by auto
  from assms(1) obtain tail where t: "holds s (log_bytes rs @ tail)" by (auto simp: flash_log_def)
  from read_header [OF t refl r] obtain fl where
    f: "with_flash (fl_read ops off HEADER) s = (Inr (rec_header r), s\<lparr>kv_flash := Some fl\<rparr>)" "healthy fl" "contents fl = log_bytes rs @ tail" .
  have "flash_log (s\<lparr>kv_flash := Some fl\<rparr>) rs sz" by (rule flash_log_read [OF assms(1) t f(2,3)])
  then have "flash_log (s\<lparr>kv_flash := Some fl, kv_index := i\<rparr>) rs sz" for i by (simp add: flash_log_def holds_def)
  then show ?thesis using f(1) \<open>flash_log (s\<lparr>kv_flash := Some fl\<rparr>) rs sz\<close>
    by (cases "lr_live r") (auto simp: ckpt_fresh_def Cons e dest: points_to_fun [OF r])
qed

text \<open>Restoring any checkpoint whose entries point to records of the log before it, right or wrong.\<close>

lemma restore_points:
  assumes "flash_log s (pre @ c # post) sz" "lr_key c = CKPT_KEY" "entries_ok es" "\<forall>(k, off) \<in> set es. \<exists>r. points_to pre off r"
    "lr_val c = ckpt_body (log_len pre) es" "\<not> kv_degraded s" "\<forall>off. \<not> mount_scan_expired dl (now off)" "sz < 2 ^ 32"
  shows "\<exists>res s'. restore_ckpt ops (lr_val c) dl now s = (res, s') \<and> flash_log s' (pre @ c # post) sz \<and> kv_env s' = kv_env s \<and>
    (\<forall>x. res = Inr x \<longrightarrow> kv_append s' = log_len (pre @ c # post) \<and> bt_wf (kv_index s') \<and>
       bt_get (kv_index s') = log_index_from (log_len (pre @ [c])) post (bt_get es)) \<and>
    (\<forall>k off es' r. es = (k, off) # es' \<longrightarrow> points_to pre off r \<longrightarrow> lr_live r \<longrightarrow> res = Inr ())"
proof -
  let ?rs = "pre @ c # post"
  from assms(1) have wf: "log_wf ?rs" "log_len ?rs \<le> sz" by (auto simp: flash_log_def)
  then have wfp: "log_wf pre" "log_len pre < 2 ^ 32" using assms(8) by (auto simp: log_wf_def sorted_wrt_append)
  have "log_len pre < 2 ^ 64" using wfp(2) by simp
  note body = ckpt_body_fields [OF assms(3) this] ckpt_body_entries [OF assms(3)]
  have pts: "\<exists>r. points_to pre off r \<and> rec_ok r" if "(k, off) \<in> set es" for k off
    using assms(4) that wfp(1) points_to_mem unfolding log_wf_def by fastforce
  let ?s0 = "s\<lparr>kv_index := es\<rparr>"
  have fl0: "flash_log ?s0 ?rs sz" using assms(1) by (simp add: flash_log_def holds_def)
  have "\<exists>r. points_to ?rs off r" if "(k, off) \<in> set es" for k off using pts [OF that] points_to_append by blast
  then have "\<forall>(k, off) \<in> set (kv_index ?s0). \<exists>r. points_to ?rs off r" by auto
  from ckpt_fresh_log [OF fl0 this] obtain res1 s1 where s1: "ckpt_fresh ops ?s0 = (res1, s1)" "flash_log s1 ?rs sz" "kv_env s1 = kv_env ?s0"
    "\<forall>x. res1 = Inr x \<longrightarrow> kv_index s1 = kv_index ?s0"
    "\<forall>k off es' r. kv_index ?s0 = (k, off) # es' \<longrightarrow> points_to ?rs off r \<longrightarrow> lr_live r \<longrightarrow> res1 = Inr ()" by blast
  have start: "restore_ckpt ops (lr_val c) dl now s =
      (case res1 of Inl e \<Rightarrow> (Inl e, s1)
       | Inr _ \<Rightarrow> (case ckpt_end ops (map snd es) (log_len pre) s1 of (lim, s) \<Rightarrow>
           scan_range ops (lim + record_size (length CKPT_KEY) (length (lr_val c))) True dl now (recompute_live_estimate (s\<lparr>kv_append := lim\<rparr>))))"
    unfolding restore_ckpt_def assms(5) using body s1(1) by (cases res1) simp_all
  have live: "\<forall>k off es' r. es = (k, off) # es' \<longrightarrow> points_to pre off r \<longrightarrow> lr_live r \<longrightarrow> res1 = Inr ()"
  proof (intro allI impI)
    fix k off es' r assume "es = (k, off) # es'" "points_to pre off r" "lr_live r"
    then show "res1 = Inr ()" using s1(5) points_to_append [of pre off r "c # post"] by simp
  qed
  show ?thesis
  proof (cases res1)
    case (Inl e)
    then show ?thesis using start s1(2,3) live by simp
  next
    case (Inr u)
    then have idx: "kv_index s1 = es" using s1(4) by (simp del: all_simps)
    from s1(2) obtain tail where t: "holds s1 (log_bytes ?rs @ tail)" by (auto simp: flash_log_def)
    have bs: "log_bytes ?rs @ tail = log_bytes pre @ log_bytes (c # post) @ tail" by simp
    have "\<forall>off \<in> set (map snd es). \<exists>r. points_to pre off r \<and> rec_ok r" using pts by auto
    from ckpt_end_log [OF t bs this \<open>log_len pre < 2 ^ 64\<close>] obtain fl where
      f: "ckpt_end ops (map snd es) (log_len pre) s1 = (log_len pre, s1\<lparr>kv_flash := Some fl\<rparr>)" "healthy fl" "contents fl = log_bytes ?rs @ tail"
      by blast
    define s2 where "s2 = recompute_live_estimate (s1\<lparr>kv_flash := Some fl, kv_append := log_len pre\<rparr>)"
    have "flash_log (s1\<lparr>kv_flash := Some fl\<rparr>) ?rs sz" by (rule flash_log_read [OF s1(2) t f(2,3)])
    then have s2: "flash_log s2 ((pre @ [c]) @ post) sz" "\<not> kv_degraded s2" "bt_wf (kv_index s2)" "kv_env s2 = kv_env s" "kv_index s2 = es"
      using s1(3) assms(3,6) idx by (simp_all add: entries_ok_def s2_def flash_log_def holds_def kv_env_def recompute_live_estimate_def)
    from scan_range_log [OF s2(1,2) assms(7) s2(3), of True] obtain s3 where
      s3: "scan_range ops (log_len (pre @ [c])) True dl now s2 = (Inr (), s3)" "flash_log s3 ((pre @ [c]) @ post) sz" "kv_env s3 = kv_env s2"
        "kv_append s3 = log_len ((pre @ [c]) @ post)" "bt_wf (kv_index s3)" "bt_get (kv_index s3) = log_index_from (log_len (pre @ [c])) post (bt_get es)"
      using s2(5) by auto
    have pos: "log_len (pre @ [c]) = log_len pre + record_size (length CKPT_KEY) (length (lr_val c))" using assms(2) by (simp add: rec_len_def)
    have "restore_ckpt ops (lr_val c) dl now s = (Inr (), s3)"
      using start Inr f(1) s3(1) unfolding pos s2_def by simp
    then show ?thesis using s3 s2(4) by simp
  qed
qed

lemma restore_log:
  assumes "flash_log s (pre @ c # post) sz" "lr_key c = CKPT_KEY" "bt_wf es" "idx_for {} (bt_get es) pre" "lr_val c = ckpt_body (log_len pre) es"
    "\<not> kv_degraded s" "\<forall>off. \<not> mount_scan_expired dl (now off)" "sz < 2 ^ 32"
  shows "\<exists>res s'. restore_ckpt ops (lr_val c) dl now s = (res, s') \<and> flash_log s' (pre @ c # post) sz \<and> kv_env s' = kv_env s \<and>
    (\<forall>x. res = Inr x \<longrightarrow> store_log {} s' (pre @ c # post) sz)"
proof -
  from assms(1,8) have wfp: "log_wf pre" "log_len pre < 2 ^ 32" by (auto simp: flash_log_def log_wf_def sorted_wrt_append)
  have es: "entries_ok es" using idx_for_entries_ok [OF assms(4,3) wfp] .
  have "\<exists>r. points_to pre off r" if "(k, off) \<in> set es" for k off
    using that bt_get_mem [OF assms(3)] idx_for_points [OF assms(4)] by metis
  then have "\<forall>(k, off) \<in> set es. \<exists>r. points_to pre off r" by auto
  from restore_points [OF assms(1,2) es this assms(5-8)] obtain res s' where
    r: "restore_ckpt ops (lr_val c) dl now s = (res, s')" "flash_log s' (pre @ c # post) sz" "kv_env s' = kv_env s"
      "\<forall>x. res = Inr x \<longrightarrow> kv_append s' = log_len (pre @ c # post) \<and> bt_wf (kv_index s') \<and>
        bt_get (kv_index s') = log_index_from (log_len (pre @ [c])) post (bt_get es)" by blast
  have "idx_for {} (log_index_from (log_len (pre @ [c])) post (bt_get es)) (pre @ c # post)"
    using idx_for_replay [OF idx_for_ckpt [OF assms(4,2)], of post] by simp
  with r show ?thesis by (auto simp: store_log_def)
qed

text \<open>The search for the checkpoint, and what follows it.\<close>

lemma try_mount_start:
  assumes "flash_log s rs sz" "\<not> kv_degraded s" "\<forall>off. \<not> mount_scan_expired dl (mc_ckpt mc off)"
  shows "\<exists>s1. flash_log s1 rs sz \<and> kv_env s1 = kv_env s \<and> try_mount_from_ckpt ops dl mc s =
      (case ckpt_found rs None of None \<Rightarrow> (Inl ''no ckpt'', s1) | Some val \<Rightarrow> restore_ckpt ops val dl (mc_tail mc) s1)"
proof -
  let ?s0 = "s\<lparr>kv_index := [], kv_append := 0\<rparr>"
  from assms(1) obtain fl tail where h: "kv_flash s = Some fl" "healthy fl" "contents fl = log_bytes rs @ tail" "blank tail"
    "log_len rs + length tail = sz" "log_wf rs" by (auto simp: flash_log_def holds_def)
  have sz: "fl_size ops fl = sz" using size_contents [OF h(2)] h(3,5) by simp
  have "holds ?s0 (log_bytes ([] @ rs) @ tail)" "log_len ([] @ rs) + length tail = sz" "\<forall>r \<in> set rs. rec_ok r"
    using h by (simp_all add: holds_def log_wf_def)
  from ckpt_scan_log [OF this(1) h(4) this(2,3) assms(3), of None] obtain fl' where
    f: "ckpt_scan ops dl (mc_ckpt mc) sz 0 None ?s0 = (Inr (ckpt_found rs None), ?s0\<lparr>kv_flash := Some fl'\<rparr>)" "healthy fl'"
      "contents fl' = log_bytes rs @ tail" by auto
  define s1 where "s1 = ?s0\<lparr>kv_flash := Some fl'\<rparr>"
  have s1: "flash_log s1 rs sz" "kv_env s1 = kv_env s"
    using f(2,3) h(4-6) by (auto simp: s1_def flash_log_def holds_def kv_env_def)
  have start: "try_mount_from_ckpt ops dl mc s =
      (case ckpt_found rs None of None \<Rightarrow> (Inl ''no ckpt'', s1) | Some val \<Rightarrow> restore_ckpt ops val dl (mc_tail mc) s1)"
    unfolding try_mount_from_ckpt_def Let_def using h(1) sz f(1) by (simp add: s1_def split: option.split)
  show ?thesis using s1 start by blast
qed

lemma try_mount_log:
  assumes "flash_log s rs sz" "ckpt_ok rs" "\<not> kv_degraded s" "\<forall>off. \<not> mount_scan_expired dl (mc_ckpt mc off)"
    "\<forall>off. \<not> mount_scan_expired dl (mc_tail mc off)" "sz < 2 ^ 32"
  shows "\<exists>res s'. try_mount_from_ckpt ops dl mc s = (res, s') \<and> flash_log s' rs sz \<and> kv_env s' = kv_env s \<and>
    (\<forall>x. res = Inr x \<longrightarrow> store_log {} s' rs sz)"
proof -
  from try_mount_start [OF assms(1,3,4)] obtain s1 where s1: "flash_log s1 rs sz" "kv_env s1 = kv_env s" and
    start: "try_mount_from_ckpt ops dl mc s =
      (case ckpt_found rs None of None \<Rightarrow> (Inl ''no ckpt'', s1) | Some val \<Rightarrow> restore_ckpt ops val dl (mc_tail mc) s1)" by blast
  have d: "\<not> kv_degraded s1" using s1(2) assms(3) by (simp add: kv_env_def)
  show ?thesis
  proof (cases "ckpt_found rs None")
    case None
    then show ?thesis using start s1 by simp
  next
    case (Some val)
    from ckpt_found_last [OF Some] obtain pre c post where
      c: "rs = pre @ c # post" "lr_key c = CKPT_KEY" "\<forall>r \<in> set post. lr_key r \<noteq> CKPT_KEY" by blast
    from ckpt_okD [of pre c post] assms(2) c obtain es where
      es: "bt_wf es" "idx_for {} (bt_get es) pre" "lr_val c = ckpt_body (log_len pre) es" by auto
    have "val = lr_val c" using Some c ckpt_found_eq [of post c pre None] es(3) by (simp add: ckpt_body_def)
    then show ?thesis using start Some restore_log [OF _ c(2) es(1-3) d assms(5,6)] s1 unfolding c(1) by simp
  qed
qed

text \<open>Mounting a flash that holds a log, with any contents of the store before.\<close>

lemma mount_log:
  assumes "flash_log s rs sz" "ckpt_ok rs" "clock_within mc" "sz < 2 ^ 32"
  shows "\<exists>s'. mount ops ini mc s = (Inr (), s') \<and> store_log {} s' rs sz \<and> kv_ready s' \<and> \<not> kv_degraded s' \<and>
    kv_hw_latched s' = kv_hw_latched s \<and> kv_compacting s' = kv_compacting s \<and> kv_installed s' = kv_installed s"
proof -
  let ?dl = "mount_scan_deadline (mc_start mc)"
  have clk: "\<forall>off. \<not> mount_scan_expired ?dl (mc_ckpt mc off)" "\<forall>off. \<not> mount_scan_expired ?dl (mc_tail mc off)"
    "\<forall>off. \<not> mount_scan_expired ?dl (mc_recover mc off)" using assms(3) by (simp_all add: clock_within_def)
  from assms(1) obtain fl where fl: "kv_flash s = Some fl" by (auto simp: flash_log_def holds_def)
  let ?s0 = "s\<lparr>kv_backend := fl_kind ops fl, kv_degraded := False\<rparr>"
  have s0: "flash_log ?s0 rs sz" "\<not> kv_degraded ?s0" using assms(1) by (simp_all add: flash_log_def holds_def)
  from try_mount_log [OF s0(1) assms(2) s0(2) clk(1,2) assms(4)] obtain res s1 where
    s1: "try_mount_from_ckpt ops ?dl mc ?s0 = (res, s1)" "flash_log s1 rs sz" "kv_env s1 = kv_env ?s0" "\<forall>x. res = Inr x \<longrightarrow> store_log {} s1 rs sz"
    by blast
  obtain s2 where s2: "(case try_mount_from_ckpt ops ?dl mc ?s0 of (Inl e, s) \<Rightarrow> recover ops ?dl (mc_recover mc) s | (Inr _, s) \<Rightarrow> (Inr (), s)) = (Inr (), s2)"
    "store_log {} s2 rs sz" "kv_env s2 = kv_env ?s0"
  proof (cases res)
    case (Inl e)
    have "\<not> kv_degraded s1" using s1(3) by (simp add: kv_env_def)
    from recover_log [OF s1(2) this clk(3)] s1(1,3) Inl that show ?thesis by auto
  next
    case (Inr u)
    then show ?thesis using s1 that by simp
  qed
  define s3 where "s3 = (let s = s2\<lparr>kv_ready := True\<rparr> in if is_file_backend s then set_gc_suspended True s else s)"
  have "mount ops ini mc s = (Inr (), s3)" unfolding mount_def Let_def fl option.case s2(1) by (simp add: s3_def Let_def)
  moreover have "store_log {} s3 rs sz" using s2(2) by (simp add: s3_def Let_def set_gc_suspended_def store_log_def flash_log_def holds_def)
  moreover have "kv_ready s3 \<and> \<not> kv_degraded s3 \<and> kv_hw_latched s3 = kv_hw_latched s \<and> kv_compacting s3 = kv_compacting s \<and> kv_installed s3 = kv_installed s"
    using s2(3) by (simp add: s3_def Let_def set_gc_suspended_def kv_env_def)
  ultimately show ?thesis by blast
qed

text \<open>Mounting from a checkpoint whose first entry looks valid, even if the checkpoint does not describe the log.\<close>

lemma mount_restored:
  assumes "flash_log s (pre @ c # post) sz" "lr_key c = CKPT_KEY" "\<forall>r \<in> set post. lr_key r \<noteq> CKPT_KEY" "entries_ok es"
    "\<forall>(k, off) \<in> set es. \<exists>r. points_to pre off r" "lr_val c = ckpt_body (log_len pre) es"
    "es = (k0, off0) # es'" "points_to pre off0 r0" "lr_live r0" "clock_within mc" "sz < 2 ^ 32"
  shows "\<exists>s'. mount ops ini mc s = (Inr (), s') \<and> flash_log s' (pre @ c # post) sz \<and> kv_ready s' \<and>
    bt_get (kv_index s') = log_index_from (log_len (pre @ [c])) post (bt_get es)"
proof -
  let ?dl = "mount_scan_deadline (mc_start mc)" and ?rs = "pre @ c # post"
  have clk: "\<forall>off. \<not> mount_scan_expired ?dl (mc_ckpt mc off)" "\<forall>off. \<not> mount_scan_expired ?dl (mc_tail mc off)"
    using assms(10) by (simp_all add: clock_within_def)
  from assms(1) obtain fl where fl: "kv_flash s = Some fl" by (auto simp: flash_log_def holds_def)
  let ?s0 = "s\<lparr>kv_backend := fl_kind ops fl, kv_degraded := False\<rparr>"
  have s0: "flash_log ?s0 ?rs sz" "\<not> kv_degraded ?s0" using assms(1) by (simp_all add: flash_log_def holds_def)
  from try_mount_start [OF s0 clk(1)] obtain s1 where s1: "flash_log s1 ?rs sz" "kv_env s1 = kv_env ?s0" and
    start: "try_mount_from_ckpt ops ?dl mc ?s0 =
      (case ckpt_found ?rs None of None \<Rightarrow> (Inl ''no ckpt'', s1) | Some val \<Rightarrow> restore_ckpt ops val ?dl (mc_tail mc) s1)" by blast
  have found: "ckpt_found ?rs None = Some (lr_val c)"
    using assms(2,3,6) ckpt_found_eq [of post c pre None] by (simp add: ckpt_body_def)
  have d: "\<not> kv_degraded s1" using s1(2) by (simp add: kv_env_def)
  from restore_points [OF s1(1) assms(2,4,5,6) d clk(2) assms(11)] assms(7-9) obtain s2 where
    s2: "restore_ckpt ops (lr_val c) ?dl (mc_tail mc) s1 = (Inr (), s2)" "flash_log s2 ?rs sz"
      "bt_get (kv_index s2) = log_index_from (log_len (pre @ [c])) post (bt_get es)" by (metis (no_types, lifting))
  define s3 where "s3 = (let s = s2\<lparr>kv_ready := True\<rparr> in if is_file_backend s then set_gc_suspended True s else s)"
  have "mount ops ini mc s = (Inr (), s3)" unfolding mount_def Let_def fl option.case start found s2(1) by (simp add: s3_def Let_def)
  moreover have "flash_log s3 ?rs sz" "kv_ready s3" "kv_index s3 = kv_index s2"
    using s2(2) by (simp_all add: s3_def Let_def set_gc_suspended_def flash_log_def holds_def)
  ultimately show ?thesis using s2(3) by auto
qed

end

end
