(* ===== verification/TickvGc.thy ===== *)
theory TickvGc
  imports TickvCkpt
begin

text \<open>
  Writing: checkpoints, compaction, and the operations that may start one.  A compaction keeps the value of every key, ends with a fresh
  checkpoint, and is never entered again from inside.
\<close>

section \<open>Compaction does not recurse\<close>

text \<open>While \<^verbatim>\<open>COMPACTING\<close> is set, the operations that may compact do not call it.\<close>

lemma maybe_gc_guard: "kv_compacting s \<Longrightarrow> maybe_gc_with cmp s = maybe_gc_with cmp' s"
  by (simp add: maybe_gc_with_def)

lemma high_water_guard: "kv_compacting s \<Longrightarrow> maybe_high_water_flush_with cmp ops s = maybe_high_water_flush_with cmp' ops s"
  by (simp add: maybe_high_water_flush_with_def maybe_gc_guard [of s cmp cmp'])

lemma with_flash_compacting: "with_flash f s = (r, s') \<Longrightarrow> kv_compacting s' = kv_compacting s"
  by (auto simp: with_flash_def split: option.splits prod.splits)

lemma put_raw_compacting: "put_raw ops k v s = (r, s') \<Longrightarrow> kv_compacting s' = kv_compacting s"
  unfolding put_raw_def Let_def
  by (auto simp: add_live_def add_dead_def dest: with_flash_compacting split: prod.splits sum.splits if_splits)

lemma put_raw_all_compacting: "put_raw_all ops items s = (r, s') \<Longrightarrow> kv_compacting s' = kv_compacting s"
proof (induction items arbitrary: s)
  case (Cons it items)
  obtain r1 s1 where p: "put_raw ops (fst it) (snd it) s = (r1, s1)" by fastforce
  then show ?case using Cons put_raw_compacting [OF p] by (cases r1) auto
qed simp

lemma invalidate_compacting: "kv_compacting (snd (invalidate_key ops k s)) = kv_compacting s"
  by (auto simp: invalidate_key_def add_dead_def dest: with_flash_compacting split: option.split prod.split sum.split)

lemma invalidate_all_compacting: "kv_compacting (invalidate_all ops items s) = kv_compacting s"
  by (induction items arbitrary: s) (simp_all add: invalidate_compacting)

lemma put_batch_guard: "kv_compacting s \<Longrightarrow> put_batch_with cmp ops items s = put_batch_with cmp' ops items s"
proof -
  assume c: "kv_compacting s"
  obtain r s1 where p: "put_raw_all ops items (invalidate_all ops items s) = (r, s1)" by fastforce
  have "kv_compacting s1" using put_raw_all_compacting [OF p] c by (simp add: invalidate_all_compacting)
  then show ?thesis unfolding put_batch_with_def p by (auto simp: high_water_guard [of s1 cmp ops cmp'] split: sum.split)
qed

text \<open>
  C40.  Compaction is entered at most once: however deep the cycle from \<^verbatim>\<open>compact\<close> through \<^verbatim>\<open>put_batch\<close>, \<^verbatim>\<open>maybe_high_water_flush\<close> and
  \<^verbatim>\<open>maybe_gc\<close> back to \<^verbatim>\<open>compact\<close> is allowed to be, the result is that of depth one, in every state and on every flash, even when the live records
  alone exceed the threshold.
\<close>

theorem compact_at_depth: "compact_at (Suc n) ops s = compact_log ops s"
proof -
  have "put_batch_with (compact_at n ops) ops items s = put_batch_with (compact_at 0 ops) ops items s" if "kv_compacting s" for items and s :: "'a kv"
    by (rule put_batch_guard [OF that])
  then show ?thesis unfolding compact_log_def One_nat_def compact_at.simps Let_def by (simp cong: prod.case_cong sum.case_cong)
qed

section \<open>Values, checkpoints apart\<close>

definition kv_of :: "log_rec list \<Rightarrow> (bytes \<rightharpoonup> bytes)" where
  "kv_of rs = (log_kv rs)(CKPT_KEY := None)"

lemma kv_of_ckpt [simp]: "kv_of (rs @ [LogRec True CKPT_KEY v]) = kv_of rs"
  by (simp add: kv_of_def)

lemma kv_of_put: "k \<noteq> CKPT_KEY \<Longrightarrow> kv_of (rs @ [LogRec True k v]) = (kv_of rs)(k := (if v = [] then None else Some v))"
  by (auto simp: kv_of_def)

lemma CKPT_KEY_ok: "from_utf8 CKPT_KEY" "length CKPT_KEY = 14"
  by (simp_all add: CKPT_KEY_def bstr_def)

lemma record_size_le: "record_size k v \<le> k + v + 542"
proof -
  have r: "(n + 15) div 16 * 16 \<le> n + 15" "(m + 511) div 512 * 512 \<le> m + 511" for n m :: nat by simp_all
  have "record_size k v \<le> HEADER + (k + v + 15) div 16 * 16 + 511" unfolding record_size_def Let_def by (rule r(2))
  also have "\<dots> \<le> HEADER + (k + v + 15) + 511" using r(1) [of "k + v"] by simp
  finally show ?thesis by (simp add: HEADER_def)
qed

text \<open>The room a compaction of the log needs: the log once more, and the checkpoint.\<close>

definition gc_room :: "nat \<Rightarrow> nat \<Rightarrow> bool" where
  "gc_room len sz \<longleftrightarrow> 2 * len + 580 \<le> sz \<and> len + 24 \<le> MAX_VLEN"

lemma bt_get_removed: "bt_get (bt_remove k m) = (bt_get m)(k := None)" for k :: "'k::linorder"
  by (auto simp: fun_eq_iff)

text \<open>The log a batch of fresh keys makes.\<close>

definition batch_log :: "(bytes \<times> bytes) list \<Rightarrow> log_rec list" where
  "batch_log items = map (\<lambda>(k, v). LogRec True k v) items"

lemma batch_log_simps [simp]: "batch_log [] = []" "batch_log (it # items) = LogRec True (fst it) (snd it) # batch_log items"
  by (simp_all add: batch_log_def case_prod_beta)

lemma log_map_batch:
  "distinct (map fst items) \<Longrightarrow> \<forall>(k, v) \<in> set items. v \<noteq> [] \<Longrightarrow>
   log_map (batch_log items) m k = (case map_of items k of Some v \<Rightarrow> Some v | None \<Rightarrow> m k)"
proof (induction items arbitrary: m)
  case (Cons it items)
  obtain k' v where it: "it = (k', v)" by (cases it)
  have IH: "log_map (batch_log items) m' k = (case map_of items k of Some v \<Rightarrow> Some v | None \<Rightarrow> m' k)" for m'
    using Cons.IH Cons.prems by simp
  have "map_of items k' = None" using Cons.prems(1) it by (simp add: map_of_eq_None_iff)
  then show ?case using Cons.prems(2) by (simp add: it IH split: option.split)
qed simp

context flash_controller
begin

section \<open>Checkpoints\<close>

lemma store_write_ckpt:
  assumes "store_log {} s rs sz" "kv_ready s" "log_len rs + 24 \<le> MAX_VLEN"
  shows "\<exists>res s' rs'. write_ckpt ops s = (res, s') \<and> store_log {} s' rs' sz \<and> kv_of rs' = kv_of rs \<and> kv_env s' = kv_env s \<and>
    compactions (kv_stats s') = compactions (kv_stats s) \<and> (ckpt_ok rs \<longrightarrow> ckpt_ok rs') \<and>
    (if log_len rs + log_len rs + 580 \<le> sz then res = Inr () \<and> ckpt_ok rs' else True)"
proof -
  let ?es = "filter (\<lambda>(k, off). k \<noteq> CKPT_KEY) (kv_index s)"
  let ?body = "ckpt_body (kv_append s) ?es"
  from assms(1) have a: "kv_append s = log_len rs" "bt_wf (kv_index s)" "idx_for {} (bt_get (kv_index s)) rs" "log_wf rs" "log_len rs \<le> sz"
    by (auto simp: store_log_def flash_log_def)
  have small: "log_len rs < 2 ^ 32" using assms(3) by (simp add: MAX_VLEN_def)
  have es: "?es = bt_remove CKPT_KEY (kv_index s)" by (auto simp: bt_remove_def intro: filter_cong)
  have wf: "bt_wf ?es" "bt_get ?es = (bt_get (kv_index s))(CKPT_KEY := None)" using a(2) by (auto simp: es fun_eq_iff)
  have idx: "idx_for {} (bt_get ?es) rs" using idx_for_remove [OF a(3), of CKPT_KEY] wf(2) by simp
  have len: "length ?body \<le> 24 + log_len rs" by (rule ckpt_body_size [OF idx wf(1) a(4) small])
  have ok: "rec_ok (LogRec True CKPT_KEY ?body)" using len assms(3) CKPT_KEY_ok by (simp add: rec_ok_def MAX_KLEN_def)
  have ne: "?body \<noteq> []" by (simp add: ckpt_body_def bstr_def)
  let ?rs' = "rs @ [LogRec True CKPT_KEY ?body]"
  show ?thesis
  proof (cases "log_len rs + record_size (length CKPT_KEY) (length ?body) \<le> sz")
    case True
    from store_put_raw [OF assms(1) ok _ True] ne obtain s1 where
      s1: "put_raw ops CKPT_KEY ?body s = (Inr (), s1)" "store_log {} s1 ?rs' sz" "kv_env s1 = kv_env s"
        "compactions (kv_stats s1) = compactions (kv_stats s)" by auto
    let ?s' = "s1\<lparr>kv_ckpt_dirty := False\<rparr>"
    have "write_ckpt ops s = (Inr (), ?s')" using assms(2) s1(1) by (simp add: write_ckpt_def)
    moreover have "store_log {} ?s' ?rs' sz" using s1(2) by (simp add: store_log_def flash_log_def holds_def)
    moreover have "ckpt_ok ?rs'" by (rule ckpt_ok_ckpt [OF wf(1) _ idx]) (simp_all add: wf(2) a(1))
    ultimately show ?thesis using s1(3,4) by (intro exI [of _ "Inr ()"] exI [of _ ?s'] exI [of _ ?rs']) simp
  next
    case False
    then have "put_raw ops CKPT_KEY ?body s = (Inl ''oob'', s)" by (intro store_put_raw_oob [OF assms(1)]) simp
    then have "write_ckpt ops s = (Inl ''oob'', s)" using assms(2) by (simp add: write_ckpt_def)
    moreover have "\<not> log_len rs + log_len rs + 580 \<le> sz"
      using False len record_size_le [of "length CKPT_KEY" "length ?body"] CKPT_KEY_ok(2) by simp
    ultimately show ?thesis using assms(1) by (intro exI [of _ "Inl ''oob''"] exI [of _ s] exI [of _ rs]) simp
  qed
qed

section \<open>Compaction\<close>

lemma gather_log:
  assumes "store_log T s rs sz" "kv_ready s" "set ks \<subseteq> set (bt_keys (kv_index s))" "distinct ks"
  shows "\<exists>live s'. gather_live ops ks s = (live, s') \<and> store_log T s' rs sz \<and> kv_env s' = kv_env s \<and> kv_index s' = kv_index s \<and>
    compactions (kv_stats s') = compactions (kv_stats s) \<and> distinct (map fst live) \<and> fst ` set live \<subseteq> set ks \<and>
    (\<forall>(k, v) \<in> set live. \<exists>off r. bt_get (kv_index s) k = Some off \<and> points_to rs off r \<and> r = LogRec True k v \<and> v \<noteq> []) \<and>
    (\<forall>k \<in> set ks. \<forall>off r. bt_get (kv_index s) k = Some off \<longrightarrow> points_to rs off r \<longrightarrow> lr_live r \<longrightarrow> lr_val r \<noteq> [] \<longrightarrow> (k, lr_val r) \<in> set live)"
  using assms
proof (induction ks arbitrary: s)
  case Nil
  then show ?case by simp
next
  case (Cons k ks)
  from Cons.prems(3) obtain off where off: "bt_get (kv_index s) k = Some off" by (auto simp: set_bt_keys)
  have idx: "idx_for T (bt_get (kv_index s)) rs" using Cons.prems(1) by (simp add: store_log_def)
  from idx_for_points [OF idx off] obtain r where r: "points_to rs off r" "lr_key r = k" .
  from get_entry [OF Cons.prems(1,2) off r(1)] obtain s1 where
    s1: "tv_get ops k s = (if lr_live r then Inr (lr_val r) else Inl ''missing'', s1)" "store_log T s1 rs sz" "kv_env s1 = kv_env s"
      "compactions (kv_stats s1) = compactions (kv_stats s)" "kv_index s1 = kv_index s" by blast
  have "kv_ready s1" "set ks \<subseteq> set (bt_keys (kv_index s1))" "distinct ks"
    using Cons.prems(2-4) s1(3,5) kv_env_ready [OF s1(3)] by simp_all
  from Cons.IH [OF s1(2) this] obtain live s2 where
    l: "gather_live ops ks s1 = (live, s2)" "store_log T s2 rs sz" "kv_env s2 = kv_env s1" "kv_index s2 = kv_index s1"
      "compactions (kv_stats s2) = compactions (kv_stats s1)" "distinct (map fst live)" "fst ` set live \<subseteq> set ks"
      "\<forall>(k, v) \<in> set live. \<exists>off r. bt_get (kv_index s1) k = Some off \<and> points_to rs off r \<and> r = LogRec True k v \<and> v \<noteq> []"
      "\<forall>k \<in> set ks. \<forall>off r. bt_get (kv_index s1) k = Some off \<longrightarrow> points_to rs off r \<longrightarrow> lr_live r \<longrightarrow> lr_val r \<noteq> [] \<longrightarrow> (k, lr_val r) \<in> set live"
    by blast
  let ?live = "if lr_live r \<and> lr_val r \<noteq> [] then (k, lr_val r) # live else live"
  have g: "gather_live ops (k # ks) s = (?live, s2)" using s1(1) l(1) by (cases "lr_live r") simp_all
  have k: "k \<notin> fst ` set live" using l(7) Cons.prems(4) by auto
  have rec: "lr_live r \<Longrightarrow> r = LogRec True k (lr_val r)" using r(2) by (cases r) auto
  have live1: "\<forall>(k', v) \<in> set ?live. \<exists>off r. bt_get (kv_index s) k' = Some off \<and> points_to rs off r \<and> r = LogRec True k' v \<and> v \<noteq> []"
  proof (clarify)
    fix k' v assume m: "(k', v) \<in> set ?live"
    show "\<exists>off r. bt_get (kv_index s) k' = Some off \<and> points_to rs off r \<and> r = LogRec True k' v \<and> v \<noteq> []"
    proof (cases "(k', v) \<in> set live")
      case True
      then show ?thesis using l(8) s1(5) by auto
    next
      case False
      then have "lr_live r" "lr_val r \<noteq> []" "k' = k" "v = lr_val r" using m by (auto split: if_splits)
      then show ?thesis using off r(1) rec by metis
    qed
  qed
  have live2: "(k', lr_val r') \<in> set ?live"
    if "k' \<in> set (k # ks)" "bt_get (kv_index s) k' = Some off'" "points_to rs off' r'" "lr_live r'" "lr_val r' \<noteq> []" for k' off' r'
  proof (cases "k' = k")
    case True
    then have "r' = r" using points_to_fun [OF r(1)] that(2,3) off by simp
    then show ?thesis using True that(4,5) by simp
  next
    case False
    then show ?thesis using l(9) that s1(5) by auto
  qed
  show ?case
    unfolding g using l(2-7) s1 k live1 live2
    by (intro exI [of _ ?live] exI [of _ s2] conjI) (auto simp del: kv_env_upd split: if_splits)
qed

lemma put_raw_all_log:
  assumes "store_log {} s rs sz" "distinct (map fst items)" "\<forall>(k, v) \<in> set items. rec_ok (LogRec True k v) \<and> v \<noteq> [] \<and> log_index rs k = None"
    "log_len rs + log_len (batch_log items) \<le> sz"
  shows "\<exists>s'. put_raw_all ops items s = (Inr (), s') \<and> store_log {} s' (rs @ batch_log items) sz \<and> kv_env s' = kv_env s \<and>
    compactions (kv_stats s') = compactions (kv_stats s)"
  using assms
proof (induction items arbitrary: s rs)
  case Nil
  then show ?case by simp
next
  case (Cons it items)
  obtain k v where it: "it = (k, v)" by (cases it)
  have kv: "rec_ok (LogRec True k v)" "v \<noteq> []" "log_index rs k = None" using Cons.prems(3) it by auto
  have "log_len rs + record_size (length k) (length v) \<le> sz" using Cons.prems(4) it by (simp add: rec_len_def)
  from store_put_raw [OF Cons.prems(1) kv(1) _ this] kv(2,3) obtain s1 where
    s1: "put_raw ops k v s = (Inr (), s1)" "store_log {} s1 (rs @ [LogRec True k v]) sz" "kv_env s1 = kv_env s"
      "compactions (kv_stats s1) = compactions (kv_stats s)" by auto
  have fresh: "\<forall>(k', v') \<in> set items. rec_ok (LogRec True k' v') \<and> v' \<noteq> [] \<and> log_index (rs @ [LogRec True k v]) k' = None"
  proof (clarify)
    fix k' v' assume m: "(k', v') \<in> set items"
    then have "k' \<noteq> k" using Cons.prems(2) it by force
    then show "rec_ok (LogRec True k' v') \<and> v' \<noteq> [] \<and> log_index (rs @ [LogRec True k v]) k' = None" using m Cons.prems(3) by auto
  qed
  have "distinct (map fst items)" "log_len (rs @ [LogRec True k v]) + log_len (batch_log items) \<le> sz" using Cons.prems(2,4) it by simp_all
  from Cons.IH [OF s1(2) this(1) fresh this(2)] obtain s2 where
    "put_raw_all ops items s1 = (Inr (), s2)" "store_log {} s2 ((rs @ [LogRec True k v]) @ batch_log items) sz" "kv_env s2 = kv_env s1"
    "compactions (kv_stats s2) = compactions (kv_stats s1)" by blast
  then show ?case using s1 it by (intro exI [of _ s2]) simp
qed

lemma wipe_ok:
  assumes "holds s bs" "wipe \<le> length bs" "512 dvd wipe" "512 dvd pos" "pos \<le> wipe"
  shows "\<exists>fl. wipe_log ops pos wipe s = (Inr (), s\<lparr>kv_flash := Some fl\<rparr>) \<and> healthy fl \<and> contents fl = splice pos (replicate (wipe - pos) 0) bs"
  using assms
proof (induction "wipe - pos" arbitrary: s bs pos rule: less_induct)
  case less
  show ?case
  proof (cases "pos < wipe")
    case False
    from less.prems(1) obtain fl where "kv_flash s = Some fl" "healthy fl" "contents fl = bs" by (auto simp: holds_def)
    then show ?thesis using False less.prems(5) by (intro exI [of _ fl]) (subst wipe_log.simps, simp add: splice_def)
  next
    case True
    define n where "n = min 4096 (wipe - pos)"
    have "512 dvd n" using less.prems(3,4) by (simp add: n_def min_def dvd_diff_nat)
    then obtain c where c: "n = 512 * c" by (auto simp: dvd_def)
    then have n512: "(n + 511) div 512 * 512 = n" by simp
    have n: "0 < n" "pos + n \<le> wipe" using True by (simp_all add: n_def)
    from less.prems(1) obtain f where f: "kv_flash s = Some f" "healthy f" "contents f = bs" by (auto simp: holds_def)
    have "pos + n \<le> length (contents f)" using f(3) n(2) less.prems(2) by simp
    from erase_ok [OF f(2) this] obtain r f1 es where
      f1: "fl_erase ops pos n f = (r, f1)" "length es = n" "contents f1 = splice pos es bs" "healthy f1" using f(3) by auto
    let ?s1 = "s\<lparr>kv_flash := Some f1\<rparr>"
    have s1: "snd (with_flash (fl_erase ops pos n) s) = ?s1" by (simp add: with_flash_def f(1) f1(1))
    have "holds ?s1 (splice pos es bs)" using f1(3,4) by (simp add: holds_def)
    moreover have "pos + length (replicate n (0 :: u8)) \<le> length (splice pos es bs)" using f1(2) n(2) less.prems(2) by simp
    ultimately obtain f2 where "with_flash (fl_write ops pos (replicate n 0)) ?s1 = (Inr (), ?s1\<lparr>kv_flash := Some f2\<rparr>)" "healthy f2"
      "contents f2 = splice pos (replicate n 0) (splice pos es bs)" by (rule holds_write)
    then have f2: "with_flash (fl_write ops pos (replicate n 0)) ?s1 = (Inr (), s\<lparr>kv_flash := Some f2\<rparr>)" "healthy f2"
      "contents f2 = splice pos (replicate n 0) (splice pos es bs)" by simp_all
    have c2: "contents f2 = splice pos (replicate n 0) bs"
      unfolding f2(3) using f1(2) n(2) less.prems(2) by (intro nth_equalityI) (auto simp: nth_splice)
    have step: "wipe_log ops pos wipe s = wipe_log ops (pos + n) wipe (s\<lparr>kv_flash := Some f2\<rparr>)"
      using True s1 f2(1) unfolding wipe_log.simps [of ops pos wipe s] n_def [symmetric] Let_def n512 by simp
    have "holds (s\<lparr>kv_flash := Some f2\<rparr>) (splice pos (replicate n 0) bs)" using f2(2) c2 by (simp add: holds_def)
    moreover have "wipe \<le> length (splice pos (replicate n 0) bs)" using n(2) less.prems(2) by simp
    moreover have "wipe - (pos + n) < wipe - pos" "512 dvd pos + n" using n True less.prems(4) \<open>512 dvd n\<close> by simp_all
    ultimately obtain f3 where f3: "wipe_log ops (pos + n) wipe (s\<lparr>kv_flash := Some f2\<rparr>) = (Inr (), s\<lparr>kv_flash := Some f3\<rparr>)" "healthy f3"
      "contents f3 = splice (pos + n) (replicate (wipe - (pos + n)) 0) (splice pos (replicate n 0) bs)"
      using less.hyps [of "pos + n" "s\<lparr>kv_flash := Some f2\<rparr>" "splice pos (replicate n 0) bs"] less.prems(3) n(2) by auto
    have "contents f3 = splice pos (replicate (wipe - pos) 0) bs"
      unfolding f3(3) using n less.prems(2) by (intro nth_equalityI) (auto simp: nth_splice)
    then show ?thesis using step f3(1,2) by auto
  qed
qed

lemma invalidate_all_empty: "kv_index s = [] \<Longrightarrow> invalidate_all ops items s = s"
  by (induction items) (simp_all add: bt_contains_def)

lemma high_water_compacting:
  assumes "kv_compacting s"
  shows "\<exists>n m. maybe_high_water_flush_with cmp ops s = s\<lparr>kv_skipped := n, kv_skipped_total := m\<rparr>"
proof (cases "kv_append s \<le> HIGH_WATER \<or> kv_hw_latched s")
  case True
  then show ?thesis by (intro exI [of _ "kv_skipped s"] exI [of _ "kv_skipped_total s"]) (simp add: maybe_high_water_flush_with_def)
next
  case False
  then show ?thesis
    using assms by (intro exI [of _ "kv_skipped s + 1"] exI [of _ "kv_skipped_total s + 1"]) (simp add: maybe_high_water_flush_with_def maybe_gc_with_def)
qed

text \<open>What the live records of a log amount to.\<close>

lemma gathered:
  assumes "store_log T s rs sz" "distinct (map fst live)" "fst ` set live \<subseteq> set (bt_keys (kv_index s))"
    "\<forall>(k, v) \<in> set live. \<exists>off r. bt_get (kv_index s) k = Some off \<and> points_to rs off r \<and> r = LogRec True k v \<and> v \<noteq> []"
    "\<forall>k \<in> set (bt_keys (kv_index s)). \<forall>off r. bt_get (kv_index s) k = Some off \<longrightarrow> points_to rs off r \<longrightarrow> lr_live r \<longrightarrow> lr_val r \<noteq> [] \<longrightarrow> (k, lr_val r) \<in> set live"
  shows "kv_of (batch_log live) = kv_of rs" "log_len (batch_log live) \<le> log_len rs" "\<forall>(k, v) \<in> set live. rec_ok (LogRec True k v) \<and> v \<noteq> []"
proof -
  have idx: "idx_for T (bt_get (kv_index s)) rs" and wf: "log_wf rs" using assms(1) by (simp_all add: store_log_def flash_log_def)
  have one: "\<exists>off. bt_get (kv_index s) k = Some off \<and> points_to rs off (LogRec True k v) \<and> v \<noteq> []" if "(k, v) \<in> set live" for k v
    using assms(4) that by auto
  show ok: "\<forall>(k, v) \<in> set live. rec_ok (LogRec True k v) \<and> v \<noteq> []"
  proof (clarify)
    fix k v assume "(k, v) \<in> set live"
    from one [OF this] obtain off where "points_to rs off (LogRec True k v)" "v \<noteq> []" by blast
    with points_to_mem [of rs off] wf show "rec_ok (LogRec True k v) \<and> v \<noteq> []" unfolding log_wf_def by blast
  qed
  have "kv_of (batch_log live) k = kv_of rs k" for k
  proof (cases "k = CKPT_KEY")
    case False
    have ne: "\<forall>(k, v) \<in> set live. v \<noteq> []" using ok by auto
    have "log_kv (batch_log live) k = map_of live k"
      using log_map_batch [OF assms(2) ne, of Map.empty k] by (cases "map_of live k") simp_all
    also have "\<dots> = log_kv rs k"
    proof (cases "log_index rs k")
      case None
      have "(k, v) \<notin> set live" for v
      proof
        assume "(k, v) \<in> set live"
        from one [OF this] obtain off where o: "points_to rs off (LogRec True k v)" "v \<noteq> []" by blast
        from log_wf_live [OF wf False None points_to_mem [OF o(1)]] o(2) show False by simp
      qed
      then have "map_of live k = None" by (meson map_of_SomeD not_None_eq)
      then show ?thesis using None log_index_kv by simp
    next
      case (Some off)
      from log_index_record [OF Some] obtain r where r: "points_to rs off r" "lr_live r" "lr_val r \<noteq> []" "log_kv rs k = Some (lr_val r)" by blast
      from idx_for_Some [OF idx False Some] have e: "bt_get (kv_index s) k = Some off" .
      then have "(k, lr_val r) \<in> set live" using assms(5) r(1-3) by (auto simp: set_bt_keys)
      then show ?thesis using r(4) assms(2) by simp
    qed
    finally show ?thesis using False by (simp add: kv_of_def)
  qed (simp add: kv_of_def)
  then show "kv_of (batch_log live) = kv_of rs" by blast
  let ?off = "\<lambda>k. the (bt_get (kv_index s) k)" and ?sz = "\<lambda>k. rec_len (LogRec True k (the (map_of live k)))"
  have "sum_list (map ?sz (map fst live)) \<le> log_len rs"
  proof (rule log_index_sizes [where off = ?off, OF assms(2)], rule ballI)
    fix k assume "k \<in> set (map fst live)"
    then obtain v where v: "(k, v) \<in> set live" by auto
    then have "map_of live k = Some v" using assms(2) by simp
    with one [OF v] show "\<exists>r. points_to rs (?off k) r \<and> lr_key r = k \<and> ?sz k = rec_len r" by auto
  qed
  moreover have "map ?sz (map fst live) = map rec_len (batch_log live)"
    using assms(2) by (auto simp: batch_log_def)
  ultimately show "log_len (batch_log live) \<le> log_len rs" by (simp only: log_len_def)
qed

text \<open>A flash full of blanks is an empty log.\<close>

lemma wiped_log:
  assumes "flash_log s rs sz" "kv_append s = log_len rs" "512 \<le> sz"
  shows "\<exists>s'. wipe_log ops 0 (max ((kv_append s + 511) div 512 * 512) 512) s = (Inr (), s') \<and> flash_log s' [] sz \<and> kv_env s' = kv_env s \<and>
    compactions (kv_stats s') = compactions (kv_stats s)"
proof -
  obtain c where c: "log_len rs = 512 * c" using log_len_aligned [of rs] by (auto simp: dvd_def mod_eq_0_iff_dvd)
  have up: "(kv_append s + 511) div 512 * 512 = log_len rs" unfolding assms(2) c by simp
  let ?w = "max (log_len rs) 512"
  from assms(1) obtain tail where t: "holds s (log_bytes rs @ tail)" "blank tail" "log_len rs + length tail = sz" by (auto simp: flash_log_def)
  have "?w \<le> length (log_bytes rs @ tail)" "512 dvd ?w" "512 dvd (0 :: nat)" "0 \<le> ?w" using t(3) assms(3) c by (simp_all add: max_def)
  from wipe_ok [OF t(1) this] obtain fl where
    f: "wipe_log ops 0 ?w s = (Inr (), s\<lparr>kv_flash := Some fl\<rparr>)" "healthy fl" "contents fl = splice 0 (replicate ?w 0) (log_bytes rs @ tail)" by auto
  have "drop ?w (log_bytes rs @ tail) = drop (?w - log_len rs) tail" by simp
  then have "blank (contents fl)" "length (contents fl) = sz"
    using t(2,3) assms(3) by (auto simp: f(3) splice_def blank_def dest: in_set_dropD)
  then have "flash_log (s\<lparr>kv_flash := Some fl\<rparr>) [] sz" using f(2) by (auto simp: flash_log_def holds_def log_wf_def)
  then show ?thesis using f(1) up by auto
qed

text \<open>A compaction up to the point where it writes the new checkpoint.\<close>

lemma compact_rewrite:
  assumes "kv_ready s" "\<not> kv_compacting s" "512 \<le> sz" "gather_live ops (bt_keys (kv_index s)) s = (live, s1)" "store_log T s1 rs sz"
    "kv_env s1 = kv_env s" "compactions (kv_stats s1) = compactions (kv_stats s)" "distinct (map fst live)"
    "\<forall>(k, v) \<in> set live. rec_ok (LogRec True k v) \<and> v \<noteq> []" "log_len (batch_log live) \<le> sz"
  shows "\<exists>s5. store_log {} s5 (batch_log live) sz \<and> kv_env s5 = kv_env (s\<lparr>kv_compacting := True\<rparr>) \<and> compactions (kv_stats s5) = compactions (kv_stats s) \<and>
    compact_log ops s = (case write_ckpt ops s5 of
        (Inl e, s6) \<Rightarrow> (Inl e, s6\<lparr>kv_compacting := False\<rparr>)
      | (Inr _, s6) \<Rightarrow> (Inr (), s6\<lparr>kv_compacting := False, kv_skipped := 0,
          kv_stats := (kv_stats s6)\<lparr>compactions := sat64 (compactions (kv_stats s6) + 1)\<rparr>\<rparr>))"
proof -
  have "flash_log s1 rs sz" "kv_append s1 = log_len rs" using assms(5) by (simp_all add: store_log_def)
  from wiped_log [OF this assms(3)] obtain s2 where
    w: "wipe_log ops 0 (max ((kv_append s1 + 511) div 512 * 512) 512) s1 = (Inr (), s2)" "flash_log s2 [] sz" "kv_env s2 = kv_env s1"
      "compactions (kv_stats s2) = compactions (kv_stats s1)" by blast
  define s3 where "s3 = s2\<lparr>kv_index := [], kv_append := 0, kv_stats := (kv_stats s2)\<lparr>dead_bytes := 0, live_bytes := 0\<rparr>, kv_compacting := True\<rparr>"
  have s3: "store_log {} s3 [] sz" "kv_compacting s3" "kv_ready s3" "kv_index s3 = []" "compactions (kv_stats s3) = compactions (kv_stats s)"
    "kv_env s3 = kv_env (s\<lparr>kv_compacting := True\<rparr>)"
    using w(2-4) assms(1,6,7) by (auto simp: s3_def store_log_def flash_log_def holds_def idx_for_def kv_env_def bt_wf_def)
  have "\<forall>(k, v) \<in> set live. rec_ok (LogRec True k v) \<and> v \<noteq> [] \<and> log_index [] k = None" using assms(9) by auto
  moreover have "log_len [] + log_len (batch_log live) \<le> sz" using assms(10) by simp
  ultimately obtain s4 where s4: "put_raw_all ops live s3 = (Inr (), s4)" "store_log {} s4 (batch_log live) sz" "kv_env s4 = kv_env s3"
    "compactions (kv_stats s4) = compactions (kv_stats s3)" using put_raw_all_log [OF s3(1) assms(8)] by auto
  have "kv_compacting s4" using s4(3) s3(2) by (simp add: kv_env_def)
  from high_water_compacting [OF this, of "compact_at 0 ops"] obtain n m where
    hw: "maybe_high_water_flush_with (compact_at 0 ops) ops s4 = s4\<lparr>kv_skipped := n, kv_skipped_total := m\<rparr>" by blast
  define s5 where "s5 = (if list_ex (\<lambda>it. fst it \<noteq> GC_LOCK_KEY) live then s4\<lparr>kv_skipped := n, kv_skipped_total := m\<rparr> else s4)"
  have b: "put_batch_with (compact_at 0 ops) ops live s3 = (Inr (), s5)"
    unfolding put_batch_with_def invalidate_all_empty [OF s3(4)] s4(1) using s3(3) hw by (simp add: s5_def)
  have s5: "store_log {} s5 (batch_log live) sz" "kv_env s5 = kv_env s4" "compactions (kv_stats s5) = compactions (kv_stats s)"
    using s4(2-4) s3(3,5) by (auto simp: s5_def store_log_def flash_log_def holds_def kv_env_def)
  obtain res s6 where c: "write_ckpt ops s5 = (res, s6)" by fastforce
  have "compact_log ops s = (case write_ckpt ops s5 of
        (Inl e, s6) \<Rightarrow> (Inl e, s6\<lparr>kv_compacting := False\<rparr>)
      | (Inr _, s6) \<Rightarrow> (Inr (), s6\<lparr>kv_compacting := False, kv_skipped := 0,
          kv_stats := (kv_stats s6)\<lparr>compactions := sat64 (compactions (kv_stats s6) + 1)\<rparr>\<rparr>))"
    using assms(1,4) w(1) b unfolding compact_log_def One_nat_def compact_at.simps Let_def s3_def by (cases res) (simp_all add: c)
  with s5 s4(3) s3(6) show ?thesis by auto
qed

lemma store_compact:
  assumes "store_log T s rs sz" "kv_ready s" "\<not> kv_compacting s" "gc_room (log_len rs) sz"
  shows "\<exists>s' rs'. compact_log ops s = (Inr (), s') \<and> store_log {} s' rs' sz \<and> ckpt_ok rs' \<and> kv_of rs' = kv_of rs \<and> kv_env s' = kv_env s \<and>
    compactions (kv_stats s') = sat64 (compactions (kv_stats s) + 1)"
proof -
  have room: "2 * log_len rs + 580 \<le> sz" "log_len rs + 24 \<le> MAX_VLEN" using assms(4) by (simp_all add: gc_room_def)
  have wf: "bt_wf (kv_index s)" using assms(1) by (simp add: store_log_def)
  from gather_log [OF assms(1,2) subset_refl bt.keys_distinct [OF wf]] obtain live s1 where
    l: "gather_live ops (bt_keys (kv_index s)) s = (live, s1)" "store_log T s1 rs sz" "kv_env s1 = kv_env s"
      "compactions (kv_stats s1) = compactions (kv_stats s)" "distinct (map fst live)" "fst ` set live \<subseteq> set (bt_keys (kv_index s))"
      "\<forall>(k, v) \<in> set live. \<exists>off r. bt_get (kv_index s) k = Some off \<and> points_to rs off r \<and> r = LogRec True k v \<and> v \<noteq> []"
      "\<forall>k \<in> set (bt_keys (kv_index s)). \<forall>off r. bt_get (kv_index s) k = Some off \<longrightarrow> points_to rs off r \<longrightarrow> lr_live r \<longrightarrow> lr_val r \<noteq> [] \<longrightarrow> (k, lr_val r) \<in> set live"
    by blast
  note live = gathered [OF assms(1) l(5-8)]
  have "512 \<le> sz" "log_len (batch_log live) \<le> sz" using room(1) live(2) by simp_all
  from compact_rewrite [OF assms(2,3) this(1) l(1-5) live(3) this(2)] obtain s5 where
    s5: "store_log {} s5 (batch_log live) sz" "kv_env s5 = kv_env (s\<lparr>kv_compacting := True\<rparr>)" "compactions (kv_stats s5) = compactions (kv_stats s)"
      "compact_log ops s = (case write_ckpt ops s5 of
        (Inl e, s6) \<Rightarrow> (Inl e, s6\<lparr>kv_compacting := False\<rparr>)
      | (Inr _, s6) \<Rightarrow> (Inr (), s6\<lparr>kv_compacting := False, kv_skipped := 0,
          kv_stats := (kv_stats s6)\<lparr>compactions := sat64 (compactions (kv_stats s6) + 1)\<rparr>\<rparr>))" by blast
  have r5: "kv_ready s5" using s5(2) assms(2) by (simp add: kv_env_def)
  have "log_len (batch_log live) + 24 \<le> MAX_VLEN" using live(2) room(2) by simp
  from store_write_ckpt [OF s5(1) r5 this] live(2) room(1) obtain s6 rs' where
    s6: "write_ckpt ops s5 = (Inr (), s6)" "store_log {} s6 rs' sz" "kv_of rs' = kv_of (batch_log live)" "kv_env s6 = kv_env s5"
      "compactions (kv_stats s6) = compactions (kv_stats s5)" "ckpt_ok rs'" by (force split: if_splits)
  let ?s7 = "s6\<lparr>kv_compacting := False, kv_skipped := 0, kv_stats := (kv_stats s6)\<lparr>compactions := sat64 (compactions (kv_stats s6) + 1)\<rparr>\<rparr>"
  have "store_log {} ?s7 rs' sz" using s6(2) by (simp add: store_log_def flash_log_def holds_def)
  moreover have "kv_env ?s7 = kv_env s" using s6(4) s5(2) assms(3) by (simp add: kv_env_def)
  ultimately show ?thesis using s5(3,4) s6 live(1) by auto
qed

section \<open>The public operations\<close>

text \<open>
  What the store stands for: \<open>kv_inv s m sz\<close> says that the mounted store \<open>s\<close> on a flash of \<open>sz\<close> bytes holds the map \<open>m\<close>, and \<open>flash_inv s m sz\<close> that
  the flash alone does, whatever is in memory.
\<close>

definition flash_inv :: "'f kv \<Rightarrow> (bytes \<rightharpoonup> bytes) \<Rightarrow> nat \<Rightarrow> bool" where
  "flash_inv s m sz \<longleftrightarrow> (\<exists>rs. flash_log s rs sz \<and> ckpt_ok rs \<and> kv_of rs = m)"

definition kv_inv :: "'f kv \<Rightarrow> (bytes \<rightharpoonup> bytes) \<Rightarrow> nat \<Rightarrow> bool" where
  "kv_inv s m sz \<longleftrightarrow> (\<exists>rs. store_log {} s rs sz \<and> ckpt_ok rs \<and> kv_of rs = m) \<and> kv_ready s \<and> \<not> kv_compacting s"

lemma kv_inv_flash: "kv_inv s m sz \<Longrightarrow> flash_inv s m sz"
  by (auto simp: kv_inv_def flash_inv_def store_log_def)

lemma flash_inv_cong: "kv_flash s' = kv_flash s \<Longrightarrow> flash_inv s' m sz = flash_inv s m sz"
  by (simp add: flash_inv_def flash_log_def holds_def)

lemma store_log_mono: "store_log {} s rs sz \<Longrightarrow> store_log T s rs sz"
proof -
  have "entry_ok {} rs k off \<Longrightarrow> entry_ok T rs k off" for k off unfolding entry_ok_def by (elim exE, rule exI) auto
  then show "store_log {} s rs sz \<Longrightarrow> store_log T s rs sz" unfolding store_log_def idx_for_def by blast
qed

text \<open>A compaction the policy asks for.\<close>

lemma store_maybe_gc:
  assumes "store_log T s rs sz" "ckpt_ok rs" "kv_ready s" "\<not> kv_compacting s" "gc_room (log_len rs) sz"
  shows "\<exists>res s' rs'. maybe_gc_with (compact_log ops) s = (res, s') \<and> store_log T s' rs' sz \<and> ckpt_ok rs' \<and> kv_of rs' = kv_of rs \<and> kv_env s' = kv_env s"
proof (cases "kv_gc_suspended s \<or> is_file_backend s \<or> \<not> gc_due s")
  case True
  then show ?thesis using assms(1,2,4) by (auto simp: maybe_gc_with_def)
next
  case False
  with store_compact [OF assms(1,3,4,5)] assms(4) show ?thesis
    by (fastforce simp: maybe_gc_with_def intro: store_log_mono)
qed

lemma store_flush:
  assumes "store_log T s rs sz" "ckpt_ok rs" "kv_ready s" "\<not> kv_compacting s" "gc_room (log_len rs) sz" "is_file_backend s \<longrightarrow> T = {}"
  shows "\<exists>b s' rs'. flush_opportunistic_with (compact_log ops) ops s = (b, s') \<and> store_log T s' rs' sz \<and> ckpt_ok rs' \<and> kv_of rs' = kv_of rs \<and>
    kv_ready s' \<and> \<not> kv_compacting s'"
proof (cases "is_file_backend s")
  case True
  then have T: "T = {}" using assms(6) by simp
  show ?thesis
  proof (cases "kv_ckpt_dirty s")
    case False
    then show ?thesis using True assms by (auto simp: flush_opportunistic_with_def)
  next
    case dirty: True
    have "log_len rs + 24 \<le> MAX_VLEN" using assms(5) by (simp add: gc_room_def)
    from store_write_ckpt [OF assms(1) [unfolded T] assms(3) this] assms(2) obtain res s1 rs' where
      w: "write_ckpt ops s = (res, s1)" "store_log {} s1 rs' sz" "kv_of rs' = kv_of rs" "kv_env s1 = kv_env s" "ckpt_ok rs'" by blast
    have "kv_ready s1" "\<not> kv_compacting s1" using w(4) assms(3,4) by (simp_all add: kv_env_def)
    then show ?thesis using True dirty assms(3,4) w T by (cases res) (auto simp: flush_opportunistic_with_def)
  qed
next
  case False
  from store_maybe_gc [OF assms(1-5)] obtain res s1 rs' where
    g: "maybe_gc_with (compact_log ops) s = (res, s1)" "store_log T s1 rs' sz" "ckpt_ok rs'" "kv_of rs' = kv_of rs" "kv_env s1 = kv_env s" by blast
  have r: "kv_ready s1" "\<not> kv_compacting s1" using g(5) assms(3,4) by (simp_all add: kv_env_def)
  have "store_log T (s1\<lparr>kv_hw_latched := x\<rparr>) rs' sz" for x using g(2) by (simp add: store_log_def flash_log_def holds_def)
  then show ?thesis using False assms(1-4) g(1-4) r
    by (cases "\<not> gc_due s \<or> \<not> gc_allowed s"; cases "compactions (kv_stats s1) = compactions (kv_stats s)")
      (auto simp: flush_opportunistic_with_def)
qed

lemma store_high_water:
  assumes "store_log T s rs sz" "ckpt_ok rs" "kv_ready s" "\<not> kv_compacting s" "gc_room (log_len rs) sz"
  shows "\<exists>rs'. store_log T (maybe_high_water_flush ops s) rs' sz \<and> ckpt_ok rs' \<and> kv_of rs' = kv_of rs \<and>
    kv_ready (maybe_high_water_flush ops s) \<and> \<not> kv_compacting (maybe_high_water_flush ops s)"
proof (cases "kv_append s \<le> HIGH_WATER \<or> kv_hw_latched s \<or> \<not> gc_allowed s")
  case True
  have "store_log T (s\<lparr>kv_hw_latched := True\<rparr>) rs sz" using assms(1) by (simp add: store_log_def flash_log_def holds_def)
  then show ?thesis using True assms(1-4) unfolding maybe_high_water_flush_def maybe_high_water_flush_with_def by auto
next
  case False
  then have "\<not> is_file_backend s" by (simp add: gc_allowed_def)
  with store_flush [OF assms] False assms(4) show ?thesis unfolding maybe_high_water_flush_def maybe_high_water_flush_with_def by auto
qed

lemma gc_room_mono: "gc_room b sz \<Longrightarrow> a \<le> b \<Longrightarrow> gc_room a sz"
  by (simp add: gc_room_def)

text \<open>An append and the flush after it.\<close>

lemma put_fresh:
  assumes "store_log {} s rs sz" "ckpt_ok rs" "kv_ready s" "\<not> kv_compacting s" "rec_ok (LogRec True k v)" "log_index rs k = None" "k \<noteq> CKPT_KEY"
    "gc_room (log_len rs + record_size (length k) (length v)) sz"
  shows "\<exists>s1 s' rs'. put_raw ops k v s = (Inr (), s1) \<and> s' = (if k \<noteq> GC_LOCK_KEY then maybe_high_water_flush ops s1 else s1) \<and>
    store_log (if v = [] then {k} else {}) s' rs' sz \<and> ckpt_ok rs' \<and> kv_of rs' = (kv_of rs)(k := (if v = [] then None else Some v)) \<and>
    kv_ready s' \<and> \<not> kv_compacting s'"
proof -
  have "log_len rs + record_size (length k) (length v) \<le> sz" using assms(8) by (simp add: gc_room_def)
  from store_put_raw [OF assms(1,5) _ this] assms(6) obtain s1 where
    p: "put_raw ops k v s = (Inr (), s1)" "store_log (if v = [] then {k} else {}) s1 (rs @ [LogRec True k v]) sz" "kv_env s1 = kv_env s" by auto
  have r: "kv_ready s1" "\<not> kv_compacting s1" using p(3) assms(3,4) by (simp_all add: kv_env_def)
  have c: "ckpt_ok (rs @ [LogRec True k v])" using ckpt_ok_snoc [OF assms(2)] assms(7) by simp
  have "gc_room (log_len (rs @ [LogRec True k v])) sz" using assms(8) by (simp add: rec_len_def)
  from store_high_water [OF p(2) c r this] kv_of_put [OF assms(7), of rs v] p(1,2) c r show ?thesis by auto
qed

lemma kv_inv_get:
  assumes "kv_inv s m sz" "k \<noteq> CKPT_KEY"
  shows "\<exists>s'. tv_get ops k s = (case m k of None \<Rightarrow> Inl ''missing'' | Some v \<Rightarrow> Inr v, s') \<and> kv_inv s' m sz"
proof -
  from assms(1) obtain rs where rs: "store_log {} s rs sz" "ckpt_ok rs" "kv_of rs = m" and r: "kv_ready s" "\<not> kv_compacting s" by (auto simp: kv_inv_def)
  from store_get [OF rs(1) r(1) assms(2)] obtain s' where
    s': "tv_get ops k s = (case log_kv rs k of None \<Rightarrow> Inl ''missing'' | Some v \<Rightarrow> Inr v, s')" "store_log {} s' rs sz" "kv_env s' = kv_env s" by blast
  have "log_kv rs k = m k" using rs(3) assms(2) by (auto simp: kv_of_def)
  moreover have "kv_inv s' m sz" using s'(2,3) rs(2,3) r by (auto simp: kv_inv_def kv_env_def)
  ultimately show ?thesis using s'(1) by simp
qed

text \<open>Dropping the old record of a key, if the index has one.\<close>

lemma drop_old:
  assumes "kv_inv s m sz" "k \<noteq> CKPT_KEY"
  shows "\<exists>rs. store_log {} (if bt_contains (kv_index s) k then snd (invalidate_key ops k s) else s) rs sz \<and> ckpt_ok rs \<and>
    kv_of rs = m(k := None) \<and> log_index rs k = None \<and> log_len rs = kv_append s \<and>
    kv_env (if bt_contains (kv_index s) k then snd (invalidate_key ops k s) else s) = kv_env s"
proof -
  from assms(1) obtain rs where rs: "store_log {} s rs sz" "ckpt_ok rs" "kv_of rs = m" and r: "kv_ready s" by (auto simp: kv_inv_def)
  have a: "kv_append s = log_len rs" "idx_for {} (bt_get (kv_index s)) rs" using rs(1) by (simp_all add: store_log_def)
  show ?thesis
  proof (cases "bt_contains (kv_index s) k")
    case True
    from store_invalidate [OF rs(1,2) r assms(2) True] obtain s1 rs1 where
      s1: "invalidate_key ops k s = (Inr (), s1)" "store_log {} s1 rs1 sz" "ckpt_ok rs1" "log_kv rs1 = (log_kv rs)(k := None)"
        "log_len rs1 = log_len rs" "kv_env s1 = kv_env s" by blast
    have "kv_of rs1 = m(k := None)" using s1(4) rs(3) by (auto simp: kv_of_def)
    moreover have "log_index rs1 k = None" using s1(4) by (simp add: log_index_kv)
    ultimately show ?thesis using True s1 a(1) by (intro exI [of _ rs1]) simp
  next
    case False
    then have n: "log_index rs k = None" using idx_for_None [OF a(2) assms(2)] by (simp add: bt_contains_def)
    then have "m k = None" using rs(3) assms(2) log_index_kv by (auto simp: kv_of_def)
    then show ?thesis using False rs n a(1) by (intro exI [of _ rs]) (simp add: fun_upd_idem)
  qed
qed

lemma kv_inv_put:
  assumes "kv_inv s m sz" "k \<noteq> CKPT_KEY" "rec_ok (LogRec True k v)" "gc_room (kv_append s + record_size (length k) (length v)) sz" "v \<noteq> []"
  shows "\<exists>s'. tv_put ops k v s = (Inr (), s') \<and> kv_inv s' (m(k \<mapsto> v)) sz"
proof -
  have r: "kv_ready s" "\<not> kv_compacting s" using assms(1) by (simp_all add: kv_inv_def)
  let ?s0 = "if bt_contains (kv_index s) k then snd (invalidate_key ops k s) else s"
  from drop_old [OF assms(1,2)] obtain rs where
    d: "store_log {} ?s0 rs sz" "ckpt_ok rs" "kv_of rs = m(k := None)" "log_index rs k = None" "log_len rs = kv_append s" "kv_env ?s0 = kv_env s" by blast
  have r0: "kv_ready ?s0" "\<not> kv_compacting ?s0" using d(6) r by (simp_all add: kv_env_def split: if_splits)
  have "gc_room (log_len rs + record_size (length k) (length v)) sz" using assms(4) d(5) by simp
  from put_fresh [OF d(1,2) r0 assms(3) d(4) assms(2) this] assms(5) obtain s1 s' rs' where
    p: "put_raw ops k v ?s0 = (Inr (), s1)" "s' = (if k \<noteq> GC_LOCK_KEY then maybe_high_water_flush ops s1 else s1)" "store_log {} s' rs' sz"
      "ckpt_ok rs'" "kv_of rs' = (kv_of rs)(k \<mapsto> v)" "kv_ready s'" "\<not> kv_compacting s'" by auto
  have "tv_put ops k v s = (Inr (), s')" unfolding tv_put_def Let_def using r(1) assms(2) p(1,2) by simp
  then show ?thesis using p(3-7) d(3) by (auto simp: kv_inv_def)
qed

text \<open>A value that does not fit: the old one is gone all the same.\<close>

lemma kv_inv_put_oob:
  assumes "kv_inv s m sz" "k \<noteq> CKPT_KEY" "sz < kv_append s + record_size (length k) (length v)"
  shows "\<exists>s'. tv_put ops k v s = (Inl ''oob'', s') \<and> kv_inv s' (m(k := None)) sz"
proof -
  have r: "kv_ready s" "\<not> kv_compacting s" using assms(1) by (simp_all add: kv_inv_def)
  let ?s0 = "if bt_contains (kv_index s) k then snd (invalidate_key ops k s) else s"
  from drop_old [OF assms(1,2)] obtain rs where
    d: "store_log {} ?s0 rs sz" "ckpt_ok rs" "kv_of rs = m(k := None)" "log_len rs = kv_append s" "kv_env ?s0 = kv_env s" by blast
  have "put_raw ops k v ?s0 = (Inl ''oob'', ?s0)" using store_put_raw_oob [OF d(1)] assms(3) d(4) by simp
  then have "tv_put ops k v s = (Inl ''oob'', ?s0)" unfolding tv_put_def Let_def using r(1) assms(2) by simp
  moreover have "kv_ready ?s0" "\<not> kv_compacting ?s0" using d(5) r by (simp_all add: kv_env_def split: if_splits)
  then have "kv_inv ?s0 (m(k := None)) sz" unfolding kv_inv_def using d(1-3) by blast
  ultimately show ?thesis by blast
qed

lemma kv_inv_delete:
  assumes "kv_inv s m sz" "k \<noteq> CKPT_KEY" "rec_ok (LogRec True k [])" "gc_room (kv_append s + record_size (length k) 0) sz"
  shows "\<exists>s'. tv_delete ops k s = (Inr (), s') \<and> kv_inv s' (m(k := None)) sz"
proof -
  have r: "kv_ready s" "\<not> kv_compacting s" using assms(1) by (simp_all add: kv_inv_def)
  from assms(1) obtain rs where rs: "store_log {} s rs sz" "ckpt_ok rs" "kv_of rs = m" by (auto simp: kv_inv_def)
  show ?thesis
  proof (cases "bt_contains (kv_index s) k")
    case True
    from store_invalidate [OF rs(1,2) r(1) assms(2) True] obtain s1 rs1 where
      s1: "invalidate_key ops k s = (Inr (), s1)" "store_log {} s1 rs1 sz" "ckpt_ok rs1" "log_kv rs1 = (log_kv rs)(k := None)" "kv_env s1 = kv_env s" by blast
    have "kv_of rs1 = m(k := None)" using s1(4) rs(3) by (auto simp: kv_of_def)
    then show ?thesis using s1 r by (auto simp: tv_delete_def kv_inv_def kv_env_def)
  next
    case False
    then have inv: "invalidate_key ops k s = (Inl ''missing'', s)" using r(1) by (simp add: invalidate_key_def bt_contains_def)
    have "idx_for {} (bt_get (kv_index s)) rs" "bt_get (kv_index s) k = None" using rs(1) False by (simp_all add: store_log_def bt_contains_def)
    from idx_for_None [OF this(1) assms(2) this(2)] have n: "log_index rs k = None" .
    have "gc_room (log_len rs + record_size (length k) (length ([] :: bytes))) sz" using assms(4) rs(1) by (simp add: store_log_def)
    from put_fresh [OF rs(1,2) r assms(3) n assms(2) this] obtain s1 s' rs' where
      p: "put_raw ops k [] s = (Inr (), s1)" "s' = (if k \<noteq> GC_LOCK_KEY then maybe_high_water_flush ops s1 else s1)" "store_log {k} s' rs' sz"
        "ckpt_ok rs'" "kv_of rs' = (kv_of rs)(k := None)" "kv_ready s'" "\<not> kv_compacting s'" by auto
    let ?s = "s'\<lparr>kv_index := bt_remove k (kv_index s')\<rparr>"
    have "tv_delete ops k s = (Inr (), ?s)" using inv False r(1) p(1,2) by (simp add: tv_delete_def tv_put_def Let_def)
    moreover have "kv_of rs' k = None" using p(5) by simp
    then have "log_index rs' k = None" using assms(2) by (simp add: log_index_kv kv_of_def)
    then have "idx_for {} (bt_get (kv_index ?s)) rs'"
      using idx_for_remove [of "{k}" "bt_get (kv_index s')" rs' k] p(3) bt_get_removed [of k "kv_index s'"] by (simp add: store_log_def)
    then have "store_log {} ?s rs' sz" using p(3) by (simp add: store_log_def flash_log_def holds_def)
    ultimately show ?thesis using p(4-7) rs(3) by (auto simp: kv_inv_def)
  qed
qed

lemma kv_inv_compact:
  assumes "kv_inv s m sz" "gc_room (kv_append s) sz"
  shows "\<exists>s'. compact_log ops s = (Inr (), s') \<and> kv_inv s' m sz"
proof -
  from assms(1) obtain rs where rs: "store_log {} s rs sz" "kv_of rs = m" and r: "kv_ready s" "\<not> kv_compacting s" by (auto simp: kv_inv_def)
  have "gc_room (log_len rs) sz" using assms(2) rs(1) by (simp add: store_log_def)
  from store_compact [OF rs(1) r this] obtain s' rs' where
    c: "compact_log ops s = (Inr (), s')" "store_log {} s' rs' sz" "ckpt_ok rs'" "kv_of rs' = m" "kv_env s' = kv_env s" using rs(2) by blast
  have "kv_ready s'" "\<not> kv_compacting s'" using c(5) r by (simp_all add: kv_env_def)
  then show ?thesis using c(1-4) unfolding kv_inv_def by blast
qed

lemma kv_inv_flush:
  assumes "kv_inv s m sz" "gc_room (kv_append s) sz"
  shows "\<exists>b s'. flush_opportunistic ops s = (b, s') \<and> kv_inv s' m sz"
proof -
  from assms(1) obtain rs where rs: "store_log {} s rs sz" "ckpt_ok rs" "kv_of rs = m" and r: "kv_ready s" "\<not> kv_compacting s" by (auto simp: kv_inv_def)
  have "gc_room (log_len rs) sz" using assms(2) rs(1) by (simp add: store_log_def)
  from store_flush [OF rs(1,2) r this] rs(3) show ?thesis by (auto simp: kv_inv_def flush_opportunistic_def)
qed

lemma flash_inv_mount:
  assumes "flash_inv s m sz" "clock_within mc" "sz < 2 ^ 32" "\<not> kv_compacting s"
  shows "\<exists>s'. mount ops ini mc s = (Inr (), s') \<and> kv_inv s' m sz"
proof -
  from assms(1) obtain rs where rs: "flash_log s rs sz" "ckpt_ok rs" "kv_of rs = m" by (auto simp: flash_inv_def)
  from mount_log [OF rs(1,2) assms(2,3), of ini] obtain s' where
    "mount ops ini mc s = (Inr (), s')" "store_log {} s' rs sz" "kv_ready s'" "kv_compacting s' = kv_compacting s" by blast
  then show ?thesis using rs(2,3) assms(4) unfolding kv_inv_def by auto
qed

lemma blank_flash_inv:
  assumes "kv_flash s = Some f" "healthy f" "blank (contents f)"
  shows "flash_inv s Map.empty (length (contents f))"
proof -
  have "flash_log s [] (length (contents f))" using assms by (auto simp: flash_log_def holds_def log_wf_def)
  moreover have "ckpt_ok []" by (simp add: ckpt_ok_def)
  moreover have "kv_of [] = Map.empty" by (auto simp: kv_of_def)
  ultimately show ?thesis unfolding flash_inv_def by blast
qed

end

end
