(* ===== verification/TickvProps.thy ===== *)
theory TickvProps
  imports TickvGc
begin

text \<open>
  The store as a whole: sequences of operations and power losses against a plain map, and what happens outside the conditions under which the two agree.
\<close>

section \<open>Sequences of operations\<close>

datatype kv_op = OpPut bytes bytes | OpDelete bytes | OpGet bytes | OpCkpt | OpCompact | OpFlush | OpReboot mount_clock

text \<open>A power loss: memory starts again from the initial values of the statics, the flash keeps its contents.\<close>

definition power_cycle :: "'f kv \<Rightarrow> 'f kv" where
  "power_cycle s = (tickv_new s)\<lparr>kv_installed := True, kv_compacting := False, kv_skipped := 0, kv_skipped_total := 0, kv_gc_suspended := False\<rparr>"

definition done_answer :: "'r res \<times> 's \<Rightarrow> bytes option res \<times> 's" where
  "done_answer p = (case p of (Inl e, s) \<Rightarrow> (Inl e, s) | (Inr _, s) \<Rightarrow> (Inr None, s))"

fun kv_exec :: "'f flash_ops \<Rightarrow> string \<times> 'f \<Rightarrow> kv_op \<Rightarrow> 'f kv \<Rightarrow> bytes option res \<times> 'f kv" where
  "kv_exec ops ini (OpPut k v) s = done_answer (tv_put ops k v s)"
| "kv_exec ops ini (OpDelete k) s = done_answer (tv_delete ops k s)"
| "kv_exec ops ini (OpGet k) s = (case tv_get ops k s of (Inl e, s) \<Rightarrow> (Inl e, s) | (Inr v, s) \<Rightarrow> (Inr (Some v), s))"
| "kv_exec ops ini OpCkpt s = done_answer (write_ckpt ops s)"
| "kv_exec ops ini OpCompact s = done_answer (compact_log ops s)"
| "kv_exec ops ini OpFlush s = (Inr None, snd (flush_opportunistic ops s))"
| "kv_exec ops ini (OpReboot mc) s = done_answer (mount ops ini mc (power_cycle s))"

fun kv_run :: "'f flash_ops \<Rightarrow> string \<times> 'f \<Rightarrow> kv_op list \<Rightarrow> 'f kv \<Rightarrow> bytes option res list \<times> 'f kv" where
  "kv_run ops ini [] s = ([], s)"
| "kv_run ops ini (c # cs) s = (case kv_exec ops ini c s of (a, s) \<Rightarrow> (case kv_run ops ini cs s of (as, s) \<Rightarrow> (a # as, s)))"

text \<open>The same operations on a map; maintenance and power losses do nothing.\<close>

fun spec_exec :: "kv_op \<Rightarrow> (bytes \<rightharpoonup> bytes) \<Rightarrow> bytes option res \<times> (bytes \<rightharpoonup> bytes)" where
  "spec_exec (OpPut k v) m = (Inr None, m(k \<mapsto> v))"
| "spec_exec (OpDelete k) m = (Inr None, m(k := None))"
| "spec_exec (OpGet k) m = (case m k of None \<Rightarrow> Inl ''missing'' | Some v \<Rightarrow> Inr (Some v), m)"
| "spec_exec _ m = (Inr None, m)"

fun spec_run :: "kv_op list \<Rightarrow> (bytes \<rightharpoonup> bytes) \<Rightarrow> bytes option res list \<times> (bytes \<rightharpoonup> bytes)" where
  "spec_run [] m = ([], m)"
| "spec_run (c # cs) m = (case spec_exec c m of (a, m) \<Rightarrow> (case spec_run cs m of (as, m) \<Rightarrow> (a # as, m)))"

text \<open>
  The conditions: keys other than the checkpoint's, UTF-8 and at most 4096 bytes; values not empty and at most 2 MB; a log that
  fills less than half of the flash; scans that end in time.
\<close>

definition flash_size :: "'f flash_ops \<Rightarrow> 'f kv \<Rightarrow> nat" where
  "flash_size ops s = (case kv_flash s of None \<Rightarrow> 0 | Some f \<Rightarrow> fl_size ops f)"

fun op_fits :: "'f flash_ops \<Rightarrow> kv_op \<Rightarrow> 'f kv \<Rightarrow> bool" where
  "op_fits ops (OpPut k v) s \<longleftrightarrow> k \<noteq> CKPT_KEY \<and> from_utf8 k \<and> length k \<le> MAX_KLEN \<and> v \<noteq> [] \<and> length v \<le> MAX_VLEN \<and>
     gc_room (kv_append s + record_size (length k) (length v)) (flash_size ops s)"
| "op_fits ops (OpDelete k) s \<longleftrightarrow> k \<noteq> CKPT_KEY \<and> from_utf8 k \<and> length k \<le> MAX_KLEN \<and>
     gc_room (kv_append s + record_size (length k) 0) (flash_size ops s)"
| "op_fits ops (OpGet k) s \<longleftrightarrow> k \<noteq> CKPT_KEY"
| "op_fits ops (OpReboot mc) s \<longleftrightarrow> clock_within mc"
| "op_fits ops _ s \<longleftrightarrow> gc_room (kv_append s) (flash_size ops s)"

fun run_fits :: "'f flash_ops \<Rightarrow> string \<times> 'f \<Rightarrow> kv_op list \<Rightarrow> 'f kv \<Rightarrow> bool" where
  "run_fits ops ini [] s \<longleftrightarrow> True"
| "run_fits ops ini (c # cs) s \<longleftrightarrow> op_fits ops c s \<and> run_fits ops ini cs (snd (kv_exec ops ini c s))"

context flash_controller
begin

lemma kv_inv_size: "kv_inv s m sz \<Longrightarrow> flash_size ops s = sz"
  using size_contents by (auto simp: kv_inv_def store_log_def flash_log_def holds_def flash_size_def)

lemma kv_inv_ckpt:
  assumes "kv_inv s m sz" "gc_room (kv_append s) sz"
  shows "\<exists>s'. write_ckpt ops s = (Inr (), s') \<and> kv_inv s' m sz"
proof -
  from assms(1) obtain rs where rs: "store_log {} s rs sz" "kv_of rs = m" and r: "kv_ready s" "\<not> kv_compacting s" by (auto simp: kv_inv_def)
  have room: "log_len rs + 24 \<le> MAX_VLEN" "log_len rs + log_len rs + 580 \<le> sz" using assms(2) rs(1) by (simp_all add: store_log_def gc_room_def)
  from store_write_ckpt [OF rs(1) r(1) room(1)] room(2) obtain s' rs' where
    s': "write_ckpt ops s = (Inr (), s')" "store_log {} s' rs' sz" "kv_of rs' = kv_of rs" "kv_env s' = kv_env s" "ckpt_ok rs'"
    by (auto split: if_splits)
  have "kv_ready s'" "\<not> kv_compacting s'" using s'(4) r by (simp_all add: kv_env_def)
  then show ?thesis using s' rs(2) unfolding kv_inv_def by auto
qed

lemma exec_simulates:
  assumes "kv_inv s m sz" "op_fits ops c s" "sz < 2 ^ 32"
  shows "fst (kv_exec ops ini c s) = fst (spec_exec c m) \<and> kv_inv (snd (kv_exec ops ini c s)) (snd (spec_exec c m)) sz"
proof (cases c)
  case (OpPut k v)
  from kv_inv_put [OF assms(1), of k v] assms(2) kv_inv_size [OF assms(1)] show ?thesis
    by (auto simp: OpPut rec_ok_def done_answer_def)
next
  case (OpDelete k)
  from kv_inv_delete [OF assms(1), of k] assms(2) kv_inv_size [OF assms(1)] show ?thesis
    by (auto simp: OpDelete rec_ok_def done_answer_def)
next
  case (OpGet k)
  from kv_inv_get [OF assms(1), of k] assms(2) show ?thesis by (auto simp: OpGet split: option.split)
next
  case OpCkpt
  from kv_inv_ckpt [OF assms(1)] assms(2) kv_inv_size [OF assms(1)] show ?thesis by (auto simp: OpCkpt done_answer_def)
next
  case OpCompact
  from kv_inv_compact [OF assms(1)] assms(2) kv_inv_size [OF assms(1)] show ?thesis by (auto simp: OpCompact done_answer_def)
next
  case OpFlush
  from kv_inv_flush [OF assms(1)] assms(2) kv_inv_size [OF assms(1)] show ?thesis by (auto simp: OpFlush)
next
  case (OpReboot mc)
  have "flash_inv (power_cycle s) m sz" using kv_inv_flash [OF assms(1)] flash_inv_cong [of "power_cycle s" s] by (simp add: power_cycle_def tickv_new_def)
  from flash_inv_mount [OF this _ assms(3), of mc ini] assms(2) show ?thesis by (auto simp: OpReboot done_answer_def power_cycle_def)
qed

lemma run_simulates:
  assumes "kv_inv s m sz" "run_fits ops ini cs s" "sz < 2 ^ 32"
  shows "fst (kv_run ops ini cs s) = fst (spec_run cs m) \<and> kv_inv (snd (kv_run ops ini cs s)) (snd (spec_run cs m)) sz"
  using assms(1,2)
proof (induction cs arbitrary: s m)
  case (Cons c cs)
  from exec_simulates [OF Cons.prems(1) _ assms(3), of c ini] Cons.prems(2) have
    c: "fst (kv_exec ops ini c s) = fst (spec_exec c m)" "kv_inv (snd (kv_exec ops ini c s)) (snd (spec_exec c m)) sz" by simp_all
  from Cons.IH [OF c(2)] Cons.prems(2) c(1) show ?case by (simp add: case_prod_beta)
qed simp

lemma run_from_blank:
  assumes "kv_flash s = Some f" "healthy f" "blank (contents f)" "length (contents f) < 2 ^ 32" "run_fits ops ini (OpReboot mc # cs) s"
  shows "fst (kv_run ops ini (OpReboot mc # cs) s) = fst (spec_run (OpReboot mc # cs) Map.empty) \<and>
    kv_inv (snd (kv_run ops ini (OpReboot mc # cs) s)) (snd (spec_run (OpReboot mc # cs) Map.empty)) (length (contents f))"
proof -
  have "kv_flash (power_cycle s) = Some f" using assms(1) by (simp add: power_cycle_def tickv_new_def)
  from blank_flash_inv [OF this assms(2,3)] have "flash_inv (power_cycle s) Map.empty (length (contents f))" .
  from flash_inv_mount [OF this _ assms(4), of mc ini] assms(5) obtain s' where
    m: "mount ops ini mc (power_cycle s) = (Inr (), s')" "kv_inv s' Map.empty (length (contents f))" by (auto simp: power_cycle_def)
  have "run_fits ops ini cs s'" using assms(5) m(1) by (simp add: done_answer_def)
  from run_simulates [OF m(2) this assms(4)] m(1) show ?thesis by (simp add: done_answer_def case_prod_beta)
qed

end

lemma with_flash_append: "with_flash f s = (r, s') \<Longrightarrow> kv_append s' = kv_append s"
  by (auto simp: with_flash_def split: option.splits prod.splits)

lemma tv_get_append: "tv_get ops k s = (r, s') \<Longrightarrow> kv_append s' = kv_append s"
  unfolding tv_get_def Let_def
  by (auto dest!: with_flash_append split: if_splits option.splits prod.splits sum.splits)

section \<open>The store is a map\<close>

text \<open>
  C2.  The store is a durable map.  On every flash that satisfies the contract and starts blank, and for every sequence of puts, deletes, gets,
  compactions, idle flushes and power losses with remounts, within the stated limits, every answer is that of a plain map: a value once put is read back,
  through overwrites, checkpoints, compactions and crashes between operations, until it is overwritten or deleted.
\<close>

theorem store_is_a_map:
  assumes "flash_controller ops contents healthy" "kv_flash s = Some f" "healthy f" "blank (contents f)" "length (contents f) < 2 ^ 32"
    "run_fits ops ini (OpReboot mc # cs) s"
  shows "fst (kv_run ops ini (OpReboot mc # cs) s) = fst (spec_run (OpReboot mc # cs) Map.empty)"
  using flash_controller.run_from_blank [OF assms] by blast

definition demo_clock :: mount_clock where
  "demo_clock = \<lparr>mc_start = 0, mc_ckpt = (\<lambda>_. 0), mc_tail = (\<lambda>_. 0), mc_recover = (\<lambda>_. 0)\<rparr>"

definition demo_store :: "nat \<Rightarrow> ram_flash kv" where
  "demo_store sz = \<lparr>kv_index = [], kv_append = 0, kv_ready = False, kv_degraded = False, kv_backend = ''none'', kv_hw_latched = False,
     kv_ckpt_dirty = False, kv_stats = no_stats, kv_flash = Some (ram_new sz), kv_installed = False, kv_compacting = False, kv_skipped = 0,
     kv_skipped_total = 0, kv_gc_suspended = False\<rparr>"

lemma demo_clock_within: "clock_within demo_clock"
  by (simp add: clock_within_def demo_clock_def mount_scan_deadline_def mount_scan_expired_def)

lemma demo_store_blank:
  "kv_flash (demo_store sz) = Some (ram_new sz)" "blank (rf_data (ram_new sz))" "length (rf_data (ram_new sz)) = sz"
  by (simp_all add: demo_store_def ram_new_def blank_def)

text \<open>An empty volume mounts with an empty log.\<close>

lemma demo_mount:
  assumes "sz < 2 ^ 32"
  shows "\<exists>s. kv_exec ram_ops ini (OpReboot demo_clock) (demo_store sz) = (Inr None, s) \<and> kv_append s = 0 \<and> flash_size ram_ops s = sz"
proof -
  have "ram.flash_log (power_cycle (demo_store sz)) [] sz"
    using demo_store_blank [of sz] by (auto simp: ram.flash_log_def ram.holds_def power_cycle_def tickv_new_def log_wf_def)
  moreover have "ckpt_ok []" by (simp add: ckpt_ok_def)
  ultimately obtain s where s: "mount ram_ops ini demo_clock (power_cycle (demo_store sz)) = (Inr (), s)" "ram.store_log {} s [] sz"
    using ram.mount_log [OF _ _ demo_clock_within assms] by blast
  then have "kv_append s = 0" "flash_size ram_ops s = sz"
    by (auto simp: ram.store_log_def ram.flash_log_def ram.holds_def flash_size_def ram_ops_def ram_size_def)
  with s(1) show ?thesis by (simp add: done_answer_def)
qed

lemma demo_put_fits: "run_fits ram_ops ini [OpReboot demo_clock, OpPut [0x6B] [1, 2]] (demo_store 4096)"
proof -
  from demo_mount [of 4096 ini] obtain s where
    s: "kv_exec ram_ops ini (OpReboot demo_clock) (demo_store 4096) = (Inr None, s)" "kv_append s = 0" "flash_size ram_ops s = 4096" by auto
  then show ?thesis using demo_clock_within
    by (simp add: gc_room_def record_size_def HEADER_def MAX_KLEN_def MAX_VLEN_def CKPT_KEY_def bstr_def del: kv_exec.simps)
qed

theorem store_is_a_map_witness:
  "fst (kv_run ram_ops (''ram'', ram_new 512) [OpReboot demo_clock, OpPut [0x6B] [1, 2], OpGet [0x6B]] (demo_store 4096)) =
     [Inr None, Inr None, Inr (Some [1, 2])]"
proof -
  from demo_mount [of 4096 "(''ram'', ram_new 512)"] obtain s where
    s: "kv_exec ram_ops (''ram'', ram_new 512) (OpReboot demo_clock) (demo_store 4096) = (Inr None, s)" "kv_append s = 0" "flash_size ram_ops s = 4096" by auto
  have "run_fits ram_ops (''ram'', ram_new 512) [OpReboot demo_clock, OpPut [0x6B] [1, 2], OpGet [0x6B]] (demo_store 4096)"
    using s demo_clock_within
    by (simp add: gc_room_def record_size_def HEADER_def MAX_KLEN_def MAX_VLEN_def CKPT_KEY_def bstr_def del: kv_exec.simps)
  then show ?thesis
    using store_is_a_map [OF ram.flash_controller_axioms demo_store_blank(1) TrueI demo_store_blank(2), of 4096 "(''ram'', ram_new 512)" demo_clock
        "[OpPut [0x6B] [1, 2], OpGet [0x6B]]"]
    by (simp add: demo_store_blank(3) del: kv_run.simps kv_exec.simps)
qed

section \<open>Outside the limits\<close>

text \<open>
  C38.  A put that does not fit loses the old value.  \<^verbatim>\<open>put\<close> invalidates the old record before it appends the new one, so when the flash is full it
  returns the error, and the key, which had a value, is missing from then on.
\<close>

theorem failed_put_loses_value:
  assumes "flash_controller ops contents healthy" "kv_flash s = Some f" "healthy f" "blank (contents f)" "length (contents f) < 2 ^ 32"
    "run_fits ops ini (OpReboot mc # cs) s" "s' = snd (kv_run ops ini (OpReboot mc # cs) s)"
    "snd (spec_run (OpReboot mc # cs) Map.empty) k = Some old" "k \<noteq> CKPT_KEY"
    "length (contents f) < kv_append s' + record_size (length k) (length v)"
  shows "fst (kv_run ops ini [OpGet k, OpPut k v, OpGet k] s') = [Inr (Some old), Inl ''oob'', Inl ''missing'']"
proof -
  let ?sz = "length (contents f)"
  let ?inv = "flash_controller.kv_inv contents healthy"
  from flash_controller.run_from_blank [OF assms(1-6)] have
    i: "?inv s' (snd (spec_run (OpReboot mc # cs) Map.empty)) ?sz" unfolding assms(7) by blast
  from flash_controller.kv_inv_get [OF assms(1) i assms(9)] assms(8) obtain s1 where
    s1: "tv_get ops k s' = (Inr old, s1)" "?inv s1 (snd (spec_run (OpReboot mc # cs) Map.empty)) ?sz" by auto
  have "kv_append s1 = kv_append s'" using s1(1) by (rule tv_get_append)
  then have "?sz < kv_append s1 + record_size (length k) (length v)" using assms(10) by simp
  from flash_controller.kv_inv_put_oob [OF assms(1) s1(2) assms(9) this] obtain s2 where
    s2: "tv_put ops k v s1 = (Inl ''oob'', s2)" "?inv s2 ((snd (spec_run (OpReboot mc # cs) Map.empty))(k := None)) ?sz" by blast
  from flash_controller.kv_inv_get [OF assms(1) s2(2) assms(9)] obtain s3 where "tv_get ops k s2 = (Inl ''missing'', s3)" by auto
  with s1(1) s2(1) show ?thesis by (simp add: done_answer_def)
qed

theorem failed_put_loses_value_witness:
  "fst (kv_run ram_ops (''ram'', ram_new 512) [OpGet [0x6B], OpPut [0x6B] (replicate 4096 0), OpGet [0x6B]]
      (snd (kv_run ram_ops (''ram'', ram_new 512) [OpReboot demo_clock, OpPut [0x6B] [1, 2]] (demo_store 4096)))) =
     [Inr (Some [1, 2]), Inl ''oob'', Inl ''missing'']"
proof -
  let ?ini = "(''ram'', ram_new 512)" and ?cs = "[OpPut [0x6B] [1, 2]]"
  note fits = demo_put_fits [of ?ini]
  have "length (rf_data (ram_new 4096)) < 2 ^ 32" by (simp add: demo_store_blank(3))
  moreover have "snd (spec_run (OpReboot demo_clock # ?cs) Map.empty) [0x6B] = Some [1, 2]" by simp
  moreover have "[0x6B] \<noteq> CKPT_KEY" by (simp add: CKPT_KEY_def bstr_def)
  moreover have "length (rf_data (ram_new 4096)) <
      kv_append (snd (kv_run ram_ops ?ini (OpReboot demo_clock # ?cs) (demo_store 4096))) + record_size (length [0x6B :: u8]) (length (replicate 4096 (0 :: u8)))"
    using record_size_ge [of 1 4096] by (simp add: demo_store_blank(3) del: kv_run.simps)
  ultimately show ?thesis
    by (rule failed_put_loses_value [OF ram.flash_controller_axioms demo_store_blank(1) TrueI demo_store_blank(2) _ fits refl])
qed

text \<open>
  C39.  The store never mounts on an NVMe disk.  The first thing every scan of the log reads is a 16-byte header, and the NVMe backend refuses transfers that
  are not whole sectors: on every disk, whatever it holds, \<^verbatim>\<open>mount\<close> returns the error.
\<close>

theorem nvme_mount_fails:
  assumes "kv_flash s = Some fs" "active fs = NvmeBacked r" "0 < total_lbas r" "clock_within mc"
  shows "fst (mount (active_ops bd) ini mc s) = Inl ''unaligned''"
proof -
  let ?ops = "active_ops bd" and ?dl = "mount_scan_deadline (mc_start mc)"
  have sz: "16 \<le> fl_size ?ops fs" using assms(2,3) by (simp add: active_ops_def active_size_def nvme_size_def)
  have rd: "fl_read ?ops 0 16 fs = (Inl ''unaligned'', fs)" using assms(2) by (simp add: active_ops_def active_read_def nvme_read_def)
  have w: "with_flash (fl_read ?ops 0 HEADER) t = (Inl ''unaligned'', t)" if "kv_flash t = Some fs" for t
    using that rd by (simp add: with_flash_def HEADER_def)
  have c: "ckpt_scan ?ops ?dl (mc_ckpt mc) (fl_size ?ops fs) 0 None t = (Inl ''unaligned'', t)" if "kv_flash t = Some fs" for t
    using w [OF that] sz assms(4) by (subst ckpt_scan.simps) (simp add: HEADER_def clock_within_def)
  have r: "fst (recover ?ops ?dl (mc_recover mc) t) = Inl ''unaligned''" if "kv_flash t = Some fs" for t
  proof -
    let ?t = "t\<lparr>kv_index := [], kv_append := 0, kv_stats := (kv_stats t)\<lparr>live_bytes := 0, dead_bytes := 0\<rparr>\<rparr>"
    have "scan_range_loop ?ops ?dl (mc_recover mc) (fl_size ?ops fs) 0 ?t = (Inl ''unaligned'', ?t)"
      using w [of ?t] that sz assms(4) by (subst scan_range_loop.simps) (simp add: HEADER_def clock_within_def)
    then show ?thesis using that by (simp add: recover_def scan_range_def Let_def)
  qed
  let ?s0 = "s\<lparr>kv_backend := fl_kind ?ops fs, kv_degraded := False\<rparr>"
  have "try_mount_from_ckpt ?ops ?dl mc ?s0 = (Inl ''unaligned'', ?s0\<lparr>kv_index := [], kv_append := 0\<rparr>)"
    using c [of "?s0\<lparr>kv_index := [], kv_append := 0\<rparr>"] assms(1) by (simp add: try_mount_from_ckpt_def Let_def)
  then show ?thesis using r [of "?s0\<lparr>kv_index := [], kv_append := 0\<rparr>"] assms(1)
    by (auto simp: mount_def Let_def split: prod.split sum.split)
qed

lemma default_region_size: "total_lbas (nvme_default_region bd d) = 65536"
  by (simp add: nvme_default_region_def Let_def)

definition nvme_store :: "bytes flash_state kv" where
  "nvme_store = \<lparr>kv_index = [], kv_append = 0, kv_ready = False, kv_degraded = False, kv_backend = ''none'', kv_hw_latched = False,
     kv_ckpt_dirty = False, kv_stats = no_stats,
     kv_flash = Some \<lparr>active = NvmeBacked (nvme_default_region mock_devs (replicate 1024 0)), devs = replicate 1024 0\<rparr>, kv_installed = False,
     kv_compacting = False, kv_skipped = 0, kv_skipped_total = 0, kv_gc_suspended = False\<rparr>"

theorem nvme_mount_fails_witness:
  "fst (mount (active_ops mock_devs) (''nvme'', the (kv_flash nvme_store)) demo_clock nvme_store) = Inl ''unaligned''"
  by (rule nvme_mount_fails [where r = "nvme_default_region mock_devs (replicate 1024 0)" and fs = "the (kv_flash nvme_store)",
        OF _ _ _ demo_clock_within])
    (simp_all add: nvme_store_def default_region_size)

end
