(* ===== verification/TickvDefects.thy ===== *)
theory TickvDefects
  imports TickvProps
begin

text \<open>
  A compaction on a full flash, followed step by step: it copies the old checkpoint record along with the live records, and when the new checkpoint no longer
  fits, the copy is what the next mount restores.
\<close>

context flash_controller
begin

lemma put_small:
  assumes "store_log {} s rs sz" "kv_ready s" "bt_get (kv_index s) k = None" "k \<noteq> CKPT_KEY" "rec_ok (LogRec True k v)" "v \<noteq> []"
    "log_len rs + rec_len (LogRec True k v) \<le> sz" "log_len rs + rec_len (LogRec True k v) \<le> HIGH_WATER"
  shows "\<exists>s'. tv_put ops k v s = (Inr (), s') \<and> store_log {} s' (rs @ [LogRec True k v]) sz \<and> kv_env s' = kv_env s \<and>
    kv_index s' = bt_insert k (log_len rs) (kv_index s)"
proof -
  have "idx_for {} (bt_get (kv_index s)) rs" using assms(1) by (simp add: store_log_def)
  from idx_for_None [OF this assms(4,3)] assms(1) have a: "kv_append s = log_len rs" "log_index rs k = None" by (simp_all add: store_log_def)
  have "log_len rs + record_size (length k) (length v) \<le> sz" using assms(7) by (simp add: rec_len_def)
  from store_put_raw [OF assms(1,5) _ this] a assms(6) obtain s1 where
    s1: "put_raw ops k v s = (Inr (), s1)" "store_log {} s1 (rs @ [LogRec True k v]) sz" "kv_env s1 = kv_env s"
      "kv_index s1 = bt_insert k (log_len rs) (kv_index s)" by auto
  have "kv_append s1 \<le> HIGH_WATER" using s1(2) assms(8) by (simp add: store_log_def)
  then have "tv_put ops k v s = (Inr (), s1)"
    using assms(2,3) s1(1) by (simp add: tv_put_def Let_def bt_contains_def maybe_high_water_flush_def maybe_high_water_flush_with_def)
  then show ?thesis using s1 by blast
qed

lemma ckpt_exact:
  assumes "store_log {} s rs sz" "kv_ready s" "es = filter (\<lambda>(k, off). k \<noteq> CKPT_KEY) (kv_index s)" "c = LogRec True CKPT_KEY (ckpt_body (log_len rs) es)"
    "rec_ok c" "log_len rs + rec_len c \<le> sz"
  shows "\<exists>s'. write_ckpt ops s = (Inr (), s') \<and> store_log {} s' (rs @ [c]) sz \<and> kv_env s' = kv_env s \<and>
    kv_index s' = bt_insert CKPT_KEY (log_len rs) (kv_index s)"
proof -
  have a: "kv_append s = log_len rs" using assms(1) by (simp add: store_log_def)
  have ne: "ckpt_body (log_len rs) es \<noteq> []" by (simp add: ckpt_body_def bstr_def)
  have "log_len rs + record_size (length CKPT_KEY) (length (ckpt_body (log_len rs) es)) \<le> sz" using assms(4,6) by (simp add: rec_len_def)
  from store_put_raw [OF assms(1) assms(5) [unfolded assms(4)] _ this] a ne obtain s1 where
    s1: "put_raw ops CKPT_KEY (ckpt_body (kv_append s) es) s = (Inr (), s1)" "store_log {} s1 (rs @ [c]) sz" "kv_env s1 = kv_env s"
      "kv_index s1 = bt_insert CKPT_KEY (log_len rs) (kv_index s)" by (auto simp: assms(4))
  then have "write_ckpt ops s = (Inr (), s1\<lparr>kv_ckpt_dirty := False\<rparr>)" using assms(2,3) by (simp add: write_ckpt_def)
  moreover have "store_log {} (s1\<lparr>kv_ckpt_dirty := False\<rparr>) (rs @ [c]) sz" using s1(2) by (simp add: store_log_def flash_log_def holds_def)
  ultimately show ?thesis using s1(3,4) by (intro exI [of _ "s1\<lparr>kv_ckpt_dirty := False\<rparr>"]) simp
qed

lemma gather_step:
  assumes "store_log T s rs sz" "kv_ready s" "bt_get (kv_index s) k = Some off" "points_to rs off r" "lr_live r" "lr_val r \<noteq> []"
  shows "\<exists>s'. (\<forall>ks live t. gather_live ops ks s' = (live, t) \<longrightarrow> gather_live ops (k # ks) s = ((k, lr_val r) # live, t)) \<and> store_log T s' rs sz \<and>
    kv_env s' = kv_env s \<and> kv_index s' = kv_index s \<and> compactions (kv_stats s') = compactions (kv_stats s)"
proof -
  from get_entry [OF assms(1-4)] obtain s' where
    s': "tv_get ops k s = (Inr (lr_val r), s')" "store_log T s' rs sz" "kv_env s' = kv_env s"
      "compactions (kv_stats s') = compactions (kv_stats s)" "kv_index s' = kv_index s" using assms(5) by auto
  then show ?thesis using assms(6) by (intro exI [of _ s']) simp
qed

end

definition key_a :: bytes where "key_a = [0x61]"
definition key_b :: bytes where "key_b = [0x62]"

lemma keys_ab: "key_a \<noteq> CKPT_KEY" "key_b \<noteq> CKPT_KEY" "key_a < key_b" "key_b < CKPT_KEY" "key_a < CKPT_KEY"
  by (simp_all add: key_a_def key_b_def CKPT_KEY_def bstr_def)

text \<open>The records of the scenario; each takes one sector.\<close>

abbreviation rec_a :: "bytes \<Rightarrow> log_rec" where "rec_a va \<equiv> LogRec True key_a va"
abbreviation rec_b :: "bytes \<Rightarrow> log_rec" where "rec_b vb \<equiv> LogRec True key_b vb"

definition old_entries :: "(bytes, nat) btree" where
  "old_entries = [(key_a, 512), (key_b, 0)]"

definition rec_c :: log_rec where
  "rec_c = LogRec True CKPT_KEY (ckpt_body 1024 old_entries)"

lemma sector_size:
  assumes "k + v \<le> 480"
  shows "record_size k v = 512"
proof -
  define q where "q = (k + v + 15) div 16"
  have q: "q \<le> 30" using assms by (simp add: q_def)
  have "(16 + q * 16 + 511) div 512 = 1" by (rule div_nat_eqI) (use q in simp_all)
  then show ?thesis unfolding record_size_def HEADER_def Let_def q_def by simp
qed

lemma old_entries_ok: "entries_ok old_entries" "length (ckpt_body 1024 old_entries) = 46"
proof -
  show ok: "entries_ok old_entries"
    using keys_ab(3) by (simp add: entries_ok_def old_entries_def bt_wf_def key_a_def key_b_def MAX_KLEN_def)
  show "length (ckpt_body 1024 old_entries) = 46"
    by (simp add: length_ckpt_body [OF ok]) (simp add: old_entries_def key_a_def key_b_def)
qed

lemma points_to_mid: "points_to (pre @ r # post) (log_len pre) r"
  unfolding points_to_def by blast

lemma rec_sizes:
  assumes "length va \<le> 400" "length vb \<le> 400"
  shows "rec_len (rec_a va) = 512" "rec_len (rec_b vb) = 512" "rec_len rec_c = 512" "rec_ok (rec_a va)" "rec_ok (rec_b vb)" "rec_ok rec_c"
proof -
  show "rec_len (rec_a va) = 512" "rec_len (rec_b vb) = 512" using assms by (simp_all add: rec_len_def sector_size key_a_def key_b_def)
  show "rec_len rec_c = 512" using old_entries_ok(2) CKPT_KEY_ok(2) by (simp add: rec_len_def rec_c_def sector_size)
  show "rec_ok (rec_a va)" "rec_ok (rec_b vb)" using assms by (simp_all add: rec_ok_def key_a_def key_b_def MAX_KLEN_def MAX_VLEN_def)
  show "rec_ok rec_c" using old_entries_ok(2) CKPT_KEY_ok by (simp add: rec_ok_def rec_c_def MAX_KLEN_def MAX_VLEN_def)
qed

context flash_controller
begin

text \<open>The three writes: the log is \<open>b\<close>, \<open>a\<close>, checkpoint.\<close>

lemma scenario_writes:
  assumes "store_log {} s [] 1536" "kv_ready s" "kv_index s = []" "length va \<le> 400" "length vb \<le> 400" "va \<noteq> []" "vb \<noteq> []"
  shows "\<exists>s1 s2 s3. tv_put ops key_b vb s = (Inr (), s1) \<and> tv_put ops key_a va s1 = (Inr (), s2) \<and> write_ckpt ops s2 = (Inr (), s3) \<and>
    store_log {} s3 [rec_b vb, rec_a va, rec_c] 1536 \<and> kv_env s3 = kv_env s \<and> kv_index s3 = [(key_a, 512), (key_b, 0), (CKPT_KEY, 1024)]"
proof -
  note sz = rec_sizes [OF assms(4,5)]
  have e: "bt_get ([] :: (bytes, nat) btree) k = None" for k by simp
  from put_small [of s "[]" 1536 key_b vb] assms sz keys_ab e [of key_b] obtain s1 where
    s1: "tv_put ops key_b vb s = (Inr (), s1)" "store_log {} s1 [rec_b vb] 1536" "kv_env s1 = kv_env s" "kv_index s1 = [(key_b, 0)]"
    by (auto simp: HIGH_WATER_def)
  have "kv_ready s1" using kv_env_ready [OF s1(3)] assms(2) by simp
  moreover have "bt_get (kv_index s1) key_a = None" using keys_ab(3) by (simp add: s1(4) bt_get_def)
  ultimately obtain s2 where
    s2: "tv_put ops key_a va s1 = (Inr (), s2)" "store_log {} s2 [rec_b vb, rec_a va] 1536" "kv_env s2 = kv_env s1"
      "kv_index s2 = [(key_a, 512), (key_b, 0)]"
    using put_small [of s1 "[rec_b vb]" 1536 key_a va] s1(2,4) assms sz keys_ab by (auto simp: HIGH_WATER_def)
  have "kv_ready s2" using kv_env_ready [OF s2(3)] \<open>kv_ready s1\<close> by simp
  moreover have "old_entries = filter (\<lambda>(k, off). k \<noteq> CKPT_KEY) (kv_index s2)" using keys_ab by (simp add: s2(4) old_entries_def)
  moreover have "rec_c = LogRec True CKPT_KEY (ckpt_body (log_len [rec_b vb, rec_a va]) old_entries)" by (simp add: rec_c_def sz)
  moreover have "log_len [rec_b vb, rec_a va] + rec_len rec_c \<le> 1536" by (simp add: sz)
  ultimately obtain s3 where
    s3: "write_ckpt ops s2 = (Inr (), s3)" "store_log {} s3 ([rec_b vb, rec_a va] @ [rec_c]) 1536" "kv_env s3 = kv_env s2"
      "kv_index s3 = bt_insert CKPT_KEY (log_len [rec_b vb, rec_a va]) (kv_index s2)"
    using ckpt_exact [OF s2(2) _ _ _ sz(6)] by blast
  have "kv_index s3 = [(key_a, 512), (key_b, 0), (CKPT_KEY, 1024)]"
    using keys_ab unfolding s3(4) s2(4) by (auto simp: sz)
  then show ?thesis using s1 s2 s3 by auto
qed

text \<open>The compaction: the log becomes \<open>a\<close>, \<open>b\<close>, the old checkpoint, and there is no room for a new one.\<close>

lemma scenario_compact:
  assumes "store_log {} s [rec_b vb, rec_a va, rec_c] 1536" "kv_ready s" "\<not> kv_compacting s" "kv_index s = [(key_a, 512), (key_b, 0), (CKPT_KEY, 1024)]"
    "length va \<le> 400" "length vb \<le> 400" "va \<noteq> []" "vb \<noteq> []"
  shows "\<exists>s'. compact_log ops s = (Inl ''oob'', s') \<and> flash_log s' [rec_a va, rec_b vb, rec_c] 1536"
proof -
  note sz = rec_sizes [OF assms(5,6)]
  let ?rs = "[rec_b vb, rec_a va, rec_c]"
  have cv: "lr_live rec_c" "lr_val rec_c \<noteq> []" "lr_key rec_c = CKPT_KEY" by (simp_all add: rec_c_def ckpt_body_def bstr_def)
  have p: "points_to ?rs 512 (rec_a va)" "points_to ?rs 0 (rec_b vb)" "points_to ?rs 1024 rec_c"
    using points_to_mid [of "[rec_b vb]" "rec_a va" "[rec_c]"] points_to_mid [of "[]" "rec_b vb" "[rec_a va, rec_c]"]
      points_to_mid [of "[rec_b vb, rec_a va]" rec_c "[]"] sz by simp_all
  have i: "bt_get (kv_index s) key_a = Some 512" "bt_get (kv_index s) key_b = Some 0" "bt_get (kv_index s) CKPT_KEY = Some 1024"
    using keys_ab by (auto simp: assms(4) bt_get_def)
  from gather_step [OF assms(1,2) i(1) p(1)] assms(7) obtain s1 where
    s1: "\<forall>ks live t. gather_live ops ks s1 = (live, t) \<longrightarrow> gather_live ops (key_a # ks) s = ((key_a, va) # live, t)" "store_log {} s1 ?rs 1536"
      "kv_env s1 = kv_env s" "kv_index s1 = kv_index s" "compactions (kv_stats s1) = compactions (kv_stats s)" by auto
  have r1: "kv_ready s1" "bt_get (kv_index s1) key_b = Some 0" using kv_env_ready [OF s1(3)] assms(2) i(2) s1(4) by simp_all
  from gather_step [OF s1(2) r1 p(2)] assms(8) obtain s2 where
    s2: "\<forall>ks live t. gather_live ops ks s2 = (live, t) \<longrightarrow> gather_live ops (key_b # ks) s1 = ((key_b, vb) # live, t)" "store_log {} s2 ?rs 1536"
      "kv_env s2 = kv_env s1" "kv_index s2 = kv_index s1" "compactions (kv_stats s2) = compactions (kv_stats s1)" by auto
  have r2: "kv_ready s2" "bt_get (kv_index s2) CKPT_KEY = Some 1024" using kv_env_ready [OF s2(3)] r1(1) i(3) s1(4) s2(4) by simp_all
  from gather_step [OF s2(2) r2 p(3) cv(1,2)] obtain s3 where
    s3: "\<forall>ks live t. gather_live ops ks s3 = (live, t) \<longrightarrow> gather_live ops (CKPT_KEY # ks) s2 = ((CKPT_KEY, lr_val rec_c) # live, t)"
      "store_log {} s3 ?rs 1536" "kv_env s3 = kv_env s2" "compactions (kv_stats s3) = compactions (kv_stats s2)" by auto
  let ?live = "[(key_a, va), (key_b, vb), (CKPT_KEY, lr_val rec_c)]"
  have "gather_live ops [] s3 = ([], s3)" by simp
  with s3(1) have "gather_live ops [CKPT_KEY] s2 = ([(CKPT_KEY, lr_val rec_c)], s3)" by blast
  with s2(1) have "gather_live ops [key_b, CKPT_KEY] s1 = ([(key_b, vb), (CKPT_KEY, lr_val rec_c)], s3)" by blast
  with s1(1) have "gather_live ops [key_a, key_b, CKPT_KEY] s = (?live, s3)" by blast
  then have g: "gather_live ops (bt_keys (kv_index s)) s = (?live, s3)" by (simp only: assms(4) bt_keys_def list.map fst_conv)
  have b: "batch_log ?live = [rec_a va, rec_b vb, rec_c]" by (simp add: rec_c_def)
  have ok: "\<forall>(k, v) \<in> set ?live. rec_ok (LogRec True k v) \<and> v \<noteq> []" using sz assms(7,8) cv(2) by (auto simp: rec_c_def)
  have "log_len (batch_log ?live) \<le> 1536" "distinct (map fst ?live)" unfolding b using sz keys_ab by auto
  from compact_rewrite [OF assms(2,3) _ g s3(2) _ _ this(2) ok this(1)] s1(3,5) s2(3,5) s3(3,4) obtain s5 where
    s5: "store_log {} s5 [rec_a va, rec_b vb, rec_c] 1536" "kv_env s5 = kv_env (s\<lparr>kv_compacting := True\<rparr>)"
      "compact_log ops s = (case write_ckpt ops s5 of
        (Inl e, s6) \<Rightarrow> (Inl e, s6\<lparr>kv_compacting := False\<rparr>)
      | (Inr _, s6) \<Rightarrow> (Inr (), s6\<lparr>kv_compacting := False, kv_skipped := 0,
          kv_stats := (kv_stats s6)\<lparr>compactions := sat64 (compactions (kv_stats s6) + 1)\<rparr>\<rparr>))" unfolding b by auto
  have "kv_ready s5" using s5(2) assms(2) by (simp add: kv_env_def)
  moreover have "put_raw ops CKPT_KEY v s5 = (Inl ''oob'', s5)" for v
    by (rule store_put_raw_oob [OF s5(1)]) (simp add: sz)
  ultimately have "write_ckpt ops s5 = (Inl ''oob'', s5)" by (simp add: write_ckpt_def)
  then show ?thesis using s5(1,3) by (auto simp: store_log_def flash_log_def holds_def)
qed

text \<open>The next mount restores the old checkpoint: key \<open>a\<close> leads to \<open>b\<close>'s record.\<close>

lemma scenario_remount:
  assumes "flash_log s [rec_a va, rec_b vb, rec_c] 1536" "clock_within mc" "length va \<le> 400" "length vb \<le> 400"
  shows "\<exists>s1 s2. mount ops ini mc s = (Inr (), s1) \<and> tv_get ops key_a s1 = (Inr vb, s2)"
proof -
  note sz = rec_sizes [OF assms(3,4)]
  have p: "points_to [rec_a va, rec_b vb] 512 (rec_b vb)" "points_to [rec_a va, rec_b vb] 0 (rec_a va)" "points_to [rec_a va, rec_b vb, rec_c] 512 (rec_b vb)"
    using points_to_mid [of "[rec_a va]" "rec_b vb" "[]"] points_to_mid [of "[]" "rec_a va" "[rec_b vb]"]
      points_to_mid [of "[rec_a va]" "rec_b vb" "[rec_c]"] sz by simp_all
  have e: "\<forall>(k, off) \<in> set old_entries. \<exists>r. points_to [rec_a va, rec_b vb] off r" using p unfolding old_entries_def by auto
  have c: "lr_key rec_c = CKPT_KEY" "lr_val rec_c = ckpt_body (log_len [rec_a va, rec_b vb]) old_entries" by (simp_all add: rec_c_def sz)
  have l: "flash_log s ([rec_a va, rec_b vb] @ rec_c # []) 1536" using assms(1) by simp
  have oe: "old_entries = (key_a, 512) # [(key_b, 0)]" by (simp add: old_entries_def)
  from mount_restored [OF l c(1) _ old_entries_ok(1) e c(2) oe p(1) _ assms(2), of ini] obtain s1 where
    s1: "mount ops ini mc s = (Inr (), s1)" "flash_log s1 [rec_a va, rec_b vb, rec_c] 1536" "kv_ready s1" "bt_get (kv_index s1) = bt_get old_entries"
    by auto
  have "bt_get (kv_index s1) key_a = Some 512" unfolding s1(4) by (simp add: old_entries_def bt_get_def)
  from get_points [OF s1(2,3) this p(3)] s1(1) show ?thesis by auto
qed

lemma scenario_start:
  assumes "kv_flash s = Some f" "healthy f" "blank (contents f)" "length (contents f) = 1536" "clock_within mc"
  shows "\<exists>s'. mount ops ini mc (power_cycle s) = (Inr (), s') \<and> store_log {} s' [] 1536 \<and> kv_ready s' \<and> kv_index s' = [] \<and> \<not> kv_compacting s'"
proof -
  have "flash_log (power_cycle s) [] 1536" using assms by (auto simp: flash_log_def holds_def log_wf_def power_cycle_def tickv_new_def)
  moreover have "ckpt_ok []" by (simp add: ckpt_ok_def)
  ultimately obtain s' where s': "mount ops ini mc (power_cycle s) = (Inr (), s')" "store_log {} s' [] 1536" "kv_ready s'"
    "kv_compacting s' = kv_compacting (power_cycle s)" using mount_log [OF _ _ assms(5), of "power_cycle s" "[]" 1536 ini] by auto
  have "bt_get (kv_index s') = bt_get ([] :: (bytes, nat) btree)" using s'(2)
    by (intro ext) (auto simp: store_log_def idx_for_def entry_ok_def points_to_def split: option.split)
  moreover have "bt_wf (kv_index s')" "bt_wf ([] :: (bytes, nat) btree)" using s'(2) by (simp_all add: store_log_def bt_wf_def)
  ultimately have "kv_index s' = []" by (intro bt_ext) simp_all
  then show ?thesis using s' by (simp add: power_cycle_def)
qed

lemma scenario_run:
  assumes "kv_flash s = Some f" "healthy f" "blank (contents f)" "length (contents f) = 1536" "clock_within mc"
    "length va \<le> 400" "length vb \<le> 400" "va \<noteq> []" "vb \<noteq> []"
  shows "fst (kv_run ops ini [OpReboot mc, OpPut key_b vb, OpPut key_a va, OpCkpt, OpCompact, OpReboot mc, OpGet key_a] s) =
    [Inr None, Inr None, Inr None, Inr None, Inl ''oob'', Inr None, Inr (Some vb)]"
proof -
  from scenario_start [OF assms(1-5), of ini] obtain s0 where
    s0: "mount ops ini mc (power_cycle s) = (Inr (), s0)" "store_log {} s0 [] 1536" "kv_ready s0" "kv_index s0 = []" "\<not> kv_compacting s0" by blast
  from scenario_writes [OF s0(2-4) assms(6-9)] obtain s1 s2 s3 where
    s3: "tv_put ops key_b vb s0 = (Inr (), s1)" "tv_put ops key_a va s1 = (Inr (), s2)" "write_ckpt ops s2 = (Inr (), s3)"
      "store_log {} s3 [rec_b vb, rec_a va, rec_c] 1536" "kv_env s3 = kv_env s0" "kv_index s3 = [(key_a, 512), (key_b, 0), (CKPT_KEY, 1024)]" by blast
  have "kv_ready s3" "\<not> kv_compacting s3" using s3(5) s0(3,5) by (simp_all add: kv_env_def)
  from scenario_compact [OF s3(4) this s3(6) assms(6-9)] obtain s4 where
    s4: "compact_log ops s3 = (Inl ''oob'', s4)" "flash_log s4 [rec_a va, rec_b vb, rec_c] 1536" by blast
  have "flash_log (power_cycle s4) [rec_a va, rec_b vb, rec_c] 1536" using s4(2) by (simp add: flash_log_def holds_def power_cycle_def tickv_new_def)
  from scenario_remount [OF this assms(5-7), of ini] obtain s5 s6 where
    "mount ops ini mc (power_cycle s4) = (Inr (), s5)" "tv_get ops key_a s5 = (Inr vb, s6)" by blast
  then show ?thesis using s0(1) s3(1-3) s4(1) by (simp add: done_answer_def)
qed

end

text \<open>
  C37.  Compacting a nearly full log mixes values up.  The compaction copies the old checkpoint record along with the live data; when the new
  checkpoint does not fit any more it returns the error with the old one still the newest.  After the next power loss the mount restores the old offsets,
  which now hold other records, and since \<^verbatim>\<open>get\<close> does not compare the key in the record with the key asked for, it returns the value of \<open>b\<close> for \<open>a\<close>:
  for all values, on every flash of three sectors that satisfies the contract.
\<close>

theorem full_compaction_mixes_values:
  assumes "flash_controller ops contents healthy" "kv_flash s = Some f" "healthy f" "blank (contents f)" "length (contents f) = 1536" "clock_within mc"
    "length va \<le> 400" "length vb \<le> 400" "va \<noteq> []" "vb \<noteq> []"
  shows "fst (kv_run ops ini [OpReboot mc, OpPut key_b vb, OpPut key_a va, OpCkpt, OpCompact, OpReboot mc, OpGet key_a] s) =
    [Inr None, Inr None, Inr None, Inr None, Inl ''oob'', Inr None, Inr (Some vb)]"
  by (rule flash_controller.scenario_run [OF assms])

theorem full_compaction_mixes_values_witness:
  "fst (kv_run ram_ops (''ram'', ram_new 512)
      [OpReboot demo_clock, OpPut key_b [2], OpPut key_a [1], OpCkpt, OpCompact, OpReboot demo_clock, OpGet key_a] (demo_store 1536)) =
    [Inr None, Inr None, Inr None, Inr None, Inl ''oob'', Inr None, Inr (Some [2])]"
  by (rule full_compaction_mixes_values [OF ram.flash_controller_axioms demo_store_blank(1) TrueI demo_store_blank(2,3) demo_clock_within]) simp_all

end
