(* ===== verification/TickvScan.thy ===== *)
theory TickvScan
  imports TickvProps
begin

text \<open>
  Volume images that no sequence of operations need have produced: the scan of a raw image against the scan of a mount, and changed bytes in a record.
\<close>

unbundle bit_operations_syntax

section \<open>Scanning an image and mounting it\<close>

text \<open>
  No sector starts with the header of a record that is above the size limits and still inside the volume: the one case in which the two scans move on
  differently.
\<close>

definition no_oversized :: "bytes \<Rightarrow> bool" where
  "no_oversized data \<longleftrightarrow> (\<forall>i \<le> length data div 512.
     let hdr = slice (512 * i) HEADER data in
     hdr_tickv_shaped hdr \<and> (MAX_KLEN < hdr_klen hdr \<or> MAX_VLEN < hdr_vlen hdr) \<longrightarrow>
       length data < 512 * i + record_size (hdr_klen hdr) (hdr_vlen hdr))"

text \<open>\<open>stored_at data off v\<close>: a valid record with value \<open>v\<close> starts at \<open>off\<close>.\<close>

definition stored_at :: "bytes \<Rightarrow> nat \<Rightarrow> bytes \<Rightarrow> bool" where
  "stored_at data off v \<longleftrightarrow>
     (let hdr = slice off HEADER data; n = hdr_klen hdr + hdr_vlen hdr; body = slice (off + HEADER) n data in
      hdr_valid hdr \<and> off + HEADER + n \<le> length data \<and> unat (crc32 body) = hdr_crc hdr \<and> v = drop (hdr_klen hdr) body)"

fun found_value :: "bytes \<Rightarrow> nat option \<Rightarrow> bytes option \<Rightarrow> bool" where
  "found_value data None v \<longleftrightarrow> v = None"
| "found_value data (Some off) v \<longleftrightarrow> (\<exists>w. v = Some w \<and> stored_at data off w)"

text \<open>The index of a store and the result of a scan agree, the checkpoint's key aside; \<open>c\<close> is the store's count of corrupt records before the scan.\<close>

definition scan_rel :: "bytes \<Rightarrow> nat \<Rightarrow> 'f kv \<Rightarrow> scan_result \<Rightarrow> bool" where
  "scan_rel data c s out \<longleftrightarrow> bt_wf (kv_index s) \<and> bt_wf (sr_offsets out) \<and> bt_wf (sr_map out) \<and>
     bt_get (sr_offsets out) CKPT_KEY = None \<and> corrupt_records (kv_stats s) = sat64 (c + sr_corrupt out) \<and>
     (\<forall>k. k \<noteq> CKPT_KEY \<longrightarrow> bt_get (kv_index s) k = bt_get (sr_offsets out) k \<and>
        found_value data (bt_get (sr_offsets out) k) (bt_get (sr_map out) k))"

lemma bt_wf_remove: "bt_wf m \<Longrightarrow> bt_wf (bt_remove k m)"
  by (simp add: bt_remove_def bt_wf_filter)

lemma next_sector_aligned: "next_sector off mod 512 = 0"
  by (simp add: next_sector_def)

lemma step_aligned: "off mod 512 = 0 \<Longrightarrow> (off + record_size k v) mod 512 = 0"
  using record_size_aligned [of k v] by (metis add.right_neutral mod_add_eq mod_0)

lemma oversized_step:
  assumes "no_oversized data" "off mod 512 = 0" "off + HEADER \<le> length data" "length data < 2 ^ 63"
    "hdr_tickv_shaped (slice off HEADER data)" "MAX_KLEN < hdr_klen (slice off HEADER data) \<or> MAX_VLEN < hdr_vlen (slice off HEADER data)"
  shows "advance_oversized off (hdr_klen (slice off HEADER data)) (hdr_vlen (slice off HEADER data)) (length data) = next_sector off"
proof -
  let ?hdr = "slice off HEADER data"
  have o: "512 * (off div 512) = off" using assms(2) by auto
  have "off div 512 \<le> length data div 512" using assms(3) by (simp add: div_le_mono)
  with assms(1,5,6) o have "length data < off + record_size (hdr_klen ?hdr) (hdr_vlen ?hdr)" unfolding no_oversized_def Let_def by metis
  then have "\<not> min (off + record_size (hdr_klen ?hdr) (hdr_vlen ?hdr)) (2 ^ 64 - 1) \<le> length data" using assms(4) by (simp add: min_def)
  then show ?thesis by (simp add: advance_oversized_def Let_def)
qed

lemma sat64_step: "sat64 (sat64 (c + n) + 1) = sat64 (c + Suc n)"
  by (simp add: sat64_def)

lemma scan_rel_corrupt: "scan_rel data c s out \<Longrightarrow> scan_rel data c (add_corrupt s) (out\<lparr>sr_corrupt := sr_corrupt out + 1\<rparr>)"
  using sat64_step [of c "sr_corrupt out"] by (simp add: scan_rel_def add_corrupt_def)

lemma scan_rel_move:
  "scan_rel data c s (out\<lparr>sr_append_off := a\<rparr>) = scan_rel data c s out"
  "scan_rel data c s (out\<lparr>sr_truncated := t\<rparr>) = scan_rel data c s out"
  "scan_rel data c (add_dead n s) out = scan_rel data c s out"
  "scan_rel data c (add_live n s) out = scan_rel data c s out"
  "scan_rel data c (s\<lparr>kv_flash := fl\<rparr>) out = scan_rel data c s out"
  by (simp_all add: scan_rel_def add_dead_def add_live_def)

lemma scan_rel_index:
  assumes "scan_rel data c s out" "val \<noteq> [] \<longrightarrow> stored_at data off val"
  shows "scan_rel data c (scan_apply key val off tot s) (scan_index key val off out)"
proof (cases "from_utf8 key")
  case False
  then show ?thesis using scan_rel_corrupt [OF assms(1)] by (simp add: scan_apply_def scan_index_def)
next
  case True
  have wf: "bt_wf (kv_index s)" "bt_wf (sr_offsets out)" "bt_wf (sr_map out)" using assms(1) by (simp_all add: scan_rel_def)
  have "scan_rel data c (s\<lparr>kv_index := (if val = [] then bt_remove key (kv_index s) else bt_insert key off (kv_index s))\<rparr>) (scan_index key val off out)"
    using assms True wf unfolding scan_rel_def scan_index_def
    by (auto simp: bt_get_insert_eq bt_get_remove_eq bt_wf_insert bt_wf_remove)
  moreover have "bt_remove key (kv_index s) = kv_index s" if "\<not> bt_contains (kv_index s) key"
    using that wf(1) by (intro bt_ext) (auto simp: bt_wf_remove bt_get_remove_eq bt_contains_def)
  ultimately show ?thesis using True by (auto simp: scan_apply_def scan_rel_move)
qed

lemma shaped_dead: "hdr_tickv_shaped hdr \<Longrightarrow> hdr ! 3 = 0 \<longleftrightarrow> hdr_invalidated hdr"
  by (auto simp: hdr_tickv_shaped_def hdr_valid_def hdr_invalidated_def)

lemma scan_apply_frame: "kv_flash (scan_apply key val off tot s) = kv_flash s" "kv_env (scan_apply key val off tot s) = kv_env s"
  by (simp_all add: scan_apply_def)

context flash_controller
begin

text \<open>
  The two loops in step from a position on: they stop at the same offset with results that agree.  \<open>later_in_step\<close> is the induction hypothesis of the
  proof that they always are.
\<close>

definition in_step :: "nat \<Rightarrow> (nat \<Rightarrow> nat) \<Rightarrow> bytes \<Rightarrow> nat \<Rightarrow> nat \<Rightarrow> 'f kv \<Rightarrow> scan_result \<Rightarrow> bool" where
  "in_step dl now data c off s out \<longleftrightarrow>
     (\<exists>s'. scan_range_loop ops dl now (length data) off s = (Inr (fst (snd (scan_loop data off out))), s') \<and>
        scan_rel data c s' (fst (scan_loop data off out)) \<and> holds s' data \<and> kv_env s' = kv_env s)"

definition later_in_step :: "nat \<Rightarrow> (nat \<Rightarrow> nat) \<Rightarrow> bytes \<Rightarrow> nat \<Rightarrow> nat \<Rightarrow> bool" where
  "later_in_step dl now data c off \<longleftrightarrow>
     (\<forall>off' s out. off < off' \<longrightarrow> off' mod 512 = 0 \<longrightarrow> holds s data \<longrightarrow> scan_rel data c s out \<longrightarrow> in_step dl now data c off' s out)"

lemma in_step_later:
  assumes "later_in_step dl now data c off" "off < off'" "off' mod 512 = 0" "scan_loop data off out = scan_loop data off' out'"
    "scan_range_loop ops dl now (length data) off s = scan_range_loop ops dl now (length data) off' s'"
    "holds s' data" "scan_rel data c s' out'" "kv_env s' = kv_env s"
  shows "in_step dl now data c off s out"
  using assms unfolding later_in_step_def in_step_def by metis

lemma in_step_corrupt:
  assumes "later_in_step dl now data c off" "scan_loop data off out = scan_loop data (next_sector off) (out\<lparr>sr_corrupt := sr_corrupt out + 1\<rparr>)"
    "scan_range_loop ops dl now (length data) off s = scan_range_loop ops dl now (length data) (next_sector off) (add_corrupt s')"
    "holds s' data" "scan_rel data c s' out" "kv_env s' = kv_env s"
  shows "in_step dl now data c off s out"
  by (rule in_step_later [OF assms(1) next_sector_gt next_sector_aligned assms(2,3)])
    (use assms(4,6) scan_rel_corrupt [OF assms(5)] in \<open>simp_all add: holds_def\<close>)

text \<open>What the two loops do at a position whose header is \<open>hdr\<close>.\<close>

definition range_turn :: "nat \<Rightarrow> (nat \<Rightarrow> nat) \<Rightarrow> nat \<Rightarrow> nat \<Rightarrow> bytes \<Rightarrow> 'f kv \<Rightarrow> nat res \<times> 'f kv" where
  "range_turn dl now sz off hdr s =
     (let klen = hdr_klen hdr; vlen = hdr_vlen hdr; tot = record_size klen vlen in
      if \<not> hdr_tickv_shaped hdr then
        if hdr_blank hdr then (Inr off, s) else scan_range_loop ops dl now sz (next_sector off) (add_corrupt s)
      else if klen > MAX_KLEN \<or> vlen > MAX_VLEN then scan_range_loop ops dl now sz (next_sector off) (add_corrupt s)
      else if off + tot > sz then (Inr off, s)
      else if hdr_invalidated hdr then scan_range_loop ops dl now sz (off + tot) (add_dead tot s)
      else case with_flash (fl_read ops (off + HEADER) (klen + vlen)) s of
        (Inl e, s) \<Rightarrow> (Inl e, s)
      | (Inr body, s) \<Rightarrow>
        if unat (crc32 body) \<noteq> hdr_crc hdr then scan_range_loop ops dl now sz (next_sector off) (add_corrupt s)
        else scan_range_loop ops dl now sz (off + tot) (scan_apply (take klen body) (drop klen body) off tot s))"

lemma scan_range_turn:
  assumes "no_oversized data" "length data < 2 ^ 63" "\<forall>off. \<not> mount_scan_expired dl (now off)" "holds s data" "off mod 512 = 0"
    "off + HEADER \<le> length data" "scan_rel data c s out"
  obtains s1 where "scan_range_loop ops dl now (length data) off s = range_turn dl now (length data) off (slice off HEADER data) s1"
    "holds s1 data" "scan_rel data c s1 out" "kv_env s1 = kv_env s"
proof -
  from holds_read [OF assms(4,6)] obtain fl where
    r: "with_flash (fl_read ops off HEADER) s = (Inr (slice off HEADER data), s\<lparr>kv_flash := Some fl\<rparr>)" "healthy fl" "contents fl = data" by blast
  have "scan_range_loop ops dl now (length data) off s = range_turn dl now (length data) off (slice off HEADER data) (s\<lparr>kv_flash := Some fl\<rparr>)"
    using r(1) assms(3,6) oversized_step [OF assms(1,5,6,2)] by (subst scan_range_loop.simps) (simp add: Let_def range_turn_def)
  then show thesis by (rule that) (use r(2,3) assms(7) in \<open>simp_all add: holds_def scan_rel_move\<close>)
qed

lemma scan_loop_turn:
  assumes "off + HEADER \<le> length data" "hdr = slice off HEADER data" "klen = hdr_klen hdr" "vlen = hdr_vlen hdr" "tot = record_size klen vlen"
    "body = slice (off + HEADER) (klen + vlen) data"
  shows "scan_loop data off out =
      (if \<not> hdr_tickv_shaped hdr then
         if hdr_blank hdr then (out, off, True) else scan_loop data (next_sector off) (out\<lparr>sr_corrupt := sr_corrupt out + 1\<rparr>)
       else if klen > MAX_KLEN \<or> vlen > MAX_VLEN then scan_loop data (next_sector off) (out\<lparr>sr_corrupt := sr_corrupt out + 1\<rparr>)
       else if off + tot > length data then (out\<lparr>sr_truncated := True\<rparr>, off, False)
       else if hdr ! 3 = 0 then scan_loop data (off + tot) (out\<lparr>sr_append_off := max (sr_append_off out) (off + tot)\<rparr>)
       else if unat (crc32 body) \<noteq> hdr_crc hdr then scan_loop data (next_sector off) (out\<lparr>sr_corrupt := sr_corrupt out + 1\<rparr>)
       else scan_loop data (off + tot) (scan_index (take klen body) (drop klen body) off (out\<lparr>sr_append_off := max (sr_append_off out) (off + tot)\<rparr>)))"
  using assms by (subst scan_loop.simps) (simp only: Let_def if_True)

text \<open>At a valid record.\<close>

lemma in_step_record:
  assumes later: "later_in_step dl now data c off" and pos: "off + HEADER \<le> length data" "off mod 512 = 0"
    and turn: "scan_range_loop ops dl now (length data) off s = range_turn dl now (length data) off hdr s1"
    and s1: "holds s1 data" "scan_rel data c s1 out" "kv_env s1 = kv_env s"
    and hdr: "hdr = slice off HEADER data" "hdr_valid hdr" "\<not> hdr_invalidated hdr" "\<not> (hdr_klen hdr > MAX_KLEN \<or> hdr_vlen hdr > MAX_VLEN)"
      "\<not> off + record_size (hdr_klen hdr) (hdr_vlen hdr) > length data"
  shows "in_step dl now data c off s out"
proof -
  define klen vlen where k: "klen = hdr_klen hdr" "vlen = hdr_vlen hdr"
  define tot where tot: "tot = record_size klen vlen"
  define body where body: "body = slice (off + HEADER) (klen + vlen) data"
  note loop = scan_loop_turn [OF pos(1) hdr(1) k tot body, of out]
  have sh: "hdr_tickv_shaped hdr" "hdr ! 3 \<noteq> 0" using hdr(2,3) shaped_dead [of hdr] by (auto simp: hdr_tickv_shaped_def)
  have n: "off + HEADER + (klen + vlen) \<le> length data" using hdr(5) record_size_ge [of klen vlen] by (simp add: k HEADER_def)
  from holds_read [OF s1(1) n] obtain fl where
    b: "with_flash (fl_read ops (off + HEADER) (klen + vlen)) s1 = (Inr body, s1\<lparr>kv_flash := Some fl\<rparr>)" "healthy fl" "contents fl = data"
    unfolding body by blast
  let ?t = "s1\<lparr>kv_flash := Some fl\<rparr>"
  have t: "holds ?t data" "scan_rel data c ?t out" "kv_env ?t = kv_env s" using b(2,3) s1 by (simp_all add: holds_def scan_rel_move)
  have small: "\<not> (klen > MAX_KLEN \<or> vlen > MAX_VLEN)" "\<not> off + tot > length data" using hdr(4,5) by (simp_all add: k tot)
  have range: "scan_range_loop ops dl now (length data) off s =
      (if unat (crc32 body) \<noteq> hdr_crc hdr then scan_range_loop ops dl now (length data) (next_sector off) (add_corrupt ?t)
       else scan_range_loop ops dl now (length data) (off + tot) (scan_apply (take klen body) (drop klen body) off tot ?t))"
    using turn sh(1) hdr(3) small b(1) unfolding range_turn_def Let_def k [symmetric] tot [symmetric] by simp
  show ?thesis
  proof (cases "unat (crc32 body) = hdr_crc hdr")
    case False
    then show ?thesis by (intro in_step_corrupt [OF later _ _ t]) (use loop range sh small in simp_all)
  next
    case True
    have "stored_at data off (drop klen body)" using hdr(2) n True unfolding stored_at_def body k hdr(1) Let_def by simp
    then have r: "scan_rel data c (scan_apply (take klen body) (drop klen body) off tot ?t)
        (scan_index (take klen body) (drop klen body) off (out\<lparr>sr_append_off := max (sr_append_off out) (off + tot)\<rparr>))"
      by (intro scan_rel_index) (use t(2) in \<open>simp_all add: scan_rel_move\<close>)
    have "off < off + tot" "(off + tot) mod 512 = 0" using step_aligned [OF pos(2)] by (simp_all add: tot)
    then show ?thesis by (rule in_step_later [OF later _ _ _ _ _ r]) (use loop range sh small True t in \<open>simp_all add: scan_apply_frame holds_def\<close>)
  qed
qed

lemma scan_lockstep:
  assumes "no_oversized data" "length data < 2 ^ 63" "\<forall>off. \<not> mount_scan_expired dl (now off)"
  shows "holds s data \<Longrightarrow> off mod 512 = 0 \<Longrightarrow> scan_rel data c s out \<Longrightarrow> in_step dl now data c off s out"
proof (induction "length data - off" arbitrary: off out s rule: less_induct)
  case less
  show ?case
  proof (cases "off + HEADER \<le> length data")
    case False
    have "scan_loop data off out = (out, off, False)" using False by (subst scan_loop.simps) simp
    moreover have "scan_range_loop ops dl now (length data) off s = (Inr off, s)" using False by (subst scan_range_loop.simps) simp
    ultimately show ?thesis using less.prems by (simp add: in_step_def)
  next
    case True
    define hdr where "hdr = slice off HEADER data"
    let ?klen = "hdr_klen hdr" and ?vlen = "hdr_vlen hdr"
    let ?tot = "record_size ?klen ?vlen"
    note loop = scan_loop_turn [OF True hdr_def refl refl refl refl, of out]
    from scan_range_turn [OF assms less.prems(1,2) True less.prems(3)] obtain s1 where
      turn: "scan_range_loop ops dl now (length data) off s = range_turn dl now (length data) off hdr s1" and
      s1: "holds s1 data" "scan_rel data c s1 out" "kv_env s1 = kv_env s" unfolding hdr_def by blast
    have later: "later_in_step dl now data c off"
      using less.hyps True diff_less_mono2 [of off _ "length data"] by (auto simp: later_in_step_def HEADER_def)
    consider "\<not> hdr_tickv_shaped hdr" "hdr_blank hdr" | "\<not> hdr_tickv_shaped hdr" "\<not> hdr_blank hdr"
      | "hdr_tickv_shaped hdr" "?klen > MAX_KLEN \<or> ?vlen > MAX_VLEN"
      | "hdr_tickv_shaped hdr" "\<not> (?klen > MAX_KLEN \<or> ?vlen > MAX_VLEN)" "off + ?tot > length data"
      | "hdr_invalidated hdr" "\<not> (?klen > MAX_KLEN \<or> ?vlen > MAX_VLEN)" "\<not> off + ?tot > length data"
      | "hdr_valid hdr" "\<not> hdr_invalidated hdr" "\<not> (?klen > MAX_KLEN \<or> ?vlen > MAX_VLEN)" "\<not> off + ?tot > length data"
      unfolding hdr_tickv_shaped_def by blast
    then show ?thesis
    proof cases
      case 5
      then have "hdr_tickv_shaped hdr" "hdr ! 3 = 0" by (simp_all add: hdr_tickv_shaped_def hdr_invalidated_def)
      with 5 s1 step_aligned [OF less.prems(2)] show ?thesis
        by (intro in_step_later [OF later, where off' = "off + ?tot" and s' = "add_dead ?tot s1" and
          out' = "out\<lparr>sr_append_off := max (sr_append_off out) (off + ?tot)\<rparr>"]) (simp_all add: loop turn range_turn_def Let_def scan_rel_move holds_def)
    next
      case 6
      then show ?thesis by (rule in_step_record [OF later True less.prems(2) turn s1 hdr_def])
    qed (use loop turn s1 in_step_corrupt [OF later, of out s s1] in \<open>simp_all add: range_turn_def Let_def in_step_def scan_rel_move\<close>)
  qed
qed

lemma get_at:
  assumes "holds s data" "kv_ready s" "bt_get (kv_index s) k = Some off" "hdr = slice off HEADER data" "hdr_valid hdr" "n = hdr_klen hdr + hdr_vlen hdr"
    "off + HEADER + n \<le> length data"
  shows "fst (tv_get ops k s) = (if unat (crc32 (slice (off + HEADER) n data)) \<noteq> hdr_crc hdr then Inl ''corrupt''
    else Inr (drop (hdr_klen hdr) (slice (off + HEADER) n data)))"
proof -
  let ?t = "s\<lparr>kv_stats := (kv_stats s)\<lparr>gets := sat64 (gets (kv_stats s) + 1)\<rparr>\<rparr>"
  have "holds ?t data" "off + HEADER \<le> length data" using assms(1,7) by (simp_all add: holds_def)
  from holds_read [OF this] obtain fl where r: "with_flash (fl_read ops off HEADER) ?t = (Inr hdr, ?t\<lparr>kv_flash := Some fl\<rparr>)"
    "healthy fl" "contents fl = data" unfolding assms(4) by blast
  then have "holds (?t\<lparr>kv_flash := Some fl\<rparr>) data" by (simp add: holds_def)
  from holds_read [OF this assms(7)] obtain fl' where "with_flash (fl_read ops (off + HEADER) n) (?t\<lparr>kv_flash := Some fl\<rparr>) =
    (Inr (slice (off + HEADER) n data), ?t\<lparr>kv_flash := Some fl\<rparr>\<lparr>kv_flash := Some fl'\<rparr>)" by blast
  then show ?thesis using assms(2,3,5) r(1) unfolding tv_get_def Let_def assms(6) by simp
qed

lemma get_stored:
  assumes "holds s data" "kv_ready s" "found_value data (bt_get (kv_index s) k) v"
  shows "fst (tv_get ops k s) = (case v of None \<Rightarrow> Inl ''missing'' | Some w \<Rightarrow> Inr w)"
proof (cases "bt_get (kv_index s) k")
  case None
  then show ?thesis using assms(2,3) by (simp add: tv_get_def Let_def)
next
  case (Some off)
  with assms(3) obtain w where "v = Some w" "stored_at data off w" by auto
  then show ?thesis using get_at [OF assms(1,2) Some refl _ refl] by (simp add: stored_at_def Let_def)
qed

lemma recover_in_step:
  assumes "no_oversized data" "length data < 2 ^ 63" "\<forall>off. \<not> mount_scan_expired dl (now off)" "holds s data" "\<not> kv_degraded s"
    "corrupt_records (kv_stats s) < 2 ^ 64"
  shows "\<exists>s'. recover ops dl now s = (Inr (), s') \<and> holds s' data \<and> scan_rel data (corrupt_records (kv_stats s)) s' (scan_volume data)"
proof -
  let ?s = "s\<lparr>kv_index := [], kv_append := 0, kv_stats := (kv_stats s)\<lparr>live_bytes := 0, dead_bytes := 0\<rparr>\<rparr>"
  have "scan_rel data (corrupt_records (kv_stats s)) ?s scan_default"
    using assms(6) by (auto simp: scan_rel_def scan_default_def sat64_def bt_wf_def bt_get_def)
  moreover have "holds ?s data" using assms(4) by (simp add: holds_def)
  ultimately have "in_step dl now data (corrupt_records (kv_stats s)) 0 ?s scan_default" by (intro scan_lockstep [OF assms(1-3)]) simp_all
  then obtain s' off where s': "scan_range_loop ops dl now (length data) 0 ?s = (Inr off, s')" "holds s' data" "kv_env s' = kv_env s"
    "scan_rel data (corrupt_records (kv_stats s)) s' (fst (scan_loop data 0 scan_default))" unfolding in_step_def by auto
  obtain fl where fl: "kv_flash s = Some fl" "fl_size ops fl = length data" using assms(4) size_contents by (auto simp: holds_def)
  let ?t = "recompute_live_estimate (s'\<lparr>kv_append := off\<rparr>)"
  have "recover ops dl now s = (Inr (), ?t)" using s'(1,3) fl assms(5) by (simp add: recover_def scan_range_def kv_env_def)
  moreover have "scan_rel data (corrupt_records (kv_stats s)) ?t (scan_volume data)"
    using s'(4) by (cases "scan_loop data 0 scan_default") (auto simp: scan_volume_def scan_rel_def recompute_live_estimate_def)
  ultimately show ?thesis using s'(2) by (auto simp: holds_def)
qed

end

text \<open>
  C7.  The tool that reads a raw volume image sees what a mount sees.  On every image, corrupt ones included, in which no header announces a record above the
  size limits that would still fit into the volume, a full scan at mount time succeeds and gives the index of \<^verbatim>\<open>scan_volume\<close>, the checkpoint's key
  aside, counts the same number of corrupt records, and every \<^verbatim>\<open>get\<close> afterwards answers from \<^verbatim>\<open>scan_volume\<close>'s map.
\<close>

theorem scan_volume_is_recover:
  assumes "flash_controller ops contents healthy" "kv_flash s = Some f" "healthy f" "no_oversized (contents f)" "length (contents f) < 2 ^ 63"
    "\<forall>off. \<not> mount_scan_expired dl (now off)" "\<not> kv_degraded s" "corrupt_records (kv_stats s) < 2 ^ 64"
  shows "\<exists>s'. recover ops dl now s = (Inr (), s') \<and>
    bt_remove CKPT_KEY (kv_index s') = sr_offsets (scan_volume (contents f)) \<and>
    corrupt_records (kv_stats s') = sat64 (corrupt_records (kv_stats s) + sr_corrupt (scan_volume (contents f))) \<and>
    (\<forall>k. k \<noteq> CKPT_KEY \<longrightarrow> fst (tv_get ops k (s'\<lparr>kv_ready := True\<rparr>)) =
       (case bt_get (sr_map (scan_volume (contents f))) k of None \<Rightarrow> Inl ''missing'' | Some v \<Rightarrow> Inr v))"
proof -
  let ?out = "scan_volume (contents f)" and ?holds = "flash_controller.holds contents healthy"
  have "?holds s (contents f)" using assms(1-3) by (simp add: flash_controller.holds_def)
  from flash_controller.recover_in_step [OF assms(1,4-6) this assms(7,8)] obtain s' where
    s': "recover ops dl now s = (Inr (), s')" "?holds s' (contents f)" "scan_rel (contents f) (corrupt_records (kv_stats s)) s' ?out" by blast
  have "bt_remove CKPT_KEY (kv_index s') = sr_offsets ?out"
    by (rule bt_ext) (use s'(3) in \<open>auto simp: scan_rel_def bt_wf_remove bt_get_remove_eq\<close>)
  moreover have "fst (tv_get ops k (s'\<lparr>kv_ready := True\<rparr>)) = (case bt_get (sr_map ?out) k of None \<Rightarrow> Inl ''missing'' | Some v \<Rightarrow> Inr v)"
    if "k \<noteq> CKPT_KEY" for k
  proof (rule flash_controller.get_stored [OF assms(1)])
    show "?holds (s'\<lparr>kv_ready := True\<rparr>) (contents f)" using s'(2) assms(1) by (simp add: flash_controller.holds_def)
  qed (use s'(3) that in \<open>auto simp: scan_rel_def\<close>)
  ultimately show ?thesis using s'(1,3) by (auto simp: scan_rel_def)
qed

definition demo_image :: bytes where
  "demo_image = encode_record [0x6B] [1, 2]"

definition image_store :: "ram_flash kv" where
  "image_store = (demo_store 512)\<lparr>kv_flash := Some \<lparr>rf_data = demo_image\<rparr>\<rparr>"

lemma demo_image_record: "demo_image = rec_bytes (LogRec True [0x6B] [1, 2])" "rec_ok (LogRec True [0x6B] [1, 2])" "length demo_image = 512"
  by (simp_all add: demo_image_def rec_bytes_def rec_ok_def MAX_KLEN_def MAX_VLEN_def record_size_def HEADER_def)

lemma demo_image_fits: "no_oversized demo_image"
proof -
  have "slice 0 HEADER demo_image = rec_header (LogRec True [0x6B] [1, 2])"
    using slice_header [of "[]" "LogRec True [0x6B] [1, 2]" "[]"] by (simp add: demo_image_record(1) HEADER_def)
  moreover have "\<not> hdr_tickv_shaped (slice 512 HEADER demo_image)"
    by (simp add: slice_def demo_image_record(3) hdr_tickv_shaped_def hdr_valid_def hdr_invalidated_def)
  ultimately show ?thesis
    unfolding no_oversized_def demo_image_record(3)
    by (auto simp: Let_def header_fields [OF demo_image_record(2)] MAX_KLEN_def MAX_VLEN_def le_Suc_eq)
qed

theorem scan_volume_is_recover_witness:
  "\<exists>s'. recover ram_ops (mount_scan_deadline 0) (\<lambda>_. 0) image_store = (Inr (), s') \<and> bt_remove CKPT_KEY (kv_index s') = sr_offsets (scan_volume demo_image)"
  using scan_volume_is_recover [OF ram.flash_controller_axioms, of image_store "\<lparr>rf_data = demo_image\<rparr>" "mount_scan_deadline 0" "\<lambda>_. 0"]
    demo_image_fits demo_image_record(3)
  by (auto simp: image_store_def demo_store_def no_stats_def mount_scan_deadline_def mount_scan_expired_def)

section \<open>Changed bytes\<close>

definition flip_bytes :: "nat \<Rightarrow> bytes \<Rightarrow> bytes \<Rightarrow> bytes" where
  "flip_bytes off msk data = splice off (map2 (XOR) msk (slice off (length msk) data)) data"

lemma slice_around_splice:
  assumes "p \<le> off" "off + length ys \<le> p + n" "p + n \<le> length xs"
  shows "slice p n (splice off ys xs) = splice (off - p) ys (slice p n xs)"
  using assms by (intro nth_equalityI) (auto simp: nth_splice nth_slice add.commute)

lemma map2_xor_id: "length msk = length bs \<Longrightarrow> map2 (XOR) msk bs = bs \<Longrightarrow> \<forall>b \<in> set msk. b = (0 :: u8)"
proof (induction msk bs rule: list_induct2)
  case (Cons x xs y ys)
  then have "(x XOR y) XOR y = y XOR y" by simp
  then have "x = 0" by (simp add: xor.assoc)
  with Cons show ?case by simp
qed simp

lemma crc_flip:
  assumes "length msk \<le> 4" "i + length msk \<le> length body" "\<exists>b \<in> set msk. b \<noteq> 0"
  shows "crc32 (flip_bytes i msk body) \<noteq> crc32 body"
proof -
  define bs where "bs = slice i (length msk) body"
  have l: "length bs = length msk" using assms(2) by (simp add: bs_def)
  have "body = take i body @ bs @ drop (i + length msk) body" by (simp add: bs_def slice_def) (metis append_take_drop_id drop_drop add.commute)
  moreover have "flip_bytes i msk body = take i body @ map2 (XOR) msk bs @ drop (i + length msk) body" using l by (simp add: flip_bytes_def splice_def bs_def)
  moreover have "map2 (XOR) msk bs \<noteq> bs" using map2_xor_id [of msk bs] l assms(3) by auto
  ultimately show ?thesis using crc_detects_burst [of "map2 (XOR) msk bs" bs "take i body" "drop (i + length msk) body"] l assms(1) by simp
qed

context flash_controller
begin

lemma get_flipped:
  assumes "store_log {} s rs sz" "kv_ready s" "bt_get (kv_index s) k = Some off" "points_to rs off r" "lr_live r" "healthy f'"
    "contents f' = flip_bytes (off + HEADER + i) msk (contents (the (kv_flash s)))" "length msk \<le> 4"
    "i + length msk \<le> length (lr_key r) + length (lr_val r)" "\<exists>b \<in> set msk. b \<noteq> 0"
  shows "fst (tv_get ops k (s\<lparr>kv_flash := Some f'\<rparr>)) = Inl ''corrupt''"
proof -
  from assms(4) obtain pre post where r: "rs = pre @ r # post" "off = log_len pre" by (auto simp: points_to_def)
  from assms(1) obtain f tail where f: "kv_flash s = Some f" "contents f = log_bytes rs @ tail" "log_wf rs"
    by (auto simp: store_log_def flash_log_def holds_def)
  define n where "n = length (lr_key r) + length (lr_val r)"
  define data where "data = contents f"
  have ok: "rec_ok r" using f(3) r(1) by (simp add: log_wf_def)
  have d: "data = log_bytes pre @ rec_bytes r @ log_bytes post @ tail" by (simp add: data_def f(2) r(1))
  have h: "slice off HEADER data = rec_header r" "slice (off + HEADER) n data = lr_key r @ lr_val r"
    unfolding d r(2) HEADER_def n_def slice_header slice_body by simp_all
  have len: "off + HEADER + n \<le> length data" using rec_len_ge [of r] by (simp add: d r(2) HEADER_def n_def)
  have fd: "contents f' = flip_bytes (off + HEADER + i) msk data" using assms(7) f(1) by (simp add: data_def)
  have l: "length (map2 (XOR) msk (slice (off + HEADER + i) (length msk) data)) = length msk" using len assms(9) by (simp add: n_def)
  have h': "slice off HEADER (contents f') = rec_header r"
    unfolding fd flip_bytes_def h(1) [symmetric] using len assms(9) by (intro slice_splice_disjoint) (simp_all add: l n_def)
  have b': "slice (off + HEADER) n (contents f') = flip_bytes i msk (lr_key r @ lr_val r)"
    unfolding fd flip_bytes_def h(2) [symmetric] using len assms(9) by (subst slice_around_splice) (simp_all add: l n_def slice_slice)
  have "length (contents f') = length data" unfolding fd flip_bytes_def using len assms(9) by (intro length_splice) (simp add: l n_def)
  then have "off + HEADER + n \<le> length (contents f')" using len by simp
  moreover have "holds (s\<lparr>kv_flash := Some f'\<rparr>) (contents f')" using assms(6) by (simp add: holds_def)
  moreover have "crc32 (flip_bytes i msk (lr_key r @ lr_val r)) \<noteq> crc32 (lr_key r @ lr_val r)" using assms(8-10) by (intro crc_flip) simp_all
  then have "unat (crc32 (flip_bytes i msk (lr_key r @ lr_val r))) \<noteq> unat (crc32 (lr_key r @ lr_val r))" by (simp add: word_unat_eq_iff)
  ultimately show ?thesis using get_at [of "s\<lparr>kv_flash := Some f'\<rparr>" "contents f'" k off "rec_header r" n] assms(2,3,5) ok h' b'
    by (simp add: header_fields n_def)
qed

lemma kv_inv_flipped:
  assumes "kv_inv s m sz" "m k = Some v" "healthy f'"
    "contents f' = flip_bytes (the (offset_of k s) + HEADER + i) msk (contents (the (kv_flash s)))" "length msk \<le> 4"
    "i + length msk \<le> length k + length v" "\<exists>b \<in> set msk. b \<noteq> 0"
  shows "fst (tv_get ops k (s\<lparr>kv_flash := Some f'\<rparr>)) = Inl ''corrupt''"
proof -
  from assms(1) obtain rs where rs: "store_log {} s rs sz" "kv_of rs = m" "kv_ready s" by (auto simp: kv_inv_def)
  have k: "k \<noteq> CKPT_KEY" "log_kv rs k = Some v" using assms(2) rs(2) by (auto simp: kv_of_def split: if_splits)
  then obtain off where off: "log_index rs k = Some off" using log_index_kv [of rs k] by auto
  from log_index_record [OF off] k(2) obtain r where r: "points_to rs off r" "lr_live r" "lr_key r = k" "lr_val r = v" by auto
  have i: "bt_get (kv_index s) k = Some off" using rs(1) idx_for_Some [of "{}" "bt_get (kv_index s)", OF _ k(1) off] by (simp add: store_log_def)
  then show ?thesis using assms(3-7) r by (intro get_flipped [OF rs(1,3) i r(1,2)]) (simp_all add: offset_of_def)
qed

end

text \<open>
  C6.  A corrupted record is reported, never returned.  Take any state the store reaches within the limits and a key that has a value, and let the flash change
  behind its back in up to four consecutive bytes of that record's key and value: \<^verbatim>\<open>get\<close> answers that the record is corrupt.
\<close>

theorem get_detects_corruption:
  assumes "flash_controller ops contents healthy" "kv_flash s = Some f" "healthy f" "blank (contents f)" "length (contents f) < 2 ^ 32"
    "run_fits ops ini (OpReboot mc # cs) s" "s' = snd (kv_run ops ini (OpReboot mc # cs) s)"
    "snd (spec_run (OpReboot mc # cs) Map.empty) k = Some v" "healthy f'"
    "contents f' = flip_bytes (the (offset_of k s') + HEADER + i) msk (contents (the (kv_flash s')))"
    "length msk \<le> 4" "i + length msk \<le> length k + length v" "\<exists>b \<in> set msk. b \<noteq> 0"
  shows "fst (tv_get ops k (s'\<lparr>kv_flash := Some f'\<rparr>)) = Inl ''corrupt''"
proof -
  from flash_controller.run_from_blank [OF assms(1-6)] have
    "flash_controller.kv_inv contents healthy s' (snd (spec_run (OpReboot mc # cs) Map.empty)) (length (contents f))" unfolding assms(7) by blast
  from flash_controller.kv_inv_flipped [OF assms(1) this assms(8-13)] show ?thesis .
qed

theorem get_detects_corruption_witness:
  "\<exists>f'. fst (tv_get ram_ops [0x6B] ((snd (kv_run ram_ops (''ram'', ram_new 512) [OpReboot demo_clock, OpPut [0x6B] [1, 2]] (demo_store 4096)))
     \<lparr>kv_flash := Some f'\<rparr>)) = Inl ''corrupt''"
proof -
  let ?ini = "(''ram'', ram_new 512)" and ?cs = "[OpPut [0x6B] [1, 2]]"
  define s' where "s' = snd (kv_run ram_ops ?ini (OpReboot demo_clock # ?cs) (demo_store 4096))"
  define f' where "f' = \<lparr>rf_data = flip_bytes (the (offset_of [0x6B] s') + HEADER + 1) [0xFF] (rf_data (the (kv_flash s')))\<rparr>"
  have "length (rf_data (ram_new 4096)) < 2 ^ 32" by (simp add: demo_store_blank(3))
  then have "fst (tv_get ram_ops [0x6B] (s'\<lparr>kv_flash := Some f'\<rparr>)) = Inl ''corrupt''"
    by (rule get_detects_corruption [where i = 1 and msk = "[0xFF]" and v = "[1, 2]", OF ram.flash_controller_axioms demo_store_blank(1) TrueI demo_store_blank(2) _ demo_put_fits s'_def _ TrueI])
      (simp_all add: f'_def)
  then show ?thesis unfolding s'_def by blast
qed

end
