(* ===== verification/Spec2Isabelle.thy ===== *)
theory Spec2Isabelle
  imports TicketLock Mailbox Stamp EventBus LatentBus SchedulerBoot Crew Skills RunQueueProps RunQueueRace TickvDefects TickvScan
begin

text \<open>
  A verification development for the kernel crates of this repository: an operating system in Rust in which \<^emph>\<open>agents\<close> are polled by a cooperative
  scheduler, talk over in-memory buses, run \<^emph>\<open>skills\<close>, are handed to other cores through run queues, and keep their data in a key-value store on flash.

  \<^bold>\<open>The parts and how they meet.\<close>  Every shared structure of the system sits behind the ticket lock (\<^verbatim>\<open>crates/ticket-lock\<close>).  Agents publish events on
  the event bus, which stamps each into an audit ring (\<^verbatim>\<open>crates/event-bus\<close>), and exchange messages through mailboxes and latent vectors through the latent
  bus.  The scheduler (\<^verbatim>\<open>crates/agent-core\<close>) activates agents at boot, orders them, polls them under a budget watchdog and under hooks, and offloads the
  rings above 0 to the run queues of the other cores (\<^verbatim>\<open>crates/k_nano/src/smp\<close>).  Crews and state graphs sequence the work of several agents; the skill
  registry (\<^verbatim>\<open>crates/skill-registry\<close>) gates, checks and caches what agents execute.  The store (\<^verbatim>\<open>crates/k_nano/src/storage\<close>) is a log of records on one
  of three flash backends.

  \<^bold>\<open>Which theory models what.\<close>  A theory carries the names of the source; where a Rust name clashes with a constant of HOL or of another crate it has a
  prefix (\<open>tv_get\<close>, \<open>bt_insert\<close>, \<open>latent_publish\<close>).
  \<^item> \<^verbatim>\<open>Prelude\<close>: machine words, byte strings, \<open>slice\<close>/\<open>splice\<close> on buffers, little-endian codes, \<^verbatim>\<open>core::str::from_utf8\<close>, saturating arithmetic.
    \<^verbatim>\<open>BTreeMap\<close>: the ordered map of the standard library as a strictly sorted list, with its contract \<open>ordered_map\<close>.
  \<^item> \<^verbatim>\<open>TicketLock\<close> (\<^verbatim>\<open>ticket-lock/src/lib.rs\<close>): the record of the two counters, the atomic accesses of \<^verbatim>\<open>lock\<close>, \<^verbatim>\<open>try_lock\<close> and the guard's drop, and the
    step relation \<open>lock_step\<close> of any number of contexts.
  \<^item> \<^verbatim>\<open>Capability\<close>, \<^verbatim>\<open>Mailbox\<close> (\<^verbatim>\<open>capability.rs\<close>, \<^verbatim>\<open>event.rs\<close>, \<^verbatim>\<open>channel.rs\<close>, \<^verbatim>\<open>message_bus.rs\<close>), \<^verbatim>\<open>Stamp\<close> (\<^verbatim>\<open>stamp.rs\<close>), \<^verbatim>\<open>Hub\<close>
    (what both buses share), \<^verbatim>\<open>EventBus\<close> (\<^verbatim>\<open>bus.rs\<close>), \<^verbatim>\<open>LatentBus\<close> (\<^verbatim>\<open>latent.rs\<close>).  Queues shared by reference count live in an explicit heap;
    the outcome of a lock attempt is an argument.
  \<^item> \<^verbatim>\<open>Budget\<close> (\<^verbatim>\<open>budget.rs\<close>, \<^verbatim>\<open>hooks.rs\<close>), \<^verbatim>\<open>Agents\<close>, \<^verbatim>\<open>Scheduler\<close> (\<^verbatim>\<open>agent-core/src/lib.rs\<close>), proofs in \<^verbatim>\<open>SchedulerProofs\<close> and
    \<^verbatim>\<open>SchedulerBoot\<close>.  The kernel's hooks and the agents' own code are the record \<open>platform\<close> over an abstract world.
    \<^verbatim>\<open>Crew\<close> (\<^verbatim>\<open>crew.rs\<close>, \<^verbatim>\<open>state_graph.rs\<close>), \<^verbatim>\<open>Skills\<close> (the crate \<^verbatim>\<open>skill-registry\<close>).
  \<^item> \<^verbatim>\<open>Ring\<close>, \<^verbatim>\<open>RunQueue\<close> (\<^verbatim>\<open>smp/runqueue.rs\<close>, \<^verbatim>\<open>corepools.rs\<close>, \<^verbatim>\<open>percpu.rs\<close>, the quotas of \<^verbatim>\<open>allocator.rs\<close>), \<^verbatim>\<open>RunQueueProofs\<close>,
    \<^verbatim>\<open>RunQueueProps\<close>: the operations as atomic steps; \<^verbatim>\<open>RunQueueRace\<close>: one queue at the granularity of its atomic accesses.
  \<^item> \<^verbatim>\<open>Flash\<close> (\<^verbatim>\<open>storage/flash.rs\<close>): the trait \<^verbatim>\<open>FlashController\<close> as a record of operations, its implementations, and their contract.
    \<^verbatim>\<open>TickvCodec\<close>, \<^verbatim>\<open>Tickv\<close> (\<^verbatim>\<open>storage/tickv.rs\<close>): the record format and the store; \<open>'f kv\<close> is \<^verbatim>\<open>TickvLite\<close> with the statics of its module.
    \<^verbatim>\<open>TickvLog\<close>, \<^verbatim>\<open>TickvProofs\<close>, \<^verbatim>\<open>TickvCkpt\<close>, \<^verbatim>\<open>TickvGc\<close>: the log as a list of records, and each operation against it.
    \<^verbatim>\<open>TickvProps\<close>, \<^verbatim>\<open>TickvScan\<close>, \<^verbatim>\<open>TickvDefects\<close>: the properties of the whole store.

  \<^bold>\<open>Interfaces.\<close>  \<open>ordered_map\<close> is interpreted by the sorted lists (\<open>bt\<close>); \<open>bounded_fifo\<close> by channels, mailboxes and run queues (\<open>chan\<close>, \<open>box\<close>, \<open>runq\<close>);
  \<open>drop_oldest\<close> by the subscriptions of both buses (\<open>sub\<close>, \<open>thought\<close>); \<open>flash_controller\<close>, the contract the store relies on, by memory (\<open>ram\<close>) and, as a
  sublocale of \<open>file_volume\<close>, by every sector chain on a working disk (\<open>mock\<close> is the disk of the source's own tests).

  \<^bold>\<open>What is shown.\<close>
  \<^item> Locks: mutual exclusion, first-come-first-served, no orphaned ticket.
  \<^item> Buses: exact delivery and counts, bounded queues that keep the newest events, exactly-once mailboxes; the audit ring verifies after any history, names
    the first bad stamp, and cannot be altered without a hash collision.
  \<^item> Scheduler: interactive agents run in every cycle, inactive ones are never touched, the poll order, the timeline of the pause watchdog, termination of
    boot and of the tick lock.  Crews complete; skills run only through their gates; the cache returns what was stored.
  \<^item> Run queues: linearizable with one producer; no agent queued twice; an idle core leaves no work it could take; roles and memory quotas at boot.
  \<^item> Store: over every flash that keeps the contract, any sequence of operations, compactions and power losses between operations answers like a map;
    corrupted records are reported; the scan of a raw image agrees with a mount; compaction is never re-entered.
  \<^item> Defects, as theorems: a respawned display agent starves, concurrent producers lose a task, the skill cache confuses two skills, a put that does not fit
    destroys the old value, a compaction on a full flash makes one key answer with another's value, and the store cannot be mounted on NVMe.

  \<^bold>\<open>Bounds.\<close>  Loops with a structural or arithmetic measure are total functions.  \<open>init_loop\<close> carries the source's own bound of 10000 rounds.  The mutual
  recursion of \<^verbatim>\<open>compact\<close>, \<^verbatim>\<open>put_batch\<close> and the flush policy is \<open>compact_at\<close>, indexed by depth; depth 1 is the code, because no greater depth changes
  anything.  Offsets into a flash are naturals: a volume below \<open>2 ^ 63\<close> bytes cannot overflow them.  Counters that the source lets saturate saturate here,
  and indices that wrap are machine words.  Power is lost between operations, not inside one.

  \<^bold>\<open>Not modelled.\<close>  Device drivers, DMA, page tables and interrupts (they need a machine model); floating-point inference (\<^verbatim>\<open>cortex\<close>, most of \<^verbatim>\<open>k_ai\<close>);
  the concrete agents, the network stack, TLS and the WebAssembly runtime (\<^verbatim>\<open>hermes\<close>), which appear only as what an agent's tick returns; drawing, sound
  and video (\<^verbatim>\<open>jarbas\<close>, \<^verbatim>\<open>k_hal\<close>); log output everywhere.  Clocks, block devices, hash functions and hooks are parameters.  The
  memory order of atomics is taken as sequentially consistent.
\<close>

end
